(* ===== verification/Prelude.thy ===== *)
theory Prelude
  imports Main "HOL-Library.Word"
begin

text \<open>
  Shared vocabulary of the development: the C integer types of
  \<^verbatim>\<open>include/kernel/types.h\<close> as machine words, the \<^verbatim>\<open>errno\<close> values the
  kernel returns, the outcome of code that may dereference a bad pointer, and
  the generic lemmas on bit arrays, lists and words that the components share.
\<close>

unbundle bit_operations_syntax

section \<open>Types\<close>

type_synonym u8 = "8 word"
type_synonym u16 = "16 word"
type_synonym u32 = "32 word"
type_synonym u64 = "64 word"

text \<open>A kernel address; \<^verbatim>\<open>NULL\<close> is the address 0.\<close>

type_synonym ptr = u64

abbreviation NULL :: ptr where
  "NULL \<equiv> 0"

text \<open>The values of \<^verbatim>\<open>errno.h\<close> (the kernel returns them negated).\<close>

abbreviation (input) ENOENT :: int where "ENOENT \<equiv> 2"
abbreviation (input) ESRCH :: int where "ESRCH \<equiv> 3"
abbreviation (input) EINTR :: int where "EINTR \<equiv> 4"
abbreviation (input) EBADF :: int where "EBADF \<equiv> 9"
abbreviation (input) EAGAIN :: int where "EAGAIN \<equiv> 11"
abbreviation (input) ENOMEM :: int where "ENOMEM \<equiv> 12"
abbreviation (input) EACCES :: int where "EACCES \<equiv> 13"
abbreviation (input) EFAULT :: int where "EFAULT \<equiv> 14"
abbreviation (input) EBUSY :: int where "EBUSY \<equiv> 16"
abbreviation (input) EEXIST :: int where "EEXIST \<equiv> 17"
abbreviation (input) EISDIR :: int where "EISDIR \<equiv> 21"
abbreviation (input) EINVAL :: int where "EINVAL \<equiv> 22"
abbreviation (input) EMFILE :: int where "EMFILE \<equiv> 24"
abbreviation (input) ENODEV :: int where "ENODEV \<equiv> 19"
abbreviation (input) ENOTDIR :: int where "ENOTDIR \<equiv> 20"
abbreviation (input) EFBIG :: int where "EFBIG \<equiv> 27"
abbreviation (input) ENOSPC :: int where "ENOSPC \<equiv> 28"
abbreviation (input) ESPIPE :: int where "ESPIPE \<equiv> 29"
abbreviation (input) EROFS :: int where "EROFS \<equiv> 30"
abbreviation (input) ERANGE :: int where "ERANGE \<equiv> 34"
abbreviation (input) ENAMETOOLONG :: int where "ENAMETOOLONG \<equiv> 36"
abbreviation (input) ENOSYS :: int where "ENOSYS \<equiv> 38"
abbreviation (input) ELOOP :: int where "ELOOP \<equiv> 40"
abbreviation (input) EPERM :: int where "EPERM \<equiv> 1"
abbreviation (input) EIO :: int where "EIO \<equiv> 5"
abbreviation (input) ENXIO :: int where "ENXIO \<equiv> 6"
abbreviation (input) ENOEXEC :: int where "ENOEXEC \<equiv> 8"

text \<open>
  The values of the signed types: an integer as it is stored in 32 or 64 bits (two's
  complement, the wrap-around of the hardware).
\<close>

definition int32_of :: "int \<Rightarrow> int" where
  "int32_of i = signed_take_bit 31 i"

definition int64_of :: "int \<Rightarrow> int" where
  "int64_of i = signed_take_bit 63 i"

text \<open>\<^verbatim>\<open>PTR_IS_ERROR\<close> and \<^verbatim>\<open>PTR_IS_INVALID\<close>: the top 4095 addresses encode an error code.\<close>

definition PTR_IS_ERROR :: "ptr \<Rightarrow> bool" where
  "PTR_IS_ERROR p \<longleftrightarrow> p \<ge> - 4095"

definition PTR_IS_INVALID :: "ptr \<Rightarrow> bool" where
  "PTR_IS_INVALID p \<longleftrightarrow> p = NULL \<or> PTR_IS_ERROR p"

text \<open>\<^verbatim>\<open>ERR_PTR\<close> of a (negative) error code, and \<^verbatim>\<open>PTR_ERR\<close>.\<close>

definition ERR_PTR :: "int \<Rightarrow> ptr" where
  "ERR_PTR e = word_of_int e"

definition PTR_ERR :: "ptr \<Rightarrow> int" where
  "PTR_ERR p = sint p"

text \<open>
  The allocator, where only its success matters: a sequence of answers, one for each call;
  when the sequence ends there is no memory left.
\<close>

fun kalloc :: "bool list \<Rightarrow> bool \<times> bool list" where
  "kalloc [] = (False, [])"
| "kalloc (b # bs) = (b, bs)"

text \<open>
  The outcome of a piece of kernel code: it returns a value, or it accesses memory through a
  pointer or an index that does not lead to an object of the type it expects. A call of
  \<^verbatim>\<open>panic\<close> or \<^verbatim>\<open>assert\<close> is no outcome of its own: \<^verbatim>\<open>include/kernel/util/print.h\<close> defines both
  macros as empty, so the code goes on after the call.
\<close>

datatype 'a outcome = Return 'a | Fault

fun bind_outcome :: "'a outcome \<Rightarrow> ('a \<Rightarrow> 'b outcome) \<Rightarrow> 'b outcome" where
  "bind_outcome (Return x) f = f x"
| "bind_outcome Fault f = Fault"

lemma bind_outcome_Return_iff:
  "bind_outcome m f = Return y \<longleftrightarrow> (\<exists>x. m = Return x \<and> f x = Return y)"
  by (cases m) auto

text \<open>
  Code that may also run forever, as a walk along a damaged list: \<open>None\<close> is a run that does not
  end. The second operation runs the next piece of code after one that returns.
\<close>

fun bind_run :: "'a outcome option \<Rightarrow> ('a \<Rightarrow> 'b outcome option) \<Rightarrow> 'b outcome option" where
  "bind_run None f = None"
| "bind_run (Some Fault) f = Some Fault"
| "bind_run (Some (Return x)) f = f x"

lemma bind_run_Return_iff:
  "bind_run m f = Some (Return y) \<longleftrightarrow> (\<exists>x. m = Some (Return x) \<and> f x = Some (Return y))"
  by (cases "(m, f)" rule: bind_run.cases) auto

text \<open>A counting loop: \<open>f i\<close> for \<open>i\<close> from \<open>lo\<close> up to \<open>hi - 1\<close>, until a fault.\<close>

definition for_range :: "nat \<Rightarrow> nat \<Rightarrow> (nat \<Rightarrow> 's \<Rightarrow> 's outcome) \<Rightarrow> 's \<Rightarrow> 's outcome" where
  "for_range lo hi f s = fold (\<lambda>i r. bind_outcome r (f i)) [lo..<hi] (Return s)"

lemma for_range_empty [simp]: "hi \<le> lo \<Longrightarrow> for_range lo hi f s = Return s"
  by (simp add: for_range_def)

lemma for_range_Suc: "lo \<le> hi \<Longrightarrow> for_range lo (Suc hi) f s = bind_outcome (for_range lo hi f s) (f hi)"
  by (simp add: for_range_def)

lemma for_range_inv:
  assumes "for_range lo hi f s = Return t" "P s"
    and "\<And>i u v. lo \<le> i \<Longrightarrow> i < hi \<Longrightarrow> P u \<Longrightarrow> f i u = Return v \<Longrightarrow> P v"
  shows "P t"
  using assms
proof (induction hi arbitrary: t)
  case (Suc n)
  show ?case
  proof (cases "lo \<le> n")
    case True
    then obtain u where u: "for_range lo n f s = Return u" "f n u = Return t"
      using Suc.prems(1) by (auto simp: for_range_Suc bind_outcome_Return_iff)
    have "P u" by (rule Suc.IH [OF u(1) Suc.prems(2)]) (use Suc.prems(3) in \<open>simp add: less_Suc_eq\<close>)
    then show ?thesis using Suc.prems(3) [of n u t] u(2) True by simp
  qed (use Suc.prems in simp)
qed simp

section \<open>Collections of rewrite rules\<close>

named_theorems array_simps \<open>characteristic equations of the array and bitmap operations\<close>
named_theorems unfold_ops \<open>definitions of straight-line operations, unfolded together\<close>

section \<open>Signed integers\<close>

lemma int64_of_id: "- (2 ^ 63) \<le> i \<Longrightarrow> i < 2 ^ 63 \<Longrightarrow> int64_of i = i"
  by (simp add: int64_of_def signed_take_bit_int_eq_self)

lemma int32_of_id: "- (2 ^ 31) \<le> i \<Longrightarrow> i < 2 ^ 31 \<Longrightarrow> int32_of i = i"
  by (simp add: int32_of_def signed_take_bit_int_eq_self)

lemma int64_of_overflow: "2 ^ 63 \<le> i \<Longrightarrow> i < 2 ^ 64 \<Longrightarrow> int64_of i = i - 2 ^ 64"
proof -
  assume i: "2 ^ 63 \<le> i" "i < 2 ^ 64"
  have "signed_take_bit 63 i = signed_take_bit 63 (i - 2 ^ 64)"
    by (simp add: signed_take_bit_eq_iff_take_bit_eq take_bit_eq_mod)
  also have "\<dots> = i - 2 ^ 64" using i by (simp add: signed_take_bit_int_eq_self)
  finally show "int64_of i = i - 2 ^ 64" by (simp add: int64_of_def)
qed

lemma int64_of_bounds: "- (2 ^ 63) \<le> int64_of i" "int64_of i < 2 ^ 63"
  using signed_take_bit_int_greater_eq_minus_exp [of 63 i] signed_take_bit_int_less_exp [of 63 i]
  by (simp_all add: int64_of_def)

lemma int32_of_bounds: "- (2 ^ 31) \<le> int32_of i" "int32_of i < 2 ^ 31"
  using signed_take_bit_int_greater_eq_minus_exp [of 31 i] signed_take_bit_int_less_exp [of 31 i]
  by (simp_all add: int32_of_def)

lemma PTR_ERR_ERR_PTR:
  assumes "- 4095 \<le> e" "e < 0"
  shows "PTR_IS_ERROR (ERR_PTR e)" "PTR_ERR (ERR_PTR e) = e"
proof -
  have e: "uint (word_of_int e :: u64) = e + 2 ^ 64"
    using assms mod_add_self2 [of e "2 ^ 64"] mod_pos_pos_trivial [of "e + 2 ^ 64" "2 ^ 64"]
    by (simp add: uint_word_of_int_eq take_bit_eq_mod)
  then show "PTR_IS_ERROR (ERR_PTR e)" using assms by (simp add: PTR_IS_ERROR_def ERR_PTR_def word_le_def)
  show "PTR_ERR (ERR_PTR e) = e" using assms
    by (simp add: PTR_ERR_def ERR_PTR_def sint_sbintrunc' signed_take_bit_int_eq_self)
qed

section \<open>Lists\<close>

lemma set_list_update_distinct:
  "distinct xs \<Longrightarrow> i < length xs \<Longrightarrow> set (xs[i := x]) = insert x (set xs - {xs ! i})"
  by (rule set_update_distinct)

lemma list_all_nth_iff: "list_all P xs \<longleftrightarrow> (\<forall>i < length xs. P (xs ! i))"
  by (rule list_all_length)

lemma list_all_update: "list_all P xs \<Longrightarrow> P x \<Longrightarrow> list_all P (xs[i := x])"
  using set_update_subset_insert [of xs i x] by (auto simp: list_all_iff)

lemma list_all_replicate [simp]: "list_all P (replicate n x) \<longleftrightarrow> n = 0 \<or> P x"
  by (auto simp: list_all_iff)

lemma set_update_hole:
  assumes "i < length xs" "xs ! i = z" "p \<noteq> z"
  shows "{q \<in> set (xs[i := p]). q \<noteq> z} = insert p {q \<in> set xs. q \<noteq> z}"
proof (intro set_eqI iffI)
  fix q
  assume "q \<in> {q \<in> set (xs[i := p]). q \<noteq> z}"
  then show "q \<in> insert p {q \<in> set xs. q \<noteq> z}" using set_update_subset_insert [of xs i p] by auto
next
  fix q
  assume q: "q \<in> insert p {q \<in> set xs. q \<noteq> z}"
  show "q \<in> {q \<in> set (xs[i := p]). q \<noteq> z}"
  proof (cases "q = p")
    case False
    with q obtain j where "j < length xs" "xs ! j = q" "q \<noteq> z" by (auto simp: in_set_conv_nth)
    moreover from this have "j \<noteq> i" using assms(2) by auto
    ultimately have "j < length (xs[i := p])" "(xs[i := p]) ! j = q" by auto
    with \<open>q \<noteq> z\<close> show ?thesis by (auto simp: in_set_conv_nth)
  qed (use assms in \<open>auto simp: set_update_memI\<close>)
qed

lemma filter_in_set_distinct_length:
  "distinct xs \<Longrightarrow> length (filter P xs) = card {x \<in> set xs. P x}"
  by (metis distinct_card distinct_filter set_filter)

section \<open>Words\<close>

lemma word_succ_wrap:
  fixes v w :: "'a::len word"
  assumes "w + 1 < v" "v \<le> w"
  shows "w + 1 = 0"
proof (rule ccontr)
  assume "w + 1 \<noteq> 0"
  then have "unat (w + 1) = Suc (unat w)" using unatSuc [of w] by (simp add: add.commute)
  with assms show False by (simp add: word_less_nat_alt word_le_nat_alt)
qed

lemma or_eq_add_nat: "n < 2 ^ s \<Longrightarrow> b * 2 ^ s OR n = b * 2 ^ s + (n :: nat)"
proof -
  assume "n < 2 ^ s"
  then have "take_bit s n = n" by (simp add: take_bit_nat_eq_self)
  moreover have "push_bit s b AND take_bit s n = 0" by (rule bit_eqI) (auto simp: bit_simps)
  ultimately have "push_bit s b + n = push_bit s b OR n" by (simp add: disjunctive_add_eq_or)
  then show ?thesis by (simp add: push_bit_eq_mult)
qed

lemma or_eq_add_word: "n < 2 ^ s \<Longrightarrow> of_nat (b * 2 ^ s) OR of_nat n = (of_nat (b * 2 ^ s + n) :: 'a::len word)"
  by (simp only: or_eq_add_nat of_nat_or_eq [symmetric])

lemma unat_ucast_32_64 [simp]: "unat (ucast (w :: u32) :: u64) = unat w"
proof -
  have "unat w < 2 ^ LENGTH(32)" by (rule unsigned_less)
  then have "unat w < 2 ^ 64" by simp
  then show ?thesis by (simp add: unsigned_ucast_eq take_bit_nat_eq_self)
qed

lemma unat_ucast_64_32: "unat w < 2 ^ 32 \<Longrightarrow> unat (ucast (w :: u64) :: u32) = unat w"
  by (simp add: unsigned_ucast_eq take_bit_nat_eq_self)

lemma ucast_of_nat_32: "n < 2 ^ 32 \<Longrightarrow> ucast (of_nat n :: u32) = (of_nat n :: u64)"
  by (simp add: unsigned_of_nat take_bit_nat_eq_self)

lemma of_nat_eq_64: "m < 2 ^ 64 \<Longrightarrow> n < 2 ^ 64 \<Longrightarrow> (of_nat m :: u64) = of_nat n \<longleftrightarrow> m = n"
  by (simp add: word_of_nat_eq_iff take_bit_nat_eq_self)

section \<open>Bit arrays\<close>

text \<open>
  The kernel keeps bitmaps as arrays of bytes (\<^verbatim>\<open>pid_map\<close>, the slab bitmap) and as
  arrays of 64-bit words (signal sets, radix tree tags, \<^verbatim>\<open>test_bit\<close> and friends): bit
  \<open>i\<close> is bit \<open>i mod w\<close> of element \<open>i div w\<close>. The three operations below are this
  layout, for elements of any width.
\<close>

definition wa_test :: "'a::len word list \<Rightarrow> nat \<Rightarrow> bool" where
  "wa_test xs i = bit (xs ! (i div LENGTH('a))) (i mod LENGTH('a))"

definition wa_set :: "'a::len word list \<Rightarrow> nat \<Rightarrow> 'a word list" where
  "wa_set xs i =
     xs[i div LENGTH('a) := xs ! (i div LENGTH('a)) OR push_bit (i mod LENGTH('a)) 1]"

definition wa_clear :: "'a::len word list \<Rightarrow> nat \<Rightarrow> 'a word list" where
  "wa_clear xs i =
     xs[i div LENGTH('a) := xs ! (i div LENGTH('a)) AND NOT (push_bit (i mod LENGTH('a)) 1)]"

definition wa_cap :: "'a::len word list \<Rightarrow> nat" where
  "wa_cap xs = length xs * LENGTH('a)"

lemma div_mod_eq_iff: "(i::nat) div n = j div n \<and> i mod n = j mod n \<longleftrightarrow> i = j"
  by (metis div_mult_mod_eq)

lemma wa_div_less:
  fixes xs :: "'a::len word list"
  assumes "i < wa_cap xs"
  shows "i div LENGTH('a) < length xs"
  using assms by (simp add: wa_cap_def less_mult_imp_div_less)

lemma bit_or_exp:
  fixes w :: "'a::len word"
  assumes "n < LENGTH('a)" "m < LENGTH('a)"
  shows "bit (w OR 2 ^ n) m \<longleftrightarrow> m = n \<or> bit w m"
  using assms by (auto simp: bit_or_iff bit_exp_iff)

lemma bit_and_not_exp:
  fixes w :: "'a::len word"
  assumes "n < LENGTH('a)" "m < LENGTH('a)"
  shows "bit (w AND NOT (2 ^ n)) m \<longleftrightarrow> m \<noteq> n \<and> bit w m"
  using assms by (auto simp: bit_and_iff bit_not_iff bit_exp_iff)

lemma wa_test_set [array_simps]:
  fixes xs :: "'a::len word list"
  assumes "i < wa_cap xs" "j < wa_cap xs"
  shows "wa_test (wa_set xs i) j \<longleftrightarrow> j = i \<or> wa_test xs j"
proof (cases "i div LENGTH('a) = j div LENGTH('a)")
  case True
  then show ?thesis
    using wa_div_less [OF assms(1)] div_mod_eq_iff [of i "LENGTH('a)" j]
    by (auto simp: wa_test_def wa_set_def bit_or_exp)
next
  case False
  then show ?thesis by (auto simp: wa_test_def wa_set_def)
qed

lemma wa_test_clear [array_simps]:
  fixes xs :: "'a::len word list"
  assumes "i < wa_cap xs" "j < wa_cap xs"
  shows "wa_test (wa_clear xs i) j \<longleftrightarrow> j \<noteq> i \<and> wa_test xs j"
proof (cases "i div LENGTH('a) = j div LENGTH('a)")
  case True
  then show ?thesis
    using wa_div_less [OF assms(1)] div_mod_eq_iff [of i "LENGTH('a)" j]
    by (auto simp: wa_test_def wa_clear_def bit_and_not_exp)
next
  case False
  then show ?thesis by (auto simp: wa_test_def wa_clear_def)
qed

lemma length_wa_set [simp]: "length (wa_set xs i) = length xs"
  by (simp add: wa_set_def)

lemma length_wa_clear [simp]: "length (wa_clear xs i) = length xs"
  by (simp add: wa_clear_def)

lemma wa_cap_set [simp]: "wa_cap (wa_set xs i) = wa_cap xs"
  by (simp add: wa_cap_def)

lemma wa_cap_clear [simp]: "wa_cap (wa_clear xs i) = wa_cap xs"
  by (simp add: wa_cap_def)

lemma wa_test_replicate_0 [simp]: "i < n * LENGTH('a) \<Longrightarrow> \<not> wa_test (replicate n (0::'a::len word)) i"
  by (simp add: wa_test_def less_mult_imp_div_less)

text \<open>
  The interface a bitmap offers its clients: a test, a set and a clear operation on the
  bits below a capacity. The client lemmas (how the set of marked bits and its size
  change) are proved once from the laws.
\<close>

locale bit_array =
  fixes tst :: "'m \<Rightarrow> nat \<Rightarrow> bool"
    and st :: "'m \<Rightarrow> nat \<Rightarrow> 'm"
    and clr :: "'m \<Rightarrow> nat \<Rightarrow> 'm"
    and cap :: "'m \<Rightarrow> nat"
  assumes tst_st: "i < cap m \<Longrightarrow> j < cap m \<Longrightarrow> tst (st m i) j \<longleftrightarrow> j = i \<or> tst m j"
    and tst_clr: "i < cap m \<Longrightarrow> j < cap m \<Longrightarrow> tst (clr m i) j \<longleftrightarrow> j \<noteq> i \<and> tst m j"
    and cap_st: "cap (st m i) = cap m"
    and cap_clr: "cap (clr m i) = cap m"
begin

lemma marked_st:
  "i < cap m \<Longrightarrow> {j. j < cap m \<and> tst (st m i) j} = insert i {j. j < cap m \<and> tst m j}"
  by (auto simp: tst_st)

lemma marked_clr:
  "i < cap m \<Longrightarrow> {j. j < cap m \<and> tst (clr m i) j} = {j. j < cap m \<and> tst m j} - {i}"
  by (auto simp: tst_clr)

lemma card_marked_st:
  "i < cap m \<Longrightarrow> \<not> tst m i \<Longrightarrow>
   card {j. j < cap m \<and> tst (st m i) j} = Suc (card {j. j < cap m \<and> tst m j})"
  by (simp add: marked_st)

lemma card_marked_clr:
  "i < cap m \<Longrightarrow> tst m i \<Longrightarrow>
   Suc (card {j. j < cap m \<and> tst (clr m i) j}) = card {j. j < cap m \<and> tst m j}"
  using card.remove [of "{j. j < cap m \<and> tst m j}" i] by (simp add: marked_clr)

lemma clr_st:
  "i < cap m \<Longrightarrow> \<not> tst m i \<Longrightarrow> j < cap m \<Longrightarrow> tst (clr (st m i) i) j \<longleftrightarrow> tst m j"
  by (auto simp: tst_clr tst_st cap_st)

end

interpretation wa: bit_array wa_test wa_set wa_clear wa_cap
  by unfold_locales (auto simp: wa_test_set wa_test_clear)

end
