(* ===== verification/Klist.thy ===== *)
theory Klist
  imports Prelude
begin

text \<open>
  The intrusive circular doubly linked lists of \<^verbatim>\<open>include/kernel/util/list.h\<close>, on an
  explicit store: the \<^verbatim>\<open>next\<close> and \<^verbatim>\<open>prev\<close> words of every \<^verbatim>\<open>list_head\<close> by its address. The
  abstraction \<open>dll s h xs\<close> says that the head \<open>h\<close> leads through exactly the nodes \<open>xs\<close>; the
  lemmas show that each operation is the operation on sequences and leaves all lists it
  does not share a node with alone. The components that keep their objects on such lists
  (ready queue, page lists, VMA lists, LRU lists) are modelled on sequences.
\<close>

section \<open>Model\<close>

record list_store =
  next_of :: "ptr \<Rightarrow> ptr"
  prev_of :: "ptr \<Rightarrow> ptr"

definition set_next :: "ptr \<Rightarrow> ptr \<Rightarrow> list_store \<Rightarrow> list_store" where
  "set_next p v s = s\<lparr>next_of := (next_of s)(p := v)\<rparr>"

definition set_prev :: "ptr \<Rightarrow> ptr \<Rightarrow> list_store \<Rightarrow> list_store" where
  "set_prev p v s = s\<lparr>prev_of := (prev_of s)(p := v)\<rparr>"

definition INIT_LIST_HEAD :: "ptr \<Rightarrow> list_store \<Rightarrow> list_store" where
  "INIT_LIST_HEAD l s = set_prev l l (set_next l l s)"

definition list_add_between :: "ptr \<Rightarrow> ptr \<Rightarrow> ptr \<Rightarrow> list_store \<Rightarrow> list_store" where
  "list_add_between new_node prev nxt s =
     set_next prev new_node (set_prev new_node prev (set_next new_node nxt (set_prev nxt new_node s)))"

definition list_add :: "ptr \<Rightarrow> ptr \<Rightarrow> list_store \<Rightarrow> list_store" where
  "list_add new_node head s = list_add_between new_node head (next_of s head) s"

definition list_add_tail :: "ptr \<Rightarrow> ptr \<Rightarrow> list_store \<Rightarrow> list_store" where
  "list_add_tail new_node head s = list_add_between new_node (prev_of s head) head s"

definition list_del_between :: "ptr \<Rightarrow> ptr \<Rightarrow> list_store \<Rightarrow> list_store" where
  "list_del_between prev nxt s = set_next prev nxt (set_prev nxt prev s)"

definition list_del_init :: "ptr \<Rightarrow> list_store \<Rightarrow> list_store" where
  "list_del_init x s = INIT_LIST_HEAD x (list_del_between (prev_of s x) (next_of s x) s)"

definition list_del :: "ptr \<Rightarrow> list_store \<Rightarrow> list_store" where
  "list_del x s = set_prev x NULL (set_next x NULL (list_del_between (prev_of s x) (next_of s x) s))"

definition list_move :: "ptr \<Rightarrow> ptr \<Rightarrow> list_store \<Rightarrow> list_store" where
  "list_move x head s = list_add x head (list_del_between (prev_of s x) (next_of s x) s)"

definition list_move_tail :: "ptr \<Rightarrow> ptr \<Rightarrow> list_store \<Rightarrow> list_store" where
  "list_move_tail x head s = list_add_tail x head (list_del_between (prev_of s x) (next_of s x) s)"

definition list_empty :: "ptr \<Rightarrow> list_store \<Rightarrow> bool" where
  "list_empty head s \<longleftrightarrow> next_of s head = head"

definition list_splice_between :: "ptr \<Rightarrow> ptr \<Rightarrow> ptr \<Rightarrow> list_store \<Rightarrow> list_store" where
  "list_splice_between l prev nxt s =
     (let first = next_of s l; last = prev_of s l
      in set_prev nxt last (set_next last nxt (set_next prev first (set_prev first prev s))))"

definition list_splice :: "ptr \<Rightarrow> ptr \<Rightarrow> list_store \<Rightarrow> list_store" where
  "list_splice l head s =
     (if \<not> list_empty l s then list_splice_between l head (next_of s head) s else s)"

definition list_splice_init :: "ptr \<Rightarrow> ptr \<Rightarrow> list_store \<Rightarrow> list_store" where
  "list_splice_init l head s =
     (if \<not> list_empty l s then INIT_LIST_HEAD l (list_splice_between l head (next_of s head) s) else s)"

text \<open>
  The nodes \<^verbatim>\<open>list_for_each\<close> visits from \<^verbatim>\<open>pos\<close> on; on a damaged list the walk may never come
  back to the head, which is \<open>None\<close>.
\<close>

partial_function (option) list_for_each :: "list_store \<Rightarrow> ptr \<Rightarrow> ptr \<Rightarrow> ptr list option" where
  "list_for_each s head pos =
     (if pos = head then Some []
      else Option.bind (list_for_each s head (next_of s pos)) (\<lambda>rest. Some (pos # rest)))"

section \<open>Specification\<close>

text \<open>The nodes \<open>xs\<close> lie between \<open>a\<close> and \<open>b\<close>, linked in both directions.\<close>

fun seg :: "list_store \<Rightarrow> ptr \<Rightarrow> ptr list \<Rightarrow> ptr \<Rightarrow> bool" where
  "seg s a [] b \<longleftrightarrow> next_of s a = b \<and> prev_of s b = a"
| "seg s a (x # xs) b \<longleftrightarrow> next_of s a = x \<and> prev_of s x = a \<and> seg s x xs b"

definition dll :: "list_store \<Rightarrow> ptr \<Rightarrow> ptr list \<Rightarrow> bool" where
  "dll s h xs \<longleftrightarrow> distinct (h # xs) \<and> seg s h xs h"

text \<open>\<open>s'\<close> differs from \<open>s\<close> only in the words of the nodes in \<open>A\<close>.\<close>

definition only_changes :: "ptr set \<Rightarrow> list_store \<Rightarrow> list_store \<Rightarrow> bool" where
  "only_changes A s s' \<longleftrightarrow> (\<forall>p. p \<notin> A \<longrightarrow> next_of s' p = next_of s p \<and> prev_of s' p = prev_of s p)"

section \<open>Lemmas\<close>

lemma next_set_next [simp]: "next_of (set_next p v s) = (next_of s)(p := v)"
  by (simp add: set_next_def)

lemma prev_set_next [simp]: "prev_of (set_next p v s) = prev_of s"
  by (simp add: set_next_def)

lemma next_set_prev [simp]: "next_of (set_prev p v s) = next_of s"
  by (simp add: set_prev_def)

lemma prev_set_prev [simp]: "prev_of (set_prev p v s) = (prev_of s)(p := v)"
  by (simp add: set_prev_def)

lemma seg_append: "seg s a (xs @ x # ys) b \<longleftrightarrow> seg s a xs x \<and> seg s x ys b"
  by (induction xs arbitrary: a) auto

lemma seg_cong:
  assumes "\<And>p. p \<in> set (a # xs) \<Longrightarrow> next_of s' p = next_of s p"
    and "\<And>p. p \<in> set (xs @ [b]) \<Longrightarrow> prev_of s' p = prev_of s p"
  shows "seg s' a xs b \<longleftrightarrow> seg s a xs b"
  using assms by (induction xs arbitrary: a) auto

lemma seg_last: "seg s a xs b \<Longrightarrow> prev_of s b = last (a # xs)"
  by (induction xs arbitrary: a) auto

lemma seg_first: "seg s a xs b \<Longrightarrow> next_of s a = hd (xs @ [b])"
  by (cases xs) auto

lemma dll_frame:
  assumes "dll s h xs" "only_changes A s s'" "A \<inter> set (h # xs) = {}"
  shows "dll s' h xs"
  using assms seg_cong [of h xs s' s h] by (auto simp: dll_def only_changes_def)

lemma list_empty_dll: "dll s h xs \<Longrightarrow> list_empty h s \<longleftrightarrow> xs = []"
  by (cases xs) (auto simp: dll_def list_empty_def)

lemma dll_INIT: "dll (INIT_LIST_HEAD h s) h []"
  by (simp add: dll_def INIT_LIST_HEAD_def)

lemma seg_split: "seg s a (xs @ ys) b \<longleftrightarrow> seg s a xs (hd (ys @ [b])) \<and> seg s (last (a # xs)) ys b"
  by (induction xs arbitrary: a) (cases ys; auto)+

text \<open>A segment after its end, or its start, has been replaced.\<close>

lemma seg_new_end:
  assumes "seg s a xs y" "distinct (a # xs)"
    and "\<And>q. q \<in> set (butlast (a # xs)) \<Longrightarrow> next_of s' q = next_of s q"
    and "\<And>q. q \<in> set xs \<Longrightarrow> prev_of s' q = prev_of s q"
    and "next_of s' (last (a # xs)) = x" "prev_of s' x = last (a # xs)"
  shows "seg s' a xs x"
  using assms by (induction xs arbitrary: a) (auto split: if_splits)

lemma seg_new_start:
  assumes "seg s a ys b"
    and "\<And>q. q \<in> set ys \<Longrightarrow> next_of s' q = next_of s q"
    and "\<And>q. q \<in> set (tl (ys @ [b])) \<Longrightarrow> prev_of s' q = prev_of s q"
    and "next_of s' x = hd (ys @ [b])" "prev_of s' (hd (ys @ [b])) = x"
  shows "seg s' x ys b"
  using assms seg_cong [of "hd ys" "tl ys" s' s b] by (cases ys) auto

lemma last_notin_butlast: "distinct (a # xs) \<Longrightarrow> last (a # xs) \<notin> set (butlast (a # xs))"
  by (metis append_butlast_last_id distinct_append disjoint_insert(1) list.distinct(1) list.set(2) insert_disjoint(2) empty_set list.simps(15))

lemma hd_notin_tl: "distinct (ys @ [b]) \<Longrightarrow> hd (ys @ [b]) \<notin> set (tl (ys @ [b]))"
  by (cases ys) auto

text \<open>Insertion between two adjacent nodes of a list.\<close>

lemma dll_insert:
  assumes d: "dll s h (xs @ ys)" and x: "x \<notin> set (h # xs @ ys)"
  shows "dll (list_add_between x (last (h # xs)) (hd (ys @ [h])) s) h (xs @ x # ys)"
proof -
  let ?p = "last (h # xs)" and ?n = "hd (ys @ [h])"
  let ?s = "list_add_between x ?p ?n s"
  have sg: "seg s h xs ?n" "seg s ?p ys h" and dis: "distinct (h # xs)" "distinct (ys @ [h])" "set xs \<inter> set ys = {}"
    using d by (auto simp: dll_def seg_split)
  have p: "?p \<in> set (h # xs)" by (rule last_in_set) simp
  have n: "?n \<in> set (ys @ [h])" by (cases ys) auto
  have px: "?p \<noteq> x" "?n \<noteq> x" using p n x by auto
  have "seg ?s h xs x"
  proof (rule seg_new_end [OF sg(1) dis(1)])
    show "next_of ?s q = next_of s q" if "q \<in> set (butlast (h # xs))" for q
      using that last_notin_butlast [OF dis(1)] in_set_butlastD [OF that] x by (auto simp: list_add_between_def)
    show "prev_of ?s q = prev_of s q" if "q \<in> set xs" for q
      using that n x dis by (auto simp: list_add_between_def)
  qed (use px in \<open>auto simp: list_add_between_def\<close>)
  moreover have "seg ?s x ys h"
  proof (rule seg_new_start [OF sg(2)])
    show "next_of ?s q = next_of s q" if "q \<in> set ys" for q
      using that p x dis by (auto simp: list_add_between_def)
    show "prev_of ?s q = prev_of s q" if "q \<in> set (tl (ys @ [h]))" for q
      using that hd_notin_tl [OF dis(2)] list.set_sel(2) [of "ys @ [h]" q] x by (auto simp: list_add_between_def)
  qed (use px in \<open>auto simp: list_add_between_def\<close>)
  ultimately show ?thesis using d x by (auto simp: dll_def seg_append)
qed

lemma dll_remove:
  assumes d: "dll s h (xs @ x # ys)"
  shows "prev_of s x = last (h # xs)" "next_of s x = hd (ys @ [h])"
    "dll (list_del_between (prev_of s x) (next_of s x) s) h (xs @ ys)"
proof -
  let ?p = "last (h # xs)" and ?n = "hd (ys @ [h])"
  have sg: "seg s h xs x" "seg s x ys h" and dis: "distinct (h # xs)" "distinct (ys @ [h])" "set xs \<inter> set ys = {}"
    and x: "x \<notin> set (h # xs @ ys)"
    using d by (auto simp: dll_def seg_append)
  show pr: "prev_of s x = ?p" and nx: "next_of s x = ?n" using sg seg_last seg_first by blast+
  let ?s = "list_del_between ?p ?n s"
  have p: "?p \<in> set (h # xs)" by (rule last_in_set) simp
  have n: "?n \<in> set (ys @ [h])" by (cases ys) auto
  have "seg ?s h xs ?n"
  proof (rule seg_new_end [OF sg(1) dis(1)])
    show "next_of ?s q = next_of s q" if "q \<in> set (butlast (h # xs))" for q
      using that last_notin_butlast [OF dis(1)] by (auto simp: list_del_between_def)
    show "prev_of ?s q = prev_of s q" if "q \<in> set xs" for q
      using that n dis by (auto simp: list_del_between_def)
  qed (auto simp: list_del_between_def)
  moreover have "seg ?s ?p ys h"
  proof (rule seg_new_start [OF sg(2)])
    show "next_of ?s q = next_of s q" if "q \<in> set ys" for q
      using that p dis by (auto simp: list_del_between_def)
    show "prev_of ?s q = prev_of s q" if "q \<in> set (tl (ys @ [h]))" for q
      using that hd_notin_tl [OF dis(2)] by (auto simp: list_del_between_def)
  qed (auto simp: list_del_between_def)
  ultimately show "dll (list_del_between (prev_of s x) (next_of s x) s) h (xs @ ys)"
    using d unfolding pr nx by (auto simp: dll_def seg_split)
qed

subsection \<open>Refinement of the operations\<close>

lemma dll_list_add: "dll s h xs \<Longrightarrow> x \<notin> set (h # xs) \<Longrightarrow> dll (list_add x h s) h (x # xs)"
  using dll_insert [of s h "[]" xs x] by (auto simp: list_add_def dll_def seg_first)

lemma dll_list_add_tail: "dll s h xs \<Longrightarrow> x \<notin> set (h # xs) \<Longrightarrow> dll (list_add_tail x h s) h (xs @ [x])"
  using dll_insert [of s h xs "[]" x] seg_last [of s h xs h] by (auto simp: list_add_tail_def dll_def)

lemma only_changes_list_add:
  assumes "dll s h xs"
  shows "only_changes (insert x (set (h # xs))) s (list_add x h s)"
    and "only_changes (insert x (set (h # xs))) s (list_add_tail x h s)"
proof -
  have "next_of s h \<in> set (h # xs)" using assms by (cases xs) (auto simp: dll_def)
  moreover have "prev_of s h \<in> set (h # xs)" using assms seg_last [of s h xs h] by (auto simp: dll_def)
  ultimately show "only_changes (insert x (set (h # xs))) s (list_add x h s)"
    and "only_changes (insert x (set (h # xs))) s (list_add_tail x h s)"
    by (auto simp: only_changes_def list_add_def list_add_tail_def list_add_between_def)
qed

lemma dll_list_del:
  assumes "dll s h (xs @ x # ys)"
  shows "dll (list_del x s) h (xs @ ys) \<and> next_of (list_del x s) x = NULL \<and> prev_of (list_del x s) x = NULL"
proof -
  have "x \<notin> set (h # xs @ ys)" using assms by (auto simp: dll_def)
  moreover have "only_changes {x} (list_del_between (prev_of s x) (next_of s x) s) (list_del x s)"
    by (simp add: only_changes_def list_del_def)
  ultimately show ?thesis using dll_frame [OF dll_remove(3) [OF assms]] by (auto simp: list_del_def)
qed

lemma dll_list_del_init:
  assumes "dll s h (xs @ x # ys)"
  shows "dll (list_del_init x s) h (xs @ ys) \<and> dll (list_del_init x s) x []"
proof -
  have "x \<notin> set (h # xs @ ys)" using assms by (auto simp: dll_def)
  moreover have "only_changes {x} (list_del_between (prev_of s x) (next_of s x) s) (list_del_init x s)"
    by (simp add: only_changes_def list_del_init_def INIT_LIST_HEAD_def)
  ultimately show ?thesis using dll_frame [OF dll_remove(3) [OF assms]] by (auto simp: list_del_init_def dll_INIT)
qed

lemma only_changes_list_del:
  assumes "dll s h (xs @ x # ys)"
  shows "only_changes (set (h # xs @ x # ys)) s (list_del_between (prev_of s x) (next_of s x) s)"
    and "only_changes (set (h # xs @ x # ys)) s (list_del x s)"
    and "only_changes (set (h # xs @ x # ys)) s (list_del_init x s)"
proof -
  have "last (h # xs) \<in> set (h # xs)" by (rule last_in_set) simp
  moreover have "hd (ys @ [h]) \<in> set (ys @ [h])" by (cases ys) auto
  ultimately have pn: "prev_of s x \<in> set (h # xs)" "next_of s x \<in> set (ys @ [h])" using dll_remove(1,2) [OF assms] by simp_all
  then show "only_changes (set (h # xs @ x # ys)) s (list_del_between (prev_of s x) (next_of s x) s)"
    "only_changes (set (h # xs @ x # ys)) s (list_del x s)"
    "only_changes (set (h # xs @ x # ys)) s (list_del_init x s)"
    by (auto simp: only_changes_def list_del_def list_del_init_def list_del_between_def INIT_LIST_HEAD_def)
qed

lemma dll_list_move:
  assumes "dll s h (xs @ x # ys)"
  shows "dll (list_move x h s) h (x # xs @ ys)" and "dll (list_move_tail x h s) h (xs @ ys @ [x])"
proof -
  have "x \<notin> set (h # xs @ ys)" using assms by (auto simp: dll_def)
  with dll_remove(3) [OF assms] dll_list_add dll_list_add_tail
  show "dll (list_move x h s) h (x # xs @ ys)" "dll (list_move_tail x h s) h (xs @ ys @ [x])"
    by (fastforce simp: list_move_def list_move_tail_def)+
qed

lemma dll_list_move_other:
  assumes "dll s h (xs @ x # ys)" "dll s h' zs" "set (h # xs @ x # ys) \<inter> set (h' # zs) = {}"
  shows "dll (list_move x h' s) h' (x # zs) \<and> dll (list_move x h' s) h (xs @ ys)"
    and "dll (list_move_tail x h' s) h' (zs @ [x]) \<and> dll (list_move_tail x h' s) h (xs @ ys)"
proof -
  let ?s = "list_del_between (prev_of s x) (next_of s x) s"
  have z: "dll ?s h' zs" using dll_frame [OF assms(2) only_changes_list_del(1) [OF assms(1)]] assms(3) by simp
  have r: "dll ?s h (xs @ ys)" by (rule dll_remove(3) [OF assms(1)])
  have x: "x \<notin> set (h' # zs)" "insert x (set (h' # zs)) \<inter> set (h # xs @ ys) = {}"
    using assms by (auto simp: dll_def)
  show "dll (list_move x h' s) h' (x # zs) \<and> dll (list_move x h' s) h (xs @ ys)"
    using dll_list_add [OF z x(1)] dll_frame [OF r only_changes_list_add(1) [OF z] x(2)] by (simp add: list_move_def)
  show "dll (list_move_tail x h' s) h' (zs @ [x]) \<and> dll (list_move_tail x h' s) h (xs @ ys)"
    using dll_list_add_tail [OF z x(1)] dll_frame [OF r only_changes_list_add(2) [OF z] x(2)] by (simp add: list_move_tail_def)
qed

lemma dll_splice_between:
  assumes l: "dll s l (y # ys)" and h: "dll s h xs" and dis: "set (l # y # ys) \<inter> set (h # xs) = {}"
  shows "dll (list_splice_between l h (next_of s h) s) h ((y # ys) @ xs)"
proof -
  let ?n = "hd (xs @ [h])" and ?z = "last (y # ys)"
  have sl: "next_of s l = y" "seg s y ys l" "prev_of s l = ?z" and sh: "seg s h xs h" "next_of s h = ?n"
    using l h seg_last [of s y ys l] seg_first [of s h xs h] by (auto simp: dll_def)
  let ?s = "list_splice_between l h ?n s"
  have s': "next_of ?s = (next_of s)(h := y, ?z := ?n)" "prev_of ?s = (prev_of s)(y := h, ?n := ?z)"
    using sl by (simp_all add: list_splice_between_def Let_def)
  have z: "?z \<in> set (y # ys)" by (rule last_in_set) simp
  have n: "?n \<in> set (xs @ [h])" by (cases xs) auto
  have d: "distinct (y # ys)" "distinct (xs @ [h])" using l h by (auto simp: dll_def)
  have ne: "h \<notin> set (y # ys)" "?n \<notin> set (y # ys)" "?z \<notin> set (xs @ [h])" "y \<notin> set (xs @ [h])"
    using dis n z by auto
  have "seg ?s y ys ?n"
  proof (rule seg_new_end [OF sl(2) d(1)])
    show "next_of ?s q = next_of s q" if "q \<in> set (butlast (y # ys))" for q
      using that last_notin_butlast [OF d(1)] in_set_butlastD [OF that] ne(1) by (auto simp: s')
    show "prev_of ?s q = prev_of s q" if "q \<in> set ys" for q
      using that d ne by (auto simp: s')
  qed (simp_all add: s')
  moreover have "seg ?s ?z xs h"
  proof (rule seg_new_start [OF sh(1)])
    show "next_of ?s q = next_of s q" if "q \<in> set xs" for q
      using that d ne by (auto simp: s')
    show "prev_of ?s q = prev_of s q" if "q \<in> set (tl (xs @ [h]))" for q
      using that hd_notin_tl [OF d(2)] list.set_sel(2) [of "xs @ [h]" q] ne by (auto simp: s')
  qed (simp_all add: s')
  moreover have "next_of ?s h = y" "prev_of ?s y = h" using ne z n by (auto simp: s')
  ultimately show ?thesis using l h dis sh(2) by (auto simp: dll_def seg_split [of ?s y ys xs h])
qed

lemma dll_list_splice_init:
  assumes l: "dll s l ys" and h: "dll s h xs" and dis: "set (l # ys) \<inter> set (h # xs) = {}"
  shows "dll (list_splice_init l h s) h (ys @ xs) \<and> dll (list_splice_init l h s) l []"
proof (cases ys)
  case Nil
  with l h show ?thesis by (simp add: list_splice_init_def list_empty_dll)
next
  case (Cons y ys')
  let ?s = "list_splice_between l h (next_of s h) s"
  have sp: "dll ?s h (ys @ xs)" using dll_splice_between l h dis Cons by blast
  have oc: "only_changes {l} ?s (INIT_LIST_HEAD l ?s)"
    by (simp add: only_changes_def INIT_LIST_HEAD_def)
  have "{l} \<inter> set (h # ys @ xs) = {}" using l dis by (auto simp: dll_def)
  from dll_frame [OF sp oc this] l Cons show ?thesis
    by (simp add: list_splice_init_def list_empty_dll dll_INIT)
qed

lemma list_for_each_seg: "seg s a xs h \<Longrightarrow> h \<notin> set xs \<Longrightarrow> list_for_each s h (next_of s a) = Some xs"
proof (induction xs arbitrary: a)
  case Nil
  then show ?case by (subst list_for_each.simps) simp
next
  case (Cons x xs)
  then have "list_for_each s h (next_of s x) = Some xs" by simp
  with Cons.prems show ?case by (subst list_for_each.simps) auto
qed

lemma list_for_each_dll: "dll s h xs \<Longrightarrow> list_for_each s h (next_of s h) = Some xs"
  by (simp add: dll_def list_for_each_seg)

section \<open>Families of lists\<close>

text \<open>
  Several lists in one store, as the buckets of a hash table: the heads in \<open>H\<close> lead to the
  sequences \<open>f\<close>, and no two of these lists share a node.
\<close>

definition lists_ok :: "list_store \<Rightarrow> ptr set \<Rightarrow> (ptr \<Rightarrow> ptr list) \<Rightarrow> bool" where
  "lists_ok s H f \<longleftrightarrow> (\<forall>h \<in> H. dll s h (f h)) \<and>
     (\<forall>h \<in> H. \<forall>h' \<in> H. h \<noteq> h' \<longrightarrow> set (h # f h) \<inter> set (h' # f h') = {})"

definition list_nodes :: "ptr set \<Rightarrow> (ptr \<Rightarrow> ptr list) \<Rightarrow> ptr set" where
  "list_nodes H f = (\<Union>h \<in> H. set (h # f h))"

lemma lists_ok_dll: "lists_ok s H f \<Longrightarrow> h \<in> H \<Longrightarrow> dll s h (f h)"
  by (simp add: lists_ok_def)

lemma lists_ok_disjoint:
  "lists_ok s H f \<Longrightarrow> h \<in> H \<Longrightarrow> h' \<in> H \<Longrightarrow> h \<noteq> h' \<Longrightarrow> set (h # f h) \<inter> set (h' # f h') = {}"
  by (simp add: lists_ok_def)

lemma lists_ok_cong: "(\<And>h. h \<in> H \<Longrightarrow> f h = g h) \<Longrightarrow> lists_ok s H f \<longleftrightarrow> lists_ok s H g"
  by (simp add: lists_ok_def cong: ball_cong)

lemma lists_ok_subset: "lists_ok s H f \<Longrightarrow> H' \<subseteq> H \<Longrightarrow> lists_ok s H' f"
  by (auto simp: lists_ok_def subset_iff)

text \<open>One list is replaced, and the store changes only in its old and new nodes.\<close>

lemma lists_ok_update:
  assumes "lists_ok s H f" "h \<in> H" "dll s' h ys" "only_changes A s s'"
    and "\<And>h'. h' \<in> H \<Longrightarrow> h' \<noteq> h \<Longrightarrow> (A \<union> set ys) \<inter> set (h' # f h') = {}"
  shows "lists_ok s' H (f(h := ys))"
  unfolding lists_ok_def
proof (intro conjI ballI impI)
  fix h' assume "h' \<in> H"
  then show "dll s' h' ((f(h := ys)) h')"
    using assms(3) dll_frame [OF lists_ok_dll [OF assms(1)] assms(4)] assms(5) by (cases "h' = h") auto
next
  fix h1 h2 assume *: "h1 \<in> H" "h2 \<in> H" "h1 \<noteq> h2"
  have other: "set (h # ys) \<inter> set (h' # f h') = {}" if "h' \<in> H" "h' \<noteq> h" for h'
    using assms(5) [OF that] lists_ok_disjoint [OF assms(1,2) that(1)] that(2) by auto
  show "set (h1 # (f(h := ys)) h1) \<inter> set (h2 # (f(h := ys)) h2) = {}"
    using * other [of h1] other [of h2] lists_ok_disjoint [OF assms(1) *] by (cases "h1 = h"; cases "h2 = h") auto
qed

lemma lists_ok_add:
  assumes "lists_ok s H f" "h \<in> H" "x \<notin> list_nodes H f"
  shows "lists_ok (list_add x h s) H (f(h := x # f h))"
proof (rule lists_ok_update [OF assms(1,2) _ only_changes_list_add(1) [OF lists_ok_dll [OF assms(1,2)]]])
  show "dll (list_add x h s) h (x # f h)"
    using assms by (intro dll_list_add lists_ok_dll) (auto simp: list_nodes_def)
  show "(insert x (set (h # f h)) \<union> set (x # f h)) \<inter> set (h' # f h') = {}" if "h' \<in> H" "h' \<noteq> h" for h'
    using lists_ok_disjoint [OF assms(1,2) that(1)] that assms(3) by (auto simp: list_nodes_def)
qed

lemma lists_ok_remove:
  assumes "lists_ok s H f" "h \<in> H" "x \<in> set (f h)" "dll s' h (remove1 x (f h))" "only_changes (set (h # f h)) s s'"
  shows "lists_ok s' H (f(h := remove1 x (f h)))"
proof (rule lists_ok_update [OF assms(1,2,4,5)])
  show "(set (h # f h) \<union> set (remove1 x (f h))) \<inter> set (h' # f h') = {}" if "h' \<in> H" "h' \<noteq> h" for h'
    using lists_ok_disjoint [OF assms(1,2) that(1)] that set_remove1_subset [of x "f h"] by auto
qed

lemma dll_remove1:
  assumes "dll s h xs" "x \<in> set xs"
  shows "dll (list_del_init x s) h (remove1 x xs)" "only_changes (set (h # xs)) s (list_del_init x s)"
    "dll (list_del x s) h (remove1 x xs)" "only_changes (set (h # xs)) s (list_del x s)"
proof -
  obtain as bs where xs: "xs = as @ x # bs" "x \<notin> set as" using split_list_first [OF assms(2)] by auto
  then have "remove1 x xs = as @ bs" by (simp add: remove1_append)
  then show "dll (list_del_init x s) h (remove1 x xs)" "only_changes (set (h # xs)) s (list_del_init x s)"
    "dll (list_del x s) h (remove1 x xs)" "only_changes (set (h # xs)) s (list_del x s)"
    using dll_list_del_init [of s h as x bs] dll_list_del [of s h as x bs] only_changes_list_del [of s h as x bs] assms(1) xs
    by auto
qed

lemma lists_ok_del_init:
  assumes "lists_ok s H f" "h \<in> H" "x \<in> set (f h)"
  shows "lists_ok (list_del_init x s) H (f(h := remove1 x (f h)))"
  by (rule lists_ok_remove [OF assms dll_remove1(1,2) [OF lists_ok_dll [OF assms(1,2)] assms(3)]])

lemma lists_ok_del:
  assumes "lists_ok s H f" "h \<in> H" "x \<in> set (f h)"
  shows "lists_ok (list_del x s) H (f(h := remove1 x (f h)))"
  by (rule lists_ok_remove [OF assms dll_remove1(3,4) [OF lists_ok_dll [OF assms(1,2)] assms(3)]])

lemma lists_ok_removed:
  assumes "lists_ok s H f" "h \<in> H" "x \<in> set (f h)"
  shows "x \<notin> list_nodes H (f(h := remove1 x (f h)))"
proof -
  have "distinct (h # f h)" using lists_ok_dll [OF assms(1,2)] by (simp add: dll_def)
  moreover have "x \<notin> set (h' # f h')" if "h' \<in> H" "h' \<noteq> h" for h'
    using lists_ok_disjoint [OF assms(1,2) that(1)] that(2) assms(3) by auto
  ultimately show ?thesis using assms(3) by (auto simp: list_nodes_def split: if_splits)
qed

lemma lists_ok_INIT:
  assumes "lists_ok s H f" "h \<notin> list_nodes H f"
  shows "lists_ok (INIT_LIST_HEAD h s) (insert h H) (f(h := []))"
proof -
  have h: "h \<notin> H" using assms(2) by (auto simp: list_nodes_def)
  have oc: "only_changes {h} s (INIT_LIST_HEAD h s)" by (simp add: only_changes_def INIT_LIST_HEAD_def)
  have "dll (INIT_LIST_HEAD h s) h' (f h')" if "h' \<in> H" for h'
    using dll_frame [OF lists_ok_dll [OF assms(1) that] oc] assms(2) that by (auto simp: list_nodes_def)
  then show ?thesis
    using assms h by (auto simp: lists_ok_def dll_INIT list_nodes_def)
qed

lemma list_empty_member:
  assumes "lists_ok s H f" "h \<in> H" "x \<in> set (f h)"
  shows "\<not> list_empty x s"
proof -
  obtain as bs where xs: "f h = as @ x # bs" using split_list [OF assms(3)] by auto
  have d: "dll s h (as @ x # bs)" using lists_ok_dll [OF assms(1,2)] xs by simp
  then have "hd (bs @ [h]) \<noteq> x" by (cases bs) (auto simp: dll_def)
  then show ?thesis using dll_remove(2) [OF d] by (simp add: list_empty_def)
qed

section \<open>The interface of the lists\<close>

text \<open>
  What the users of a list rely on: a representation of sequences by a store and a head,
  insertion at both ends, removal of a node and the first node. The order in which a queue
  hands out its nodes follows from the laws.
\<close>

locale list_rep =
  fixes rep :: "'s \<Rightarrow> 'h \<Rightarrow> 'h list \<Rightarrow> bool"
    and add :: "'h \<Rightarrow> 'h \<Rightarrow> 's \<Rightarrow> 's"
    and add_tail :: "'h \<Rightarrow> 'h \<Rightarrow> 's \<Rightarrow> 's"
    and del :: "'h \<Rightarrow> 's \<Rightarrow> 's"
    and first :: "'h \<Rightarrow> 's \<Rightarrow> 'h"
  assumes rep_distinct: "rep s h xs \<Longrightarrow> distinct (h # xs)"
    and rep_add: "rep s h xs \<Longrightarrow> x \<notin> set (h # xs) \<Longrightarrow> rep (add x h s) h (x # xs)"
    and rep_add_tail: "rep s h xs \<Longrightarrow> x \<notin> set (h # xs) \<Longrightarrow> rep (add_tail x h s) h (xs @ [x])"
    and rep_del: "rep s h (xs @ x # ys) \<Longrightarrow> rep (del x s) h (xs @ ys)"
    and first_Cons: "rep s h (x # xs) \<Longrightarrow> first h s = x"
begin

lemma rep_pop: "rep s h (x # xs) \<Longrightarrow> rep (del (first h s) s) h xs"
  using rep_del [of s h "[]" x xs] by (simp add: first_Cons)

lemma rep_fold_add:
  "rep s h ys \<Longrightarrow> distinct (h # ys @ xs) \<Longrightarrow> rep (fold (\<lambda>x. add x h) xs s) h (rev xs @ ys)"
proof (induction xs arbitrary: s ys)
  case (Cons x xs)
  then have "rep (add x h s) h (x # ys)" by (intro rep_add) auto
  from Cons.IH [OF this] Cons.prems show ?case by auto
qed simp

lemma rep_fold_add_tail:
  "rep s h ys \<Longrightarrow> distinct (h # ys @ xs) \<Longrightarrow> rep (fold (\<lambda>x. add_tail x h) xs s) h (ys @ xs)"
proof (induction xs arbitrary: s ys)
  case (Cons x xs)
  then have "rep (add_tail x h s) h (ys @ [x])" by (intro rep_add_tail) auto
  from Cons.IH [OF this] Cons.prems show ?case by auto
qed simp

text \<open>Taking the first node \<open>n\<close> times.\<close>

primrec pops :: "nat \<Rightarrow> 'h \<Rightarrow> 's \<Rightarrow> 'h list" where
  "pops 0 h s = []"
| "pops (Suc n) h s = first h s # pops n h (del (first h s) s)"

lemma pops_rep: "rep s h xs \<Longrightarrow> pops (length xs) h s = xs"
proof (induction xs arbitrary: s)
  case (Cons x xs)
  then show ?case using Cons.IH [OF rep_pop [OF Cons.prems]] by (simp add: first_Cons)
qed simp

text \<open>Nodes added at the front come out last in, first out; nodes added at the tail, first in, first out.\<close>

lemma lifo: "rep s h [] \<Longrightarrow> distinct (h # xs) \<Longrightarrow> pops (length xs) h (fold (\<lambda>x. add x h) xs s) = rev xs"
  using pops_rep [OF rep_fold_add [of s h "[]" xs]] by simp

lemma fifo: "rep s h [] \<Longrightarrow> distinct (h # xs) \<Longrightarrow> pops (length xs) h (fold (\<lambda>x. add_tail x h) xs s) = xs"
  using pops_rep [OF rep_fold_add_tail [of s h "[]" xs]] by simp

end

interpretation kl: list_rep dll list_add list_add_tail list_del_init "\<lambda>h s. next_of s h"
proof unfold_locales
  show "dll s h xs \<Longrightarrow> distinct (h # xs)" for s h xs by (simp add: dll_def)
  show "dll s h (xs @ x # ys) \<Longrightarrow> dll (list_del_init x s) h (xs @ ys)" for s h xs x ys
    using dll_list_del_init by blast
  show "dll s h (x # xs) \<Longrightarrow> next_of s h = x" for s h x xs by (simp add: dll_def)
qed (rule dll_list_add dll_list_add_tail; assumption)+

section \<open>Properties\<close>

text \<open>
  C14. \<^verbatim>\<open>list_add\<close> and \<^verbatim>\<open>list_add_tail\<close> put a fresh node first, or last, in a list: a walk with
  \<^verbatim>\<open>list_for_each\<close> then ends and visits the new sequence. Any list that shares no node with
  them is walked as before.
\<close>

theorem list_add_refines:
  assumes "dll s h xs" "x \<notin> set (h # xs)" "dll s h' zs" "insert x (set (h # xs)) \<inter> set (h' # zs) = {}"
  shows "dll (list_add x h s) h (x # xs) \<and> dll (list_add_tail x h s) h (xs @ [x]) \<and>
    list_for_each (list_add x h s) h (next_of (list_add x h s) h) = Some (x # xs) \<and>
    list_for_each (list_add_tail x h s) h (next_of (list_add_tail x h s) h) = Some (xs @ [x]) \<and>
    list_for_each (list_add x h s) h' (next_of (list_add x h s) h') = Some zs \<and>
    list_for_each (list_add_tail x h s) h' (next_of (list_add_tail x h s) h') = Some zs"
proof -
  have "dll (list_add x h s) h' zs" "dll (list_add_tail x h s) h' zs"
    using dll_frame [OF assms(3) _ assms(4)] only_changes_list_add [OF assms(1)] by blast+
  then show ?thesis
    using dll_list_add [OF assms(1,2)] dll_list_add_tail [OF assms(1,2)] by (simp add: list_for_each_dll)
qed

text \<open>Two heads with empty lists, and a node on the first, for the witnesses.\<close>

definition demo_store :: list_store where
  "demo_store = list_add 30 10 (INIT_LIST_HEAD 20 (INIT_LIST_HEAD 10 \<lparr>next_of = (\<lambda>_. 0), prev_of = (\<lambda>_. 0)\<rparr>))"

lemma demo_dll: "dll demo_store 10 [30]" "dll demo_store 20 []"
  by (simp_all add: dll_def demo_store_def list_add_def list_add_between_def INIT_LIST_HEAD_def)

theorem list_add_refines_witness:
  "dll demo_store 10 [30] \<and>
   list_for_each (list_add 40 10 demo_store) 10 (next_of (list_add 40 10 demo_store) 10) = Some [40, 30]"
  using demo_dll list_add_refines [OF demo_dll(1) _ demo_dll(2), of 40] by auto

text \<open>
  \<^verbatim>\<open>list_del_init\<close> takes exactly its node out of a list, leaves it as an empty list of its
  own, and does not change any list that shares no node with it.
\<close>

theorem list_del_init_refines:
  assumes "dll s h (xs @ x # ys)" "dll s h' zs" "set (h # xs @ x # ys) \<inter> set (h' # zs) = {}"
  shows "dll (list_del_init x s) h (xs @ ys) \<and> list_empty x (list_del_init x s) \<and>
    list_for_each (list_del_init x s) h (next_of (list_del_init x s) h) = Some (xs @ ys) \<and>
    list_for_each (list_del_init x s) h' (next_of (list_del_init x s) h') = Some zs"
proof -
  have "dll (list_del_init x s) h' zs"
    using dll_frame [OF assms(2) only_changes_list_del(3) [OF assms(1)] assms(3)] .
  then show ?thesis
    using dll_list_del_init [OF assms(1)] by (auto simp: list_for_each_dll list_empty_dll)
qed

theorem list_del_init_refines_witness:
  "dll demo_store 10 ([] @ 30 # []) \<and>
   list_for_each (list_del_init 30 demo_store) 10 (next_of (list_del_init 30 demo_store) 10) = Some []"
  using demo_dll list_del_init_refines [of demo_store 10 "[]" 30 "[]" 20 "[]"] by auto

text \<open>
  \<^verbatim>\<open>list_splice_init\<close> puts the nodes of one list in front of those of another, in order, and
  leaves the first list empty, also when it was empty before.
\<close>

theorem list_splice_init_refines:
  assumes "dll s l ys" "dll s h xs" "set (l # ys) \<inter> set (h # xs) = {}"
  shows "list_for_each (list_splice_init l h s) h (next_of (list_splice_init l h s) h) = Some (ys @ xs) \<and>
    list_empty l (list_splice_init l h s)"
  using dll_list_splice_init [OF assms] by (auto simp: list_for_each_dll list_empty_dll)

theorem list_splice_init_refines_witness:
  "dll demo_store 10 [30] \<and>
   list_for_each (list_splice_init 10 20 demo_store) 20 (next_of (list_splice_init 10 20 demo_store) 20) = Some [30]"
  using demo_dll list_splice_init_refines [OF demo_dll] by auto

end
