(* ===== verification/Hashtable.thy ===== *)
theory Hashtable
  imports Klist
begin

text \<open>
  The hash tables of \<^verbatim>\<open>kernel/util/hashtable.c\<close>, on the list store of theory \<open>Klist\<close>: an
  array of list heads (the buckets) by their addresses, a counter of items, and the variables
  of the incremental expansion, which are \<^verbatim>\<open>static\<close> and so shared by all tables. The
  callbacks of a table are a parameter of its operations. A key pointer that \<^verbatim>\<open>get_key\<close> returns
  leads into the node's object or to a \<^verbatim>\<open>static\<close> variable of the callback, which the next call
  overwrites. The lemmas show that below its load limit a table implements a map from keys to
  nodes, and what the expansion does to it.
\<close>

section \<open>Model\<close>

datatype 'k key_ptr = KNull | KObject 'k | KStatic 'k

record 'k callbacks =
  hash_func :: "'k \<Rightarrow> u32"
  get_key :: "ptr \<Rightarrow> 'k key_ptr outcome"
  key_equals :: "'k \<Rightarrow> 'k \<Rightarrow> bool"

record hashtable =
  ht_size :: u32
  items :: int
  max_load :: u32
  expanding :: int
  buckets :: "ptr list option"

text \<open>The \<^verbatim>\<open>static\<close> variables of \<^verbatim>\<open>hashtable_try_expand\<close>.\<close>

record expansion =
  new_buckets :: "ptr list option"
  new_size :: u32
  transfer_index :: u32
  expansion_in_progress :: bool

text \<open>What the operations on one table work on.\<close>

record ht_state =
  tbl :: hashtable
  stat :: expansion
  store :: list_store

text \<open>
  The key behind a key pointer, and what an older pointer leads to after a further call of
  \<^verbatim>\<open>get_key\<close>.
\<close>

fun key_at :: "'k key_ptr \<Rightarrow> 'k outcome" where
  "key_at KNull = Fault"
| "key_at (KObject k) = Return k"
| "key_at (KStatic k) = Return k"

fun after_call :: "'k key_ptr \<Rightarrow> 'k key_ptr \<Rightarrow> 'k key_ptr" where
  "after_call (KStatic _) (KStatic k) = KStatic k"
| "after_call p _ = p"

definition next_power_of_2 :: "u32 \<Rightarrow> u32" where
  "next_power_of_2 x =
     (let x = x - 1; x = x OR drop_bit 1 x; x = x OR drop_bit 2 x; x = x OR drop_bit 4 x;
          x = x OR drop_bit 8 x; x = x OR drop_bit 16 x
      in x + 1)"

definition hashtable_count :: "hashtable \<Rightarrow> u32" where
  "hashtable_count ht = word_of_int (items ht)"

definition threshold :: "hashtable \<Rightarrow> u32" where
  "threshold ht = ht_size ht * max_load ht div 100"

text \<open>
  The number of buckets \<^verbatim>\<open>hashtable_setup\<close> asks for; \<open>mem\<close> is the answer of \<^verbatim>\<open>kmalloc\<close>, the
  addresses of the list heads in the array of buckets. The field \<^verbatim>\<open>expanding\<close> is not set. The table
  and the callbacks are not \<^verbatim>\<open>NULL\<close> in any call.
\<close>

definition setup_size :: "u32 \<Rightarrow> u32" where
  "setup_size initial_size = next_power_of_2 (if initial_size < 16 then 16 else initial_size)"

definition hashtable_setup :: "u32 \<Rightarrow> u32 \<Rightarrow> ptr list option \<Rightarrow> ht_state \<Rightarrow> int \<times> ht_state" where
  "hashtable_setup initial_size load mem st =
     (let sz = setup_size initial_size; load = (if load < 50 \<or> load > 90 then 70 else load)
      in case mem of
           None \<Rightarrow> (- ENOMEM, st\<lparr>tbl := (tbl st)\<lparr>buckets := None\<rparr>\<rparr>)
         | Some bs \<Rightarrow>
             (0, st\<lparr>store := fold INIT_LIST_HEAD (take (unat sz) bs) (store st),
                    tbl := (tbl st)\<lparr>buckets := Some bs, ht_size := sz, items := 0, max_load := load\<rparr>\<rparr>))"

text \<open>\<^verbatim>\<open>&buckets[i].head\<close> of an array; beyond the array, or without one, the access is bad.\<close>

definition bucket :: "ptr list option \<Rightarrow> u32 \<Rightarrow> ptr outcome" where
  "bucket bs i =
     (case bs of None \<Rightarrow> Fault | Some hs \<Rightarrow> if unat i < length hs then Return (hs ! unat i) else Fault)"

text \<open>
  The walk along a bucket for the first node that satisfies a test. A walk that does not come
  back to the head never returns, which is \<open>None\<close>.
\<close>

partial_function (option) find_node ::
    "(ptr \<Rightarrow> bool outcome) \<Rightarrow> list_store \<Rightarrow> ptr \<Rightarrow> ptr \<Rightarrow> ptr option outcome option" where
  "find_node test s head pos =
     (if pos = head then Some (Return None)
      else case test pos of
             Fault \<Rightarrow> Some Fault
           | Return b \<Rightarrow> if b then Some (Return (Some pos)) else find_node test s head (next_of s pos))"

definition in_bucket :: "(ptr \<Rightarrow> bool outcome) \<Rightarrow> ht_state \<Rightarrow> u32 \<Rightarrow> ptr option outcome option" where
  "in_bucket test st idx =
     bind_run (Some (bucket (buckets (tbl st)) idx)) (\<lambda>h. find_node test (store st) h (next_of (store st) h))"

text \<open>The batch of 16 buckets \<^verbatim>\<open>hashtable_try_expand\<close> moves: all nodes of one bucket, then the buckets.\<close>

partial_function (option) transfer_nodes ::
    "'k callbacks \<Rightarrow> u32 \<Rightarrow> ptr list option \<Rightarrow> u32 \<Rightarrow> ptr \<Rightarrow> ptr \<Rightarrow> ptr \<Rightarrow> list_store \<Rightarrow> list_store outcome option" where
  "transfer_nodes cb sz nbs i head node tmp s =
     (if node = head then Some (Return s)
      else case bind_outcome (get_key cb node) key_at of
             Fault \<Rightarrow> Some Fault
           | Return key \<Rightarrow>
               (let new_idx = (if hash_func cb key AND sz \<noteq> 0 then i + sz else i)
                in case bucket nbs new_idx of
                     Fault \<Rightarrow> Some Fault
                   | Return h \<Rightarrow>
                       (let s = list_add node h (list_del node s)
                        in transfer_nodes cb sz nbs i head tmp (next_of s tmp) s)))"

definition transfer_bucket :: "'k callbacks \<Rightarrow> u32 \<Rightarrow> ht_state \<Rightarrow> ht_state outcome option" where
  "transfer_bucket cb i st =
     bind_run (Some (bucket (buckets (tbl st)) i)) (\<lambda>head.
       let node = next_of (store st) head
       in bind_run (transfer_nodes cb (ht_size (tbl st)) (new_buckets (stat st)) i head
                      node (next_of (store st) node) (store st)) (\<lambda>s.
          Some (Return (st\<lparr>store := s\<rparr>))))"

fun transfer_buckets :: "'k callbacks \<Rightarrow> nat list \<Rightarrow> ht_state \<Rightarrow> ht_state outcome option" where
  "transfer_buckets cb [] st = Some (Return st)"
| "transfer_buckets cb (i # is) st = bind_run (transfer_bucket cb (of_nat i) st) (transfer_buckets cb is)"

text \<open>
  The start of an expansion: \<open>Some r\<close> when \<^verbatim>\<open>hashtable_try_expand\<close> returns \<open>r\<close> at this point.
\<close>

definition start_expansion :: "ptr list option \<Rightarrow> ht_state \<Rightarrow> int option \<times> ht_state" where
  "start_expansion mem st =
     (if expansion_in_progress (stat st) then (None, st)
      else if expanding (tbl st) \<noteq> 0 then (Some 0, st)
      else
        let sz = ht_size (tbl st) * 2;
            st = st\<lparr>tbl := (tbl st)\<lparr>expanding := 1\<rparr>,
                    stat := (stat st)\<lparr>new_size := sz, new_buckets := mem\<rparr>\<rparr>
        in case mem of
             None \<Rightarrow> (Some (- ENOMEM), st\<lparr>tbl := (tbl st)\<lparr>expanding := 0\<rparr>\<rparr>)
           | Some bs \<Rightarrow>
               (None, st\<lparr>store := fold INIT_LIST_HEAD (take (unat sz) bs) (store st),
                         stat := (stat st)\<lparr>transfer_index := 0, expansion_in_progress := True\<rparr>\<rparr>))"

definition finish_expansion :: "ht_state \<Rightarrow> ht_state" where
  "finish_expansion st =
     (if transfer_index (stat st) \<ge> ht_size (tbl st)
      then \<lparr>tbl = (tbl st)\<lparr>buckets := new_buckets (stat st), ht_size := new_size (stat st), expanding := 0\<rparr>,
            stat = \<lparr>new_buckets = None, new_size = 0, transfer_index = 0, expansion_in_progress = False\<rparr>,
            store = store st\<rparr>
      else st)"

definition end_index :: "ht_state \<Rightarrow> u32" where
  "end_index st =
     (let e = transfer_index (stat st) + 16 in if e > ht_size (tbl st) then ht_size (tbl st) else e)"

definition hashtable_try_expand ::
    "'k callbacks \<Rightarrow> ptr list option \<Rightarrow> ht_state \<Rightarrow> (int \<times> ht_state) outcome option" where
  "hashtable_try_expand cb mem st =
     (if hashtable_count (tbl st) < threshold (tbl st) then Some (Return (0, st))
      else case start_expansion mem st of
             (Some r, st1) \<Rightarrow> Some (Return (r, st1))
           | (None, st1) \<Rightarrow>
               bind_run (transfer_buckets cb [unat (transfer_index (stat st1))..<unat (end_index st1)] st1) (\<lambda>st2.
                 Some (Return (0, finish_expansion
                   (st2\<lparr>stat := (stat st2)\<lparr>transfer_index := end_index st1\<rparr>\<rparr>)))))"

text \<open>The index of a key's bucket.\<close>

definition bucket_index :: "'k callbacks \<Rightarrow> hashtable \<Rightarrow> 'k \<Rightarrow> u32" where
  "bucket_index cb ht key = hash_func cb key AND (ht_size ht - 1)"

text \<open>The test of the insertion: the key of a node against the key pointer of the new node.\<close>

definition same_key :: "'k callbacks \<Rightarrow> 'k key_ptr \<Rightarrow> ptr \<Rightarrow> bool outcome" where
  "same_key cb key pos =
     bind_outcome (get_key cb pos) (\<lambda>existing_key.
     bind_outcome (key_at existing_key) (\<lambda>k1.
     bind_outcome (key_at (after_call key existing_key)) (\<lambda>k2. Return (key_equals cb k1 k2))))"

text \<open>The end of the insertion, after a possible expansion.\<close>

definition insert_node :: "'k callbacks \<Rightarrow> 'k key_ptr \<Rightarrow> u32 \<Rightarrow> ptr \<Rightarrow> ht_state \<Rightarrow> (int \<times> ht_state) outcome option" where
  "insert_node cb key idx node st =
     bind_run (in_bucket (same_key cb key) st idx) (\<lambda>found.
       if found \<noteq> None then Some (Return (- EEXIST, st))
       else bind_run (Some (bucket (buckets (tbl st)) idx)) (\<lambda>h.
         Some (Return (0, st\<lparr>store := list_add node h (store st),
                             tbl := (tbl st)\<lparr>items := int32_of (items (tbl st) + 1)\<rparr>\<rparr>))))"

definition hashtable_insert ::
    "'k callbacks \<Rightarrow> ptr list option \<Rightarrow> ptr \<Rightarrow> ht_state \<Rightarrow> (int \<times> ht_state) outcome option" where
  "hashtable_insert cb mem node st =
     (if node = NULL then Some (Return (- EINVAL, st))
      else bind_run (Some (get_key cb node)) (\<lambda>key.
        if key = KNull then Some (Return (- EINVAL, st))
        else bind_run (Some (key_at key)) (\<lambda>k.
          if hashtable_count (tbl st) \<ge> threshold (tbl st)
          then bind_run (hashtable_try_expand cb mem st) (\<lambda>(ret, st).
                 if ret < 0 then Some (Return (ret, st))
                 else insert_node cb key (bucket_index cb (tbl st) k) node st)
          else insert_node cb key (bucket_index cb (tbl st) k) node st)))"

text \<open>The test of the other walks, which compare with a key of the caller.\<close>

definition has_key :: "'k callbacks \<Rightarrow> 'k \<Rightarrow> ptr \<Rightarrow> bool outcome" where
  "has_key cb key pos =
     bind_outcome (get_key cb pos) (\<lambda>p. bind_outcome (key_at p) (\<lambda>k. Return (key_equals cb k key)))"

definition hashtable_lookup :: "'k callbacks \<Rightarrow> 'k option \<Rightarrow> ht_state \<Rightarrow> ptr outcome option" where
  "hashtable_lookup cb key st =
     (case key of
        None \<Rightarrow> Some (Return NULL)
      | Some k \<Rightarrow>
          bind_run (in_bucket (has_key cb k) st (bucket_index cb (tbl st) k)) (\<lambda>result.
            Some (Return (case result of None \<Rightarrow> NULL | Some pos \<Rightarrow> pos))))"

definition unlink_node :: "ptr \<Rightarrow> ht_state \<Rightarrow> ht_state" where
  "unlink_node node st =
     st\<lparr>store := list_del_init node (store st), tbl := (tbl st)\<lparr>items := int32_of (items (tbl st) - 1)\<rparr>\<rparr>"

definition hashtable_remove :: "'k callbacks \<Rightarrow> ptr \<Rightarrow> ht_state \<Rightarrow> (int \<times> ht_state) outcome" where
  "hashtable_remove cb node st =
     (if node = NULL then Return (- EINVAL, st)
      else bind_outcome (get_key cb node) (\<lambda>key.
        if key = KNull then Return (- EINVAL, st)
        else bind_outcome (key_at key) (\<lambda>k.
          bind_outcome (bucket (buckets (tbl st)) (bucket_index cb (tbl st) k)) (\<lambda>_.
            if \<not> list_empty node (store st) then Return (0, unlink_node node st)
            else Return (- ENOENT, st)))))"

definition hashtable_remove_by_key ::
    "'k callbacks \<Rightarrow> 'k option \<Rightarrow> ht_state \<Rightarrow> (int \<times> ht_state) outcome option" where
  "hashtable_remove_by_key cb key st =
     (case key of
        None \<Rightarrow> Some (Return (- EINVAL, st))
      | Some k \<Rightarrow>
          bind_run (in_bucket (has_key cb k) st (bucket_index cb (tbl st) k)) (\<lambda>found.
            Some (Return (case found of
                            None \<Rightarrow> (- ENOENT, st)
                          | Some pos \<Rightarrow> (0, unlink_node pos st)))))"

definition hashtable_clear :: "ht_state \<Rightarrow> ht_state" where
  "hashtable_clear st =
     (if buckets (tbl st) = None then st
      else st\<lparr>tbl := (tbl st)\<lparr>buckets := None, ht_size := 0, items := 0\<rparr>\<rparr>)"

text \<open>The bytes of a C string up to its terminator, which the argument contains.\<close>

definition hash_string :: "u8 list \<Rightarrow> u32" where
  "hash_string str = fold (\<lambda>c hash. (hash XOR ucast c) * 16777619) (takeWhile (\<lambda>c. c \<noteq> 0) str) 2166136261"

definition hash_int :: "u32 \<Rightarrow> u32" where
  "hash_int k =
     (let k = k XOR drop_bit 16 k; k = k * 0x85ebca6b; k = k XOR drop_bit 13 k;
          k = k * 0xc2b2ae35
      in k XOR drop_bit 16 k)"

text \<open>\<^verbatim>\<open>hash_int\<close> reads the 32 bits at the address of the pointer variable, its low half.\<close>

definition hash_ptr :: "ptr \<Rightarrow> u32" where
  "hash_ptr p = hash_int (ucast p)"

section \<open>Specification\<close>

text \<open>The key of a node lies in the node's object.\<close>

definition embeds :: "'k callbacks \<Rightarrow> ptr \<Rightarrow> 'k \<Rightarrow> bool" where
  "embeds cb n k \<longleftrightarrow> get_key cb n = Return (KObject k)"

definition heads :: "ht_state \<Rightarrow> ptr list" where
  "heads st = (case buckets (tbl st) of None \<Rightarrow> [] | Some bs \<Rightarrow> bs)"

text \<open>The nodes in the buckets, when the heads lead to the sequences \<open>f\<close>.\<close>

definition members :: "ht_state \<Rightarrow> (ptr \<Rightarrow> ptr list) \<Rightarrow> ptr set" where
  "members st f = (\<Union>h \<in> set (heads st). set (f h))"

text \<open>
  A well-formed table: a power of two of disjoint bucket lists, every node in the bucket of its
  key (which satisfies \<open>P\<close>), no two nodes with equal keys, and the counter right.
\<close>

definition ht_ok :: "('k \<Rightarrow> bool) \<Rightarrow> 'k callbacks \<Rightarrow> ht_state \<Rightarrow> (ptr \<Rightarrow> ptr list) \<Rightarrow> bool" where
  "ht_ok P cb st f \<longleftrightarrow>
     buckets (tbl st) \<noteq> None \<and> (\<exists>e \<le> 31. unat (ht_size (tbl st)) = 2 ^ e) \<and>
     length (heads st) = unat (ht_size (tbl st)) \<and> distinct (heads st) \<and>
     lists_ok (store st) (set (heads st)) f \<and> NULL \<notin> members st f \<and>
     (\<forall>i < length (heads st). \<forall>n \<in> set (f (heads st ! i)).
        \<exists>k. embeds cb n k \<and> P k \<and> unat (bucket_index cb (tbl st) k) = i) \<and>
     (\<forall>n \<in> members st f. \<forall>n' \<in> members st f. \<forall>k k'.
        embeds cb n k \<longrightarrow> embeds cb n' k' \<longrightarrow> key_equals cb k k' \<longrightarrow> n = n') \<and>
     items (tbl st) = int (card (members st f)) \<and> card (members st f) < 2147483648"

text \<open>The node the table holds for a key.\<close>

definition holds :: "'k callbacks \<Rightarrow> ht_state \<Rightarrow> (ptr \<Rightarrow> ptr list) \<Rightarrow> 'k \<Rightarrow> ptr \<Rightarrow> bool" where
  "holds cb st f k n \<longleftrightarrow> n \<in> members st f \<and> (\<exists>k'. embeds cb n k' \<and> key_equals cb k' k)"

section \<open>Lemmas\<close>

subsection \<open>Walks\<close>

lemma find_node_seg:
  assumes "seg s a xs h" "h \<notin> set xs" "\<And>x. x \<in> set xs \<Longrightarrow> test x = Return (t x)"
  shows "find_node test s h (next_of s a) = Some (Return (List.find t xs))"
  using assms
proof (induction xs arbitrary: a)
  case Nil
  then show ?case by (subst find_node.simps) simp
next
  case (Cons x xs)
  then have "find_node test s h (next_of s x) = Some (Return (List.find t xs))" by simp
  with Cons.prems show ?case by (subst find_node.simps) auto
qed

lemma bucket_heads:
  "buckets (tbl st) \<noteq> None \<Longrightarrow> unat i < length (heads st) \<Longrightarrow>
   bucket (buckets (tbl st)) i = Return (heads st ! unat i)"
  by (auto simp: bucket_def heads_def)

lemma in_bucket_find:
  assumes "lists_ok (store st) (set (heads st)) f" "buckets (tbl st) \<noteq> None" "unat i < length (heads st)"
    and "\<And>x. x \<in> set (f (heads st ! unat i)) \<Longrightarrow> test x = Return (t x)"
  shows "in_bucket test st i = Some (Return (List.find t (f (heads st ! unat i))))"
proof -
  have "dll (store st) (heads st ! unat i) (f (heads st ! unat i))" using assms(1,3) by (intro lists_ok_dll) auto
  then show ?thesis
    using find_node_seg [of "store st" "heads st ! unat i" "f (heads st ! unat i)" "heads st ! unat i" test t] assms
    by (simp add: in_bucket_def bucket_heads dll_def)
qed

subsection \<open>Sizes and indices\<close>

lemma size_eq_pow: "unat (w :: u32) = 2 ^ e \<Longrightarrow> w = 2 ^ e"
proof -
  assume "unat w = 2 ^ e"
  then have "of_nat (unat w) = (of_nat (2 ^ e) :: u32)" by simp
  then show "w = 2 ^ e" by simp
qed

lemma and_pow_minus_1: "e \<le> 31 \<Longrightarrow> unat (h AND (2 ^ e - 1 :: u32)) = unat h mod 2 ^ e"
proof -
  have "h AND (2 ^ e - 1) = take_bit e h" by (simp only: take_bit_eq_mask mask_eq_exp_minus_1)
  then show ?thesis by (simp only: unsigned_take_bit_eq) (simp add: take_bit_eq_mod)
qed

lemma ht_ok_size:
  assumes "ht_ok P cb st f"
  obtains e where "e \<le> 31" "ht_size (tbl st) = 2 ^ e" "length (heads st) = 2 ^ e"
    "\<And>k. unat (bucket_index cb (tbl st) k) = unat (hash_func cb k) mod 2 ^ e"
proof -
  obtain e where e: "e \<le> 31" "unat (ht_size (tbl st)) = 2 ^ e" "length (heads st) = unat (ht_size (tbl st))"
    using assms by (auto simp: ht_ok_def)
  show thesis
    by (rule that [OF e(1) size_eq_pow [OF e(2)]])
      (use e and_pow_minus_1 [OF e(1)] size_eq_pow [OF e(2)] in \<open>simp_all add: bucket_index_def\<close>)
qed

lemma ht_ok_index: "ht_ok P cb st f \<Longrightarrow> unat (bucket_index cb (tbl st) k) < length (heads st)"
  by (rule ht_ok_size) auto

lemma ht_okD:
  assumes "ht_ok P cb st f"
  shows "buckets (tbl st) \<noteq> None" "distinct (heads st)" "lists_ok (store st) (set (heads st)) f"
    "NULL \<notin> members st f" "items (tbl st) = int (card (members st f))" "card (members st f) < 2147483648"
  using assms by (simp_all add: ht_ok_def)

lemma ht_ok_node:
  assumes "ht_ok P cb st f" "n \<in> members st f"
  obtains k where "embeds cb n k" "P k" "n \<in> set (f (heads st ! unat (bucket_index cb (tbl st) k)))"
proof -
  obtain i where "i < length (heads st)" "n \<in> set (f (heads st ! i))"
    using assms(2) unfolding members_def by (metis UN_E in_set_conv_nth)
  moreover obtain k where "embeds cb n k" "P k" "unat (bucket_index cb (tbl st) k) = i"
    using assms(1) calculation unfolding ht_ok_def by blast
  ultimately show thesis by (intro that) auto
qed

lemma members_I: "i < length (heads st) \<Longrightarrow> n \<in> set (f (heads st ! i)) \<Longrightarrow> n \<in> members st f"
  by (auto simp: members_def)

lemma members_heads_disjoint: "ht_ok P cb st f \<Longrightarrow> members st f \<subseteq> list_nodes (set (heads st)) f"
  by (auto simp: members_def list_nodes_def)

lemma heads_simps [simp]:
  "heads (st\<lparr>store := s, tbl := (tbl st)\<lparr>items := x\<rparr>\<rparr>) = heads st" "heads (st\<lparr>store := s\<rparr>) = heads st"
  "heads (st\<lparr>stat := y\<rparr>) = heads st" "heads (unlink_node n st) = heads st"
  by (simp_all add: heads_def unlink_node_def)

lemma bucket_index_items [simp]: "bucket_index cb (t\<lparr>items := x\<rparr>) k = bucket_index cb t k"
  by (simp add: bucket_index_def)

lemma finite_members [simp]: "finite (members st f)"
  by (simp add: members_def)

lemma members_Cons:
  assumes "h \<in> set (heads st)" "heads st' = heads st"
  shows "members st' (f(h := n # f h)) = insert n (members st f)"
  using assms by (auto simp: members_def split: if_splits)

lemma members_remove1:
  assumes "lists_ok s (set (heads st)) f" "h \<in> set (heads st)" "n \<in> set (f h)" "heads st' = heads st"
  shows "members st' (f(h := remove1 n (f h))) = members st f - {n}"
proof -
  have "distinct (f h)" using lists_ok_dll [OF assms(1,2)] by (simp add: dll_def)
  then have "set (remove1 n (f h)) = set (f h) - {n}" by simp
  moreover have "n \<notin> set (f h')" if "h' \<in> set (heads st)" "h' \<noteq> h" for h'
    using lists_ok_disjoint [OF assms(1,2) that(1)] that(2) assms(3) by auto
  ultimately show ?thesis using assms(2-4) by (fastforce simp: members_def split: if_splits)
qed

text \<open>A node that is added to the bucket of its key, and a node that is taken out of its bucket.\<close>

lemma ht_ok_add:
  assumes "ht_ok P cb st f" "n \<noteq> NULL" "n \<notin> list_nodes (set (heads st)) f" "embeds cb n k" "P k"
    and "\<forall>m \<in> members st f. \<forall>k'. embeds cb m k' \<longrightarrow> \<not> key_equals cb k' k \<and> \<not> key_equals cb k k'"
    and "card (members st f) < 2147483647"
  defines "h \<equiv> heads st ! unat (bucket_index cb (tbl st) k)"
  defines "st' \<equiv> st\<lparr>store := list_add n h (store st), tbl := (tbl st)\<lparr>items := int32_of (items (tbl st) + 1)\<rparr>\<rparr>"
  shows "ht_ok P cb st' (f(h := n # f h))" "members st' (f(h := n # f h)) = insert n (members st f)"
proof -
  note ok = assms(1) [unfolded ht_ok_def]
  have i: "unat (bucket_index cb (tbl st) k) < length (heads st)" by (rule ht_ok_index [OF assms(1)])
  then have h: "h \<in> set (heads st)" by (simp add: h_def)
  have hd: "heads st' = heads st" by (simp add: st'_def)
  show mem: "members st' (f(h := n # f h)) = insert n (members st f)" by (rule members_Cons [OF h hd])
  have fresh: "n \<notin> members st f" using assms(3) by (auto simp: members_def list_nodes_def)
  have lists: "lists_ok (store st') (set (heads st')) (f(h := n # f h))"
    using lists_ok_add [OF ht_okD(3) [OF assms(1)] h assms(3)] unfolding hd by (simp add: st'_def)
  have it: "items (tbl st') = int (card (members st' (f(h := n # f h))))"
    using ht_okD(5) [OF assms(1)] fresh assms(7) unfolding mem by (simp add: st'_def int32_of_id)
  have idx: "\<forall>i < length (heads st'). \<forall>m \<in> set ((f(h := n # f h)) (heads st' ! i)).
      \<exists>k. embeds cb m k \<and> P k \<and> unat (bucket_index cb (tbl st') k) = i"
  proof (intro allI impI ballI)
    fix j m assume j: "j < length (heads st')" "m \<in> set ((f(h := n # f h)) (heads st' ! j))"
    show "\<exists>k. embeds cb m k \<and> P k \<and> unat (bucket_index cb (tbl st') k) = j"
    proof (cases "heads st ! j = h \<and> m = n")
      case True
      then have "j = unat (bucket_index cb (tbl st) k)" using j i ok by (simp add: hd h_def nth_eq_iff_index_eq)
      then show ?thesis using assms(4,5) True by (auto simp: st'_def)
    next
      case False
      then have "m \<in> set (f (heads st ! j))" using j by (auto simp: hd split: if_splits)
      then show ?thesis using ok j(1) by (simp add: hd) (simp add: st'_def)
    qed
  qed
  have uniq: "\<forall>m \<in> insert n (members st f). \<forall>m' \<in> insert n (members st f). \<forall>k k'.
      embeds cb m k \<longrightarrow> embeds cb m' k' \<longrightarrow> key_equals cb k k' \<longrightarrow> m = m'"
  proof (intro ballI allI impI)
    fix m m' k1 k2
    assume *: "m \<in> insert n (members st f)" "m' \<in> insert n (members st f)"
      "embeds cb m k1" "embeds cb m' k2" "key_equals cb k1 k2"
    have kk: "k' = k" if "embeds cb n k'" for k' using that assms(4) by (simp add: embeds_def)
    show "m = m'"
      using * kk assms(6) ok by (cases "m = n"; cases "m' = n") auto
  qed
  show "ht_ok P cb st' (f(h := n # f h))"
    unfolding ht_ok_def mem using ok uniq lists it idx assms(2,7) fresh
    by (simp add: hd mem) (simp add: st'_def)
qed

lemma ht_ok_del:
  assumes "ht_ok P cb st f" "n \<in> members st f"
  obtains g where "ht_ok P cb (unlink_node n st) g" "members (unlink_node n st) g = members st f - {n}"
    "\<not> list_empty n (store st)"
proof -
  note ok = assms(1) [unfolded ht_ok_def]
  obtain h where h: "h \<in> set (heads st)" "n \<in> set (f h)" using assms(2) by (auto simp: members_def)
  let ?g = "f(h := remove1 n (f h))" and ?st = "unlink_node n st"
  have mem: "members ?st ?g = members st f - {n}" by (rule members_remove1 [OF ht_okD(3) [OF assms(1)] h]) simp
  have lists: "lists_ok (store ?st) (set (heads ?st)) ?g"
    using lists_ok_del_init [OF ht_okD(3) [OF assms(1)] h] by (simp add: unlink_node_def)
  have c: "card (members st f) = Suc (card (members st f - {n}))"
    using assms(2) by (intro card.remove) auto
  then have it: "items (tbl ?st) = int (card (members ?st ?g))"
    using ok unfolding mem by (simp add: unlink_node_def int32_of_id)
  have idx: "\<forall>i < length (heads ?st). \<forall>m \<in> set (?g (heads ?st ! i)).
      \<exists>k. embeds cb m k \<and> P k \<and> unat (bucket_index cb (tbl ?st) k) = i"
  proof (intro allI impI ballI)
    fix j m assume j: "j < length (heads ?st)" "m \<in> set (?g (heads ?st ! j))"
    then have "m \<in> set (f (heads st ! j))"
      using set_remove1_subset [of n "f h"] by (cases "heads st ! j = h") auto
    then show "\<exists>k. embeds cb m k \<and> P k \<and> unat (bucket_index cb (tbl ?st) k) = j"
      using ok j(1) by (simp add: unlink_node_def)
  qed
  have "ht_ok P cb ?st ?g"
    unfolding ht_ok_def mem using ok lists it idx c by (simp add: mem) (simp add: unlink_node_def)
  then show thesis by (rule that [OF _ mem list_empty_member [OF ht_okD(3) [OF assms(1)] h]])
qed

section \<open>Tables of lawful keys\<close>

text \<open>
  What a table relies on in its callbacks: on the keys that satisfy \<open>P\<close>, equality is an
  equivalence and equal keys have equal hash values.
\<close>

locale hash_keys =
  fixes P :: "'k \<Rightarrow> bool"
    and hf :: "'k \<Rightarrow> u32"
    and eq :: "'k \<Rightarrow> 'k \<Rightarrow> bool"
  assumes eq_refl: "P k \<Longrightarrow> eq k k"
    and eq_sym: "P k \<Longrightarrow> P k' \<Longrightarrow> eq k k' \<Longrightarrow> eq k' k"
    and eq_trans: "P k \<Longrightarrow> P k' \<Longrightarrow> P k'' \<Longrightarrow> eq k k' \<Longrightarrow> eq k' k'' \<Longrightarrow> eq k k''"
    and hf_eq: "P k \<Longrightarrow> P k' \<Longrightarrow> eq k k' \<Longrightarrow> hf k = hf k'"
begin

lemma holds_unique:
  assumes "ht_ok P cb st f" "hash_func cb = hf" "key_equals cb = eq" "P k" "holds cb st f k n" "holds cb st f k m"
  shows "n = m"
proof -
  obtain k1 k2 where k: "embeds cb n k1" "eq k1 k" "embeds cb m k2" "eq k2 k" "n \<in> members st f" "m \<in> members st f"
    using assms(3,5,6) by (auto simp: holds_def)
  have p: "P k1" "P k2"
    using ht_ok_node [OF assms(1) k(5)] ht_ok_node [OF assms(1) k(6)] k(1,3) by (metis embeds_def key_ptr.inject(1) outcome.inject)+
  then have "eq k1 k2" using eq_trans [of k1 k k2] eq_sym [of k2 k] k(2,4) assms(4) by blast
  then show ?thesis using assms(1,3) k unfolding ht_ok_def by blast
qed

text \<open>The walk along the bucket of a key finds the node the table holds for it.\<close>

lemma in_bucket_holds:
  assumes "ht_ok P cb st f" "hash_func cb = hf" "key_equals cb = eq" "P k"
    and "\<And>n k'. embeds cb n k' \<Longrightarrow> test n = Return (eq k' k)"
  obtains r where "in_bucket test st (bucket_index cb (tbl st) k) = Some (Return r)"
    "\<And>n. r = Some n \<longleftrightarrow> holds cb st f k n"
proof -
  let ?h = "heads st ! unat (bucket_index cb (tbl st) k)"
  have i: "unat (bucket_index cb (tbl st) k) < length (heads st)" by (rule ht_ok_index [OF assms(1)])
  define t where "t n = (\<exists>k'. embeds cb n k' \<and> eq k' k)" for n
  have tt: "test n = Return (t n)" if n: "n \<in> set (f ?h)" for n
  proof -
    obtain k' where "embeds cb n k'" using ht_ok_node [OF assms(1) members_I [of _ st n f, OF i n]] by blast
    then show ?thesis using assms(5) by (auto simp: t_def embeds_def)
  qed
  have w: "in_bucket test st (bucket_index cb (tbl st) k) = Some (Return (List.find t (f ?h)))"
    using assms(1) unfolding ht_ok_def by (intro in_bucket_find [OF _ _ i tt]) auto
  have hl: "holds cb st f k n \<longleftrightarrow> n \<in> set (f ?h) \<and> t n" for n
  proof
    assume h: "holds cb st f k n"
    then obtain k' where k': "n \<in> members st f" "embeds cb n k'" "eq k' k" using assms(3) by (auto simp: holds_def)
    then obtain k1 where k1: "embeds cb n k1" "P k1" "n \<in> set (f (heads st ! unat (bucket_index cb (tbl st) k1)))"
      using ht_ok_node [OF assms(1)] by metis
    then have "k1 = k'" using k' by (simp add: embeds_def)
    then have "bucket_index cb (tbl st) k1 = bucket_index cb (tbl st) k"
      using hf_eq [OF k1(2) assms(4)] k'(3) assms(2) by (simp add: bucket_index_def)
    then show "n \<in> set (f ?h) \<and> t n" using k1 k' by (auto simp: t_def)
  qed (use members_I [OF i] assms(3) in \<open>auto simp: holds_def t_def\<close>)
  show thesis
  proof (rule that [OF w])
    fix n
    show "List.find t (f ?h) = Some n \<longleftrightarrow> holds cb st f k n"
    proof
      assume "holds cb st f k n"
      then have n: "n \<in> set (f ?h)" "t n" using hl by auto
      then obtain m where m: "List.find t (f ?h) = Some m" by (cases "List.find t (f ?h)") (auto simp: find_None_iff)
      then have "holds cb st f k m" using hl find_Some_iff [of t "f ?h" m] by (auto simp: in_set_conv_nth)
      then show "List.find t (f ?h) = Some n"
        using m holds_unique [OF assms(1-4)] \<open>holds cb st f k n\<close> by blast
    qed (use hl find_Some_iff [of t "f ?h" n] in \<open>auto simp: in_set_conv_nth\<close>)
  qed
qed

end

context hash_keys
begin

lemma lookup_holds:
  assumes "ht_ok P cb st f" "hash_func cb = hf" "key_equals cb = eq" "P k"
  obtains r where "hashtable_lookup cb (Some k) st = Some (Return r)"
    "\<And>n. n \<noteq> NULL \<Longrightarrow> r = n \<longleftrightarrow> holds cb st f k n"
proof -
  have "has_key cb k n = Return (eq k' k)" if "embeds cb n k'" for n k'
    using that assms(3) by (simp add: has_key_def embeds_def)
  from in_bucket_holds [where test = "has_key cb k", OF assms this] obtain r
    where r: "in_bucket (has_key cb k) st (bucket_index cb (tbl st) k) = Some (Return r)"
      "\<And>n. r = Some n \<longleftrightarrow> holds cb st f k n" by blast
  show thesis
  proof (rule that)
    show "hashtable_lookup cb (Some k) st = Some (Return (case r of None \<Rightarrow> NULL | Some pos \<Rightarrow> pos))"
      by (simp add: hashtable_lookup_def r(1))
    show "(case r of None \<Rightarrow> NULL | Some pos \<Rightarrow> pos) = n \<longleftrightarrow> holds cb st f k n" if "n \<noteq> NULL" for n
      using that r(2) [of n] by (cases r) auto
  qed
qed

lemma insert_node_spec:
  assumes "ht_ok P cb st f" "hash_func cb = hf" "key_equals cb = eq" "P k"
    and "n \<noteq> NULL" "embeds cb n k" "n \<notin> list_nodes (set (heads st)) f" "card (members st f) < 2147483647"
  shows "if \<exists>m. holds cb st f k m
         then insert_node cb (KObject k) (bucket_index cb (tbl st) k) n st = Some (Return (- EEXIST, st))
         else \<exists>st' g. insert_node cb (KObject k) (bucket_index cb (tbl st) k) n st = Some (Return (0, st'))
                \<and> ht_ok P cb st' g \<and> members st' g = insert n (members st f) \<and> heads st' = heads st
                \<and> stat st' = stat st"
proof -
  let ?i = "bucket_index cb (tbl st) k"
  have "same_key cb (KObject k) m = Return (eq k' k)" if "embeds cb m k'" for m k'
    using that assms(3) by (simp add: same_key_def embeds_def)
  from in_bucket_holds [where test = "same_key cb (KObject k)", OF assms(1-4) this] obtain r
    where r: "in_bucket (same_key cb (KObject k)) st ?i = Some (Return r)"
      "\<And>m. r = Some m \<longleftrightarrow> holds cb st f k m" by blast
  show ?thesis
  proof (cases "\<exists>m. holds cb st f k m")
    case True
    then show ?thesis using r by (auto simp: insert_node_def)
  next
    case False
    then have "r = None" using r(2) by (cases r) auto
    then have ins: "insert_node cb (KObject k) ?i n st = Some (Return (0, st\<lparr>store := list_add n (heads st ! unat ?i) (store st),
        tbl := (tbl st)\<lparr>items := int32_of (items (tbl st) + 1)\<rparr>\<rparr>))"
      using r(1) bucket_heads [OF ht_okD(1) [OF assms(1)] ht_ok_index [OF assms(1)]] by (simp add: insert_node_def)
    have ne: "\<forall>m \<in> members st f. \<forall>k'. embeds cb m k' \<longrightarrow> \<not> key_equals cb k' k \<and> \<not> key_equals cb k k'"
    proof (intro ballI allI impI)
      fix m k' assume m: "m \<in> members st f" "embeds cb m k'"
      have "P k'" using ht_ok_node [OF assms(1) m(1)] m(2) by (metis embeds_def key_ptr.inject(1) outcome.inject)
      then show "\<not> key_equals cb k' k \<and> \<not> key_equals cb k k'"
        using False m assms(3,4) eq_sym [of k k'] by (auto simp: holds_def)
    qed
    note ok = ht_ok_add [OF assms(1,5,7,6,4) ne assms(8)]
    have "\<exists>st' g. insert_node cb (KObject k) ?i n st = Some (Return (0, st')) \<and> ht_ok P cb st' g \<and>
        members st' g = insert n (members st f) \<and> heads st' = heads st \<and> stat st' = stat st"
      by (intro exI conjI, rule ins, rule ok(1), rule ok(2)) simp_all
    with False show ?thesis by (simp only: if_False)
  qed
qed

lemma remove_spec:
  assumes "ht_ok P cb st f" "n \<in> members st f"
  obtains g where "hashtable_remove cb n st = Return (0, unlink_node n st)" "ht_ok P cb (unlink_node n st) g"
    "members (unlink_node n st) g = members st f - {n}"
proof -
  obtain k where k: "embeds cb n k" using ht_ok_node [OF assms] by blast
  obtain g where g: "ht_ok P cb (unlink_node n st) g" "members (unlink_node n st) g = members st f - {n}"
    "\<not> list_empty n (store st)" by (rule ht_ok_del [OF assms])
  have "n \<noteq> NULL" using assms by (auto simp: ht_ok_def)
  then have "hashtable_remove cb n st = Return (0, unlink_node n st)"
    using k g(3) bucket_heads [OF ht_okD(1) [OF assms(1)] ht_ok_index [OF assms(1)]]
    by (simp add: hashtable_remove_def embeds_def)
  then show thesis using g(1,2) by (rule that)
qed

lemma remove_by_key_spec:
  assumes "ht_ok P cb st f" "hash_func cb = hf" "key_equals cb = eq" "P k"
  shows "(\<nexists>n. holds cb st f k n) \<Longrightarrow> hashtable_remove_by_key cb (Some k) st = Some (Return (- ENOENT, st))"
    and "holds cb st f k n \<Longrightarrow> \<exists>g. hashtable_remove_by_key cb (Some k) st = Some (Return (0, unlink_node n st))
           \<and> ht_ok P cb (unlink_node n st) g \<and> members (unlink_node n st) g = members st f - {n}"
proof -
  have "has_key cb k n = Return (eq k' k)" if "embeds cb n k'" for n k'
    using that assms(3) by (simp add: has_key_def embeds_def)
  from in_bucket_holds [where test = "has_key cb k", OF assms this] obtain r
    where r: "in_bucket (has_key cb k) st (bucket_index cb (tbl st) k) = Some (Return r)"
      "\<And>n. r = Some n \<longleftrightarrow> holds cb st f k n" by blast
  then have rk: "hashtable_remove_by_key cb (Some k) st =
      Some (Return (case r of None \<Rightarrow> (- ENOENT, st) | Some pos \<Rightarrow> (0, unlink_node pos st)))"
    by (simp add: hashtable_remove_by_key_def)
  show "(\<nexists>n. holds cb st f k n) \<Longrightarrow> hashtable_remove_by_key cb (Some k) st = Some (Return (- ENOENT, st))"
    using r(2) unfolding rk by (cases r) auto
  assume h: "holds cb st f k n"
  then have "r = Some n" using r(2) by simp
  moreover have "n \<in> members st f" using h by (simp add: holds_def)
  ultimately show "\<exists>g. hashtable_remove_by_key cb (Some k) st = Some (Return (0, unlink_node n st))
      \<and> ht_ok P cb (unlink_node n st) g \<and> members (unlink_node n st) g = members st f - {n}"
    unfolding rk using ht_ok_del [OF assms(1)] by (metis option.simps(5))
qed

end

subsection \<open>Insertion below the load limit, and a new table\<close>

lemma threshold_bound: "unat (threshold ht) \<le> 42949672"
proof -
  have "unat (ht_size ht * max_load ht) < 2 ^ LENGTH(32)" by (rule unsigned_less)
  then show ?thesis by (simp add: threshold_def unat_div)
qed

lemma hashtable_insert_below:
  assumes "hashtable_count (tbl st) < threshold (tbl st)" "n \<noteq> NULL" "embeds cb n k"
  shows "hashtable_insert cb mem n st = insert_node cb (KObject k) (bucket_index cb (tbl st) k) n st"
proof -
  have "\<not> threshold (tbl st) \<le> hashtable_count (tbl st)" using assms(1) by (simp add: not_le)
  then show ?thesis using assms(2,3) by (simp add: hashtable_insert_def embeds_def)
qed

lemma count_members:
  assumes "ht_ok P cb st f"
  shows "unat (hashtable_count (tbl st)) = card (members st f)"
  using ht_okD(5,6) [OF assms] by (simp add: hashtable_count_def unsigned_of_nat take_bit_nat_eq_self)

lemma lists_ok_fold_INIT:
  assumes "lists_ok s H f" "distinct hs" "set hs \<inter> list_nodes H f = {}"
  shows "lists_ok (fold INIT_LIST_HEAD hs s) (set hs \<union> H) (\<lambda>h. if h \<in> set hs then [] else f h)"
  using assms
proof (induction hs arbitrary: s H f)
  case (Cons h hs)
  have h: "h \<notin> list_nodes H f" using Cons.prems(3) by simp
  have "lists_ok (INIT_LIST_HEAD h s) (insert h H) (f(h := []))" by (rule lists_ok_INIT [OF Cons.prems(1) h])
  moreover have "set hs \<inter> list_nodes (insert h H) (f(h := [])) = {}"
  proof -
    have "list_nodes (insert h H) (f(h := [])) \<subseteq> insert h (list_nodes H f)"
      by (auto simp: list_nodes_def split: if_splits)
    then show ?thesis using Cons.prems(2,3) by auto
  qed
  ultimately have "lists_ok (fold INIT_LIST_HEAD hs (INIT_LIST_HEAD h s)) (set hs \<union> insert h H)
      (\<lambda>x. if x \<in> set hs then [] else (f(h := [])) x)"
    using Cons.IH [of "INIT_LIST_HEAD h s" "insert h H" "f(h := [])"] Cons.prems(2) by (simp only: distinct.simps)
  moreover have "(\<lambda>x. if x \<in> set hs then [] else (f(h := [])) x) = (\<lambda>x. if x \<in> set (h # hs) then [] else f x)"
    using Cons.prems(2) by auto
  ultimately show ?case by simp
qed simp

subsection \<open>The next power of two\<close>

text \<open>Every bit of \<open>y\<close> collects the bits of \<open>x\<close> in the window of width \<open>w\<close> above it.\<close>

definition smeared :: "nat \<Rightarrow> u32 \<Rightarrow> u32 \<Rightarrow> bool" where
  "smeared w x y \<longleftrightarrow> (\<forall>n. bit y n \<longleftrightarrow> (\<exists>j < w. bit x (n + j)))"

lemma smeared_step:
  assumes "smeared w x y" "w' = w + w"
  shows "smeared w' x (y OR drop_bit w y)"
  unfolding smeared_def assms(2)
proof
  fix n
  have "bit (y OR drop_bit w y) n \<longleftrightarrow> (\<exists>j < w. bit x (n + j)) \<or> (\<exists>j < w. bit x (w + n + j))"
    using assms(1) by (simp add: smeared_def bit_or_iff bit_drop_bit_eq)
  also have "\<dots> \<longleftrightarrow> (\<exists>j < w + w. bit x (n + j))"
  proof
    assume "\<exists>j < w + w. bit x (n + j)"
    then obtain j where j: "j < w + w" "bit x (n + j)" by blast
    show "(\<exists>j < w. bit x (n + j)) \<or> (\<exists>j < w. bit x (w + n + j))"
    proof (cases "j < w")
      case False
      then have "j - w < w" "w + n + (j - w) = n + j" using j(1) by auto
      then show ?thesis using j(2) by metis
    qed (use j in blast)
  qed (metis add.assoc add.commute add_strict_left_mono trans_less_add1)
  finally show "bit (y OR drop_bit w y) n \<longleftrightarrow> (\<exists>j < w + w. bit x (n + j))" .
qed

lemma smeared_mask:
  assumes "smeared 32 x y" "2 ^ m \<le> unat x" "unat x < 2 ^ Suc m"
  shows "y + 1 = 2 ^ Suc m"
proof -
  have m: "m < 32"
  proof -
    have "unat x < 2 ^ LENGTH(32)" by (rule unsigned_less)
    then have "(2 :: nat) ^ m < 2 ^ 32" using assms(2) by simp
    then show ?thesis by (simp only: power_strict_increasing_iff) 
  qed
  have bx: "bit x j \<longleftrightarrow> odd (unat x div 2 ^ j)" for j
  proof -
    have "bit (unat x) j \<longleftrightarrow> bit x j" by (simp add: bit_unsigned_iff)
    with bit_iff_odd [of "unat x" j] show ?thesis by blast
  qed
  have top: "bit x m" using m assms(2,3) bx [of m] by (simp add: div_nat_eqI [of "2 ^ m" 1])
  have above: "\<not> bit x j" if "m < j" for j
  proof -
    have "(2 :: nat) ^ Suc m \<le> 2 ^ j" using that by (intro power_increasing) auto
    then have "unat x < 2 ^ j" using assms(3) by linarith
    then show ?thesis using bx [of j] by simp
  qed
  have "y = mask (Suc m)"
  proof (rule bit_eqI)
    fix n assume n: "possible_bit TYPE(u32) n"
    have "bit y n \<longleftrightarrow> n \<le> m"
    proof
      assume "bit y n"
      then obtain j where "bit x (n + j)" using assms(1) by (auto simp: smeared_def)
      then show "n \<le> m" using above [of "n + j"] by (cases "m < n + j") auto
    next
      assume "n \<le> m"
      then have "m - n < 32" "bit x (n + (m - n))" using m top by auto
      then show "bit y n" using assms(1) unfolding smeared_def by blast
    qed
    then show "bit y n \<longleftrightarrow> bit (mask (Suc m) :: u32) n" using n by (auto simp: bit_mask_iff less_Suc_eq_le)
  qed
  then show ?thesis by (simp add: mask_eq_exp_minus_1)
qed

lemma ex_power_window: "0 < (k :: nat) \<Longrightarrow> \<exists>m. 2 ^ m \<le> k \<and> k < 2 ^ Suc m"
proof (induction k rule: less_induct)
  case (less k)
  show ?case
  proof (cases "k = 1")
    case False
    then have "k div 2 < k" "0 < k div 2" using less.prems by auto
    then obtain m where "2 ^ m \<le> k div 2" "k div 2 < 2 ^ Suc m" using less.IH by blast
    then have "2 ^ Suc m \<le> k" "k < 2 ^ Suc (Suc m)" by auto
    then show ?thesis by blast
  qed (auto intro: exI [of _ 0])
qed

lemma next_power_of_2_smeared:
  obtains y where "smeared 32 (x - 1) y" "next_power_of_2 x = y + 1"
proof -
  define y1 where "y1 = (x - 1) OR drop_bit 1 (x - 1)"
  define y2 where "y2 = y1 OR drop_bit 2 y1"
  define y3 where "y3 = y2 OR drop_bit 4 y2"
  define y4 where "y4 = y3 OR drop_bit 8 y3"
  have "smeared 1 (x - 1) (x - 1)" by (simp add: smeared_def)
  then have "smeared 2 (x - 1) y1" unfolding y1_def by (rule smeared_step) simp
  then have "smeared 4 (x - 1) y2" unfolding y2_def by (rule smeared_step) simp
  then have "smeared 8 (x - 1) y3" unfolding y3_def by (rule smeared_step) simp
  then have "smeared 16 (x - 1) y4" unfolding y4_def by (rule smeared_step) simp
  then have "smeared 32 (x - 1) (y4 OR drop_bit 16 y4)" by (rule smeared_step) simp
  then show thesis by (rule that) (simp only: next_power_of_2_def Let_def y4_def y3_def y2_def y1_def)
qed

lemma next_power_of_2_eq:
  assumes "1 < unat x" "2 ^ m < unat x" "unat x \<le> 2 ^ Suc m"
  shows "next_power_of_2 x = 2 ^ Suc m"
proof -
  have "unat (x - 1) = unat x - 1" using assms(1) by (simp add: unat_sub word_le_nat_alt)
  then have "2 ^ m \<le> unat (x - 1)" "unat (x - 1) < 2 ^ Suc m" using assms by auto
  then show ?thesis using next_power_of_2_smeared [of x] smeared_mask by metis
qed

subsection \<open>Moving the nodes of a bucket\<close>

text \<open>The node goes to the upper half of the new array.\<close>

definition upper :: "'k callbacks \<Rightarrow> u32 \<Rightarrow> ptr \<Rightarrow> bool" where
  "upper cb sz n \<longleftrightarrow> (\<exists>k. embeds cb n k \<and> hash_func cb k AND sz \<noteq> 0)"

lemma transfer_nodes_lists:
  assumes "lists_ok s H f" "{head, lo, up} \<subseteq> H" "head \<noteq> lo" "head \<noteq> up" "lo \<noteq> up"
    and "\<forall>n \<in> set (f head). \<exists>k. embeds cb n k"
    and "bucket nbs i = Return lo" "bucket nbs (i + sz) = Return up"
  shows "\<exists>s'. transfer_nodes cb sz nbs i head (next_of s head) (next_of s (next_of s head)) s = Some (Return s') \<and>
    lists_ok s' H (f(head := [], lo := rev (filter (\<lambda>n. \<not> upper cb sz n) (f head)) @ f lo,
                     up := rev (filter (upper cb sz) (f head)) @ f up))"
  using assms(1,2,6)
proof (induction "f head" arbitrary: s f)
  case Nil
  have "next_of s head = head" using lists_ok_dll [OF Nil(2), of head] Nil(1,3) by (simp add: dll_def)
  moreover have "f(head := [], lo := f lo, up := f up) = f" using Nil(1) by auto
  ultimately show ?case using Nil by (subst transfer_nodes.simps) simp
next
  case (Cons x xs)
  have H: "head \<in> H" "lo \<in> H" "up \<in> H" and fh: "f head = x # xs" using Cons(2,4) by auto
  have d: "dll s head (x # xs)" using lists_ok_dll [OF Cons(3) H(1)] by (simp add: fh)
  then have nx: "next_of s head = x" "x \<noteq> head" "next_of s x = hd (xs @ [head])"
    using dll_remove(2) [of s head "[]" x xs] by (auto simp: dll_def)
  obtain k where k: "embeds cb x k" using Cons(5) fh by auto
  define t where "t = (if hash_func cb k AND sz \<noteq> 0 then up else lo)"
  have t: "t \<in> H" "t \<noteq> head" using H assms(3,4) by (auto simp: t_def)
  have u: "upper cb sz x \<longleftrightarrow> t = up" using k assms(5) by (auto simp: upper_def t_def embeds_def)
  define s1 where "s1 = list_add x t (list_del x s)"
  define f1 where "f1 = f(head := xs, t := x # f t)"
  have x: "x \<in> set (f head)" "remove1 x (f head) = xs" by (simp_all add: fh)
  have "lists_ok (list_del x s) H (f(head := xs))" using lists_ok_del [OF Cons(3) H(1) x(1)] by (simp only: x)
  moreover have "x \<notin> list_nodes H (f(head := xs))" using lists_ok_removed [OF Cons(3) H(1) x(1)] unfolding x(2) .
  ultimately have "lists_ok s1 H ((f(head := xs))(t := x # (f(head := xs)) t))"
    unfolding s1_def by (intro lists_ok_add [OF _ t(1)])
  then have l1: "lists_ok s1 H f1" using t(2) by (simp add: f1_def)
  have f1h: "xs = f1 head" using t(2) by (simp add: f1_def)
  have tmp: "next_of s1 head = hd (xs @ [head])"
    using lists_ok_dll [OF l1 H(1)] seg_first [of s1 head xs head] by (simp add: f1h [symmetric] dll_def)
  have "\<forall>n \<in> set (f1 head). \<exists>k. embeds cb n k" using Cons(5) fh by (simp add: f1h [symmetric])
  from Cons(1) [OF f1h l1 Cons(4) this] obtain s'
    where s': "transfer_nodes cb sz nbs i head (next_of s1 head) (next_of s1 (next_of s1 head)) s1 = Some (Return s')"
      "lists_ok s' H (f1(head := [], lo := rev (filter (\<lambda>n. \<not> upper cb sz n) (f1 head)) @ f1 lo,
         up := rev (filter (upper cb sz) (f1 head)) @ f1 up))" by blast
  have "transfer_nodes cb sz nbs i head (next_of s head) (next_of s (next_of s head)) s
      = transfer_nodes cb sz nbs i head (hd (xs @ [head])) (next_of s1 (hd (xs @ [head]))) s1"
    using nx k assms(7,8) unfolding s1_def t_def by (subst transfer_nodes.simps) (auto simp: embeds_def Let_def)
  moreover have "f1(head := [], lo := rev (filter (\<lambda>n. \<not> upper cb sz n) (f1 head)) @ f1 lo,
         up := rev (filter (upper cb sz) (f1 head)) @ f1 up)
      = f(head := [], lo := rev (filter (\<lambda>n. \<not> upper cb sz n) (f head)) @ f lo,
         up := rev (filter (upper cb sz) (f head)) @ f up)"
    using u t assms(3-5) unfolding f1h [symmetric] fh by (cases "t = up") (auto simp: f1_def t_def fun_eq_iff split: if_splits)
  ultimately show ?case using s' unfolding tmp by auto
qed

text \<open>
  The buckets with index in \<open>A\<close> have been moved: \<open>f\<close> are the lists before, \<open>g\<close> after, of the
  old heads \<open>hs\<close> and the new heads \<open>ns\<close>.
\<close>

definition moved :: "'k callbacks \<Rightarrow> u32 \<Rightarrow> ptr list \<Rightarrow> ptr list \<Rightarrow> nat set \<Rightarrow> (ptr \<Rightarrow> ptr list) \<Rightarrow> (ptr \<Rightarrow> ptr list) \<Rightarrow> bool" where
  "moved cb sz hs ns A f g \<longleftrightarrow>
     (\<forall>i < length hs. g (hs ! i) = (if i \<in> A then [] else f (hs ! i))) \<and>
     (\<forall>j < length ns. set (g (ns ! j)) =
        {n \<in> set (f (hs ! (j mod length hs))). j mod length hs \<in> A \<and> (upper cb sz n \<longleftrightarrow> length hs \<le> j)})"

lemma moved_step:
  assumes "moved cb sz hs ns A f g" "i \<notin> A" "i < length hs" "length ns = 2 * length hs" "distinct (hs @ ns)"
  shows "moved cb sz hs ns (insert i A) f
    (g(hs ! i := [], ns ! i := rev (filter (\<lambda>n. \<not> upper cb sz n) (g (hs ! i))) @ g (ns ! i),
       ns ! (i + length hs) := rev (filter (upper cb sz) (g (hs ! i))) @ g (ns ! (i + length hs))))"
    (is "moved _ _ _ _ _ _ ?g")
  unfolding moved_def
proof (intro conjI allI impI)
  let ?N = "length hs"
  have gi: "g (hs ! i) = f (hs ! i)" using assms(1-3) by (simp add: moved_def)
  have ne: "hs ! j \<noteq> ns ! l" if "j < ?N" "l < length ns" for j l
    using assms(5) that by (auto simp: distinct_append dest: nth_mem)
  have nn: "ns ! j = ns ! l \<longleftrightarrow> j = l" if "j < length ns" "l < length ns" for j l
    using assms(5) that by (simp add: nth_eq_iff_index_eq)
  have hh: "hs ! j = hs ! i \<longleftrightarrow> j = i" if "j < ?N" for j
    using assms(3,5) that by (simp add: nth_eq_iff_index_eq)
  show "?g (hs ! j) = (if j \<in> insert i A then [] else f (hs ! j))" if "j < ?N" for j
    using that assms(1,3,4) ne [OF that] hh [OF that] by (simp add: moved_def)
  fix j assume j: "j < length ns"
  have old: "set (g (ns ! j)) = {n \<in> set (f (hs ! (j mod ?N))). j mod ?N \<in> A \<and> (upper cb sz n \<longleftrightarrow> ?N \<le> j)}"
    using assms(1) j by (simp add: moved_def)
  have "i < length ns" "i + ?N < length ns" "i \<noteq> i + ?N" using assms(3,4) by auto
  then have ns_ne: "ns ! i \<noteq> ns ! (i + ?N)" using nn by blast
  consider "j = i" | "j = i + ?N" | "j mod ?N \<noteq> i"
  proof (cases "j < ?N")
    case False
    then have "j mod ?N = j - ?N" using j assms(4) by (simp add: mod_if)
    then show thesis using False that(2,3) by linarith
  qed (use that in auto)
  then show "set (?g (ns ! j)) =
      {n \<in> set (f (hs ! (j mod ?N))). j mod ?N \<in> insert i A \<and> (upper cb sz n \<longleftrightarrow> ?N \<le> j)}"
  proof cases
    case 1
    have jm: "j mod ?N = i" "\<not> ?N \<le> j" using 1 assms(3) by simp_all
    then have "g (ns ! j) = []" using old assms(2) by simp
    then have "?g (ns ! j) = rev (filter (\<lambda>n. \<not> upper cb sz n) (f (hs ! i)))"
      using 1 ns_ne gi by simp
    then show ?thesis unfolding jm(1) using jm(2) by simp
  next
    case 2
    have jm: "j mod ?N = i" "?N \<le> j" using 2 assms(3) by simp_all
    then have "g (ns ! j) = []" using old assms(2) by simp
    then have "?g (ns ! j) = rev (filter (upper cb sz) (f (hs ! i)))" using 2 gi by simp
    then show ?thesis unfolding jm(1) using jm(2) by simp
  next
    case 3
    then have "j \<noteq> i" "j \<noteq> i + ?N" using assms(3) by auto
    then have "?g (ns ! j) = g (ns ! j)"
      using nn [of j i] nn [of j "i + ?N"] ne [of i j] j assms(3,4) by simp
    then show ?thesis using old 3 by simp
  qed
qed

lemma transfer_bucket_moved:
  assumes "lists_ok (store st) (set (hs @ ns)) g" "moved cb (ht_size (tbl st)) hs ns A f g"
    and "buckets (tbl st) = Some hs" "new_buckets (stat st) = Some ns"
    and "unat (ht_size (tbl st)) = length hs" "length ns = 2 * length hs" "length ns < 2 ^ 32" "distinct (hs @ ns)"
    and "\<forall>n \<in> set (f (hs ! i)). \<exists>k. embeds cb n k" "i \<notin> A" "i < length hs"
  shows "\<exists>s g'. transfer_bucket cb (of_nat i) st = Some (Return (st\<lparr>store := s\<rparr>)) \<and>
    lists_ok s (set (hs @ ns)) g' \<and> moved cb (ht_size (tbl st)) hs ns (insert i A) f g'"
proof -
  let ?N = "length hs"
  have i: "unat (of_nat i :: u32) = i" using assms(5-7,11) by (simp add: unsigned_of_nat take_bit_nat_eq_self)
  have j: "unat (of_nat i + ht_size (tbl st)) = i + ?N"
    using assms(5-7,11) i by (simp add: unat_word_ariths(1))
  have b: "bucket (Some hs) (of_nat i) = Return (hs ! i)" "bucket (Some ns) (of_nat i) = Return (ns ! i)"
    "bucket (Some ns) (of_nat i + ht_size (tbl st)) = Return (ns ! (i + ?N))"
    using assms(6,11) by (simp_all add: bucket_def i j)
  have gi: "g (hs ! i) = f (hs ! i)" using assms(2,10,11) by (simp add: moved_def)
  have H: "{hs ! i, ns ! i, ns ! (i + ?N)} \<subseteq> set (hs @ ns)" using assms(6,11) by simp
  have ne: "hs ! i \<noteq> ns ! i" "hs ! i \<noteq> ns ! (i + ?N)" "ns ! i \<noteq> ns ! (i + ?N)"
    using assms(6,8,11) by (auto simp: nth_eq_iff_index_eq dest: nth_mem)
  have "\<forall>n \<in> set (g (hs ! i)). \<exists>k. embeds cb n k" using assms(9) gi by simp
  from transfer_nodes_lists [OF assms(1) H ne this b(2,3)] obtain s'
    where s': "transfer_nodes cb (ht_size (tbl st)) (Some ns) (of_nat i) (hs ! i) (next_of (store st) (hs ! i))
          (next_of (store st) (next_of (store st) (hs ! i))) (store st) = Some (Return s')"
      "lists_ok s' (set (hs @ ns)) (g(hs ! i := [], ns ! i := rev (filter (\<lambda>n. \<not> upper cb (ht_size (tbl st)) n) (g (hs ! i))) @ g (ns ! i),
         ns ! (i + ?N) := rev (filter (upper cb (ht_size (tbl st))) (g (hs ! i))) @ g (ns ! (i + ?N))))" by blast
  have "transfer_bucket cb (of_nat i) st = Some (Return (st\<lparr>store := s'\<rparr>))"
    using s'(1) b(1) by (simp add: transfer_bucket_def assms(3,4) Let_def)
  with s'(2) moved_step [OF assms(2,10,11,6,8)] show ?thesis by blast
qed

lemma transfer_buckets_snoc:
  "transfer_buckets cb (is @ [i]) st = bind_run (transfer_buckets cb is st) (transfer_bucket cb (of_nat i))"
proof (induction "is" arbitrary: st)
  case Nil
  then show ?case by (cases "transfer_bucket cb (of_nat i) st" rule: option.exhaust; simp; case_tac x2; simp)
next
  case (Cons a "is")
  show ?case
  proof (cases "transfer_bucket cb (of_nat a) st")
    case (Some r)
    then show ?thesis using Cons by (cases r) simp_all
  qed simp
qed

lemma transfer_buckets_moved:
  assumes "lists_ok (store st) (set (hs @ ns)) f" "\<forall>h \<in> set ns. f h = []"
    and "buckets (tbl st) = Some hs" "new_buckets (stat st) = Some ns"
    and "unat (ht_size (tbl st)) = length hs" "length ns = 2 * length hs" "length ns < 2 ^ 32" "distinct (hs @ ns)"
    and "\<forall>i < length hs. \<forall>n \<in> set (f (hs ! i)). \<exists>k. embeds cb n k" "b \<le> length hs"
  shows "\<exists>s g. transfer_buckets cb [0..<b] st = Some (Return (st\<lparr>store := s\<rparr>)) \<and>
    lists_ok s (set (hs @ ns)) g \<and> moved cb (ht_size (tbl st)) hs ns {..<b} f g"
  using assms(10)
proof (induction b)
  case 0
  have "moved cb (ht_size (tbl st)) hs ns {} f f" using assms(2) by (auto simp: moved_def)
  then show ?case using assms(1) by (intro exI [of _ "store st"] exI [of _ f]) simp
next
  case (Suc b)
  then obtain s g where sg: "transfer_buckets cb [0..<b] st = Some (Return (st\<lparr>store := s\<rparr>))"
    "lists_ok s (set (hs @ ns)) g" "moved cb (ht_size (tbl st)) hs ns {..<b} f g" by auto
  let ?st = "st\<lparr>store := s\<rparr>"
  have "\<exists>s' g'. transfer_bucket cb (of_nat b) ?st = Some (Return (?st\<lparr>store := s'\<rparr>)) \<and>
      lists_ok s' (set (hs @ ns)) g' \<and> moved cb (ht_size (tbl ?st)) hs ns (insert b {..<b}) f g'"
    using sg assms(3-8) assms(9) [rule_format, of b] Suc.prems by (intro transfer_bucket_moved) simp_all
  then obtain s' g' where "transfer_bucket cb (of_nat b) ?st = Some (Return (?st\<lparr>store := s'\<rparr>))"
      "lists_ok s' (set (hs @ ns)) g'" "moved cb (ht_size (tbl ?st)) hs ns (insert b {..<b}) f g'" by blast
  then have "transfer_buckets cb ([0..<b] @ [b]) st = Some (Return (st\<lparr>store := s'\<rparr>)) \<and>
      lists_ok s' (set (hs @ ns)) g' \<and> moved cb (ht_size (tbl st)) hs ns {..<Suc b} f g'"
    unfolding transfer_buckets_snoc sg(1) by (simp add: lessThan_Suc)
  then show ?case by (intro exI [of _ s'] exI [of _ g']) simp
qed

subsection \<open>The first step of an expansion\<close>

text \<open>
  The conditions at the start of an expansion: the table is full, no expansion is under way,
  and \<^verbatim>\<open>kmalloc\<close> has given an array of fresh buckets of twice the size.
\<close>

definition expandable :: "ht_state \<Rightarrow> (ptr \<Rightarrow> ptr list) \<Rightarrow> ptr list \<Rightarrow> bool" where
  "expandable st f ns \<longleftrightarrow> threshold (tbl st) \<le> hashtable_count (tbl st) \<and>
     \<not> expansion_in_progress (stat st) \<and> expanding (tbl st) = 0 \<and>
     length ns = 2 * length (heads st) \<and> length ns < 2 ^ 32 \<and> distinct ns \<and>
     set ns \<inter> list_nodes (set (heads st)) f = {}"

lemma lists_ok_new_buckets:
  assumes "lists_ok s (set hs) f" "distinct ns" "set ns \<inter> list_nodes (set hs) f = {}"
  shows "lists_ok (fold INIT_LIST_HEAD ns s) (set (hs @ ns)) (\<lambda>h. if h \<in> set ns then [] else f h)"
  using lists_ok_fold_INIT [OF assms] by (simp add: Un_commute)

lemma try_expand_moved:
  assumes "ht_ok P cb st f" "expandable st f ns"
  defines "N \<equiv> length (heads st)"
  defines "st1 \<equiv> st\<lparr>tbl := (tbl st)\<lparr>expanding := 1\<rparr>,
     stat := \<lparr>new_buckets = Some ns, new_size = ht_size (tbl st) * 2, transfer_index = of_nat (min 16 N), expansion_in_progress = True\<rparr>\<rparr>"
  shows "\<exists>s g. hashtable_try_expand cb (Some ns) st = Some (Return (0, finish_expansion (st1\<lparr>store := s\<rparr>))) \<and>
    lists_ok s (set (heads st @ ns)) g \<and>
    moved cb (ht_size (tbl st)) (heads st) ns {..<min 16 N} (\<lambda>h. if h \<in> set ns then [] else f h) g"
proof -
  let ?f = "\<lambda>h. if h \<in> set ns then [] else f h" and ?b = "min 16 N"
  note ok = ht_okD [OF assms(1)]
  have ex: "threshold (tbl st) \<le> hashtable_count (tbl st)" "\<not> expansion_in_progress (stat st)" "expanding (tbl st) = 0"
    "length ns = 2 * N" "length ns < 2 ^ 32" "distinct ns" "set ns \<inter> list_nodes (set (heads st)) f = {}"
    using assms(2) by (simp_all add: expandable_def N_def)
  have hs: "buckets (tbl st) = Some (heads st)" using ok(1) by (auto simp: heads_def)
  have sz: "unat (ht_size (tbl st)) = N" using assms(1) by (simp add: ht_ok_def N_def)
  have sz2: "unat (ht_size (tbl st) * 2) = length ns"
    using ex(4,5) sz by (simp add: unat_word_ariths(2))
  define st0 where "st0 = st\<lparr>tbl := (tbl st)\<lparr>expanding := 1\<rparr>, store := fold INIT_LIST_HEAD ns (store st),
     stat := \<lparr>new_buckets = Some ns, new_size = ht_size (tbl st) * 2, transfer_index = 0, expansion_in_progress = True\<rparr>\<rparr>"
  have start: "start_expansion (Some ns) st = (None, st0)"
    using ex(2,3) sz2 by (simp add: start_expansion_def st0_def Let_def)
  have e: "end_index st0 = of_nat ?b"
  proof -
    have "(16 :: u32) > ht_size (tbl st) \<longleftrightarrow> N < 16" by (simp add: word_less_nat_alt sz)
    then show ?thesis using sz by (auto simp: end_index_def st0_def Let_def min_def)
  qed
  have eu: "unat (of_nat ?b :: u32) = ?b" by (simp add: unsigned_of_nat take_bit_nat_eq_self)
  have dis: "distinct (heads st @ ns)" using ok(2) ex(6,7) by (auto simp: list_nodes_def)
  have l0: "lists_ok (store st0) (set (heads st @ ns)) ?f"
    using lists_ok_new_buckets [OF ok(3) ex(6,7)] by (simp add: st0_def)
  have emb: "\<forall>i < length (heads st). \<forall>n \<in> set (?f (heads st ! i)). \<exists>k. embeds cb n k"
  proof (intro allI impI ballI)
    fix i n assume "i < length (heads st)" "n \<in> set (?f (heads st ! i))"
    then have "n \<in> members st f" by (intro members_I [of i]) (auto split: if_splits)
    then show "\<exists>k. embeds cb n k" using ht_ok_node [OF assms(1)] by blast
  qed
  have "\<exists>s g. transfer_buckets cb [0..<?b] st0 = Some (Return (st0\<lparr>store := s\<rparr>)) \<and>
      lists_ok s (set (heads st @ ns)) g \<and> moved cb (ht_size (tbl st0)) (heads st) ns {..<?b} ?f g"
    using hs sz ex(4,5) dis emb l0
    by (intro transfer_buckets_moved) (simp_all add: st0_def N_def)
  then obtain s g where sg: "transfer_buckets cb [0..<?b] st0 = Some (Return (st0\<lparr>store := s\<rparr>))"
      "lists_ok s (set (heads st @ ns)) g" "moved cb (ht_size (tbl st)) (heads st) ns {..<?b} ?f g"
    by (auto simp: st0_def)
  have ti: "transfer_index (stat st0) = 0" by (simp add: st0_def)
  have "\<not> hashtable_count (tbl st) < threshold (tbl st)" using ex(1) by (simp add: not_less)
  then have "hashtable_try_expand cb (Some ns) st =
      Some (Return (0, finish_expansion (st0\<lparr>store := s, stat := (stat st0)\<lparr>transfer_index := of_nat ?b\<rparr>\<rparr>)))"
    using sg(1) by (simp add: hashtable_try_expand_def start e eu ti)
  also have "st0\<lparr>store := s, stat := (stat st0)\<lparr>transfer_index := of_nat ?b\<rparr>\<rparr> = st1\<lparr>store := s\<rparr>"
    by (simp add: st0_def st1_def)
  finally show ?thesis using sg(2,3) by blast
qed

lemma mod_double: "unat (h :: u32) mod 2 ^ Suc e = (if h AND 2 ^ e \<noteq> 0 then 2 ^ e else 0) + unat h mod 2 ^ e"
proof -
  have "(h AND 2 ^ e \<noteq> 0) \<longleftrightarrow> bit h e"
    by (simp add: and_exp_eq_0_iff_not_bit)
  moreover have "bit (unat h) e \<longleftrightarrow> bit h e" by (simp add: bit_unsigned_iff)
  moreover have "take_bit (Suc e) (unat h) = 2 ^ e * of_bool (bit (unat h) e) + take_bit e (unat h)"
    by (rule take_bit_Suc_from_most)
  ultimately show ?thesis by (simp add: take_bit_eq_mod)
qed

lemma moved_members:
  assumes "moved cb sz hs ns {..<length hs} f g" "length ns = 2 * length hs" "\<forall>h \<in> set hs. f h = f0 h"
  shows "(\<Union>h \<in> set ns. set (g h)) = (\<Union>h \<in> set hs. set (f0 h))"
proof (intro equalityI subsetI)
  fix n assume "n \<in> (\<Union>h \<in> set ns. set (g h))"
  then obtain j where j: "j < length ns" "n \<in> set (g (ns ! j))" by (auto simp: in_set_conv_nth [of _ ns])
  then have "n \<in> set (f (hs ! (j mod length hs)))" using assms(1) by (simp add: moved_def)
  moreover have "j mod length hs < length hs" using j(1) assms(2) by (intro mod_less_divisor) linarith
  ultimately show "n \<in> (\<Union>h \<in> set hs. set (f0 h))" using assms(3) by (metis UN_I nth_mem)
next
  fix n assume "n \<in> (\<Union>h \<in> set hs. set (f0 h))"
  then obtain i where i: "i < length hs" "n \<in> set (f0 (hs ! i))" by (auto simp: in_set_conv_nth [of _ hs])
  define j where "j = (if upper cb sz n then i + length hs else i)"
  have "j < length ns" "j mod length hs = i" "upper cb sz n \<longleftrightarrow> length hs \<le> j"
    using i(1) assms(2) by (auto simp: j_def)
  moreover from this have "n \<in> set (g (ns ! j))" using assms(1,3) i by (simp add: moved_def)
  ultimately show "n \<in> (\<Union>h \<in> set ns. set (g h))" by (metis UN_I nth_mem)
qed

lemma moved_index:
  assumes "unat h mod 2 ^ e = j mod 2 ^ e" "(h AND 2 ^ e \<noteq> 0) \<longleftrightarrow> 2 ^ e \<le> j" "j < 2 * 2 ^ e"
  shows "unat (h :: u32) mod 2 ^ Suc e = j"
proof (cases "2 ^ e \<le> j")
  case True
  then have "j mod 2 ^ e = j - 2 ^ e" using assms(3) by (simp add: mod_if)
  then show ?thesis using mod_double [of h e] assms(1,2) True by simp
qed (use mod_double [of h e] assms in simp)

subsection \<open>New tables\<close>

lemma setup_size_pow:
  assumes "initial_size \<le> 2147483648"
  obtains e where "4 \<le> e" "e \<le> 31" "unat (setup_size initial_size) = 2 ^ e" "unat initial_size \<le> 2 ^ e"
    "16 < initial_size \<Longrightarrow> 2 ^ (e - 1) < unat initial_size"
proof (cases "initial_size \<le> 16")
  case True
  have "unat initial_size \<le> 16" using True by (simp add: word_le_nat_alt)
  moreover have "initial_size < 16 \<or> initial_size = 16" using True by (simp add: order_le_less)
  moreover have "next_power_of_2 16 = 16" by code_simp
  ultimately show ?thesis by (intro that [of 4]) (use True in \<open>auto simp: setup_size_def\<close>)
next
  case False
  have x: "16 < unat initial_size" "unat initial_size \<le> 2 ^ 31"
    using False assms by (simp_all add: word_le_nat_alt)
  then obtain m where m: "2 ^ m \<le> unat initial_size - 1" "unat initial_size - 1 < 2 ^ Suc m"
    using ex_power_window [of "unat initial_size - 1"] by auto
  have eq: "next_power_of_2 initial_size = 2 ^ Suc m" using x m by (intro next_power_of_2_eq) auto
  have "(2 :: nat) ^ m < 2 ^ 31" using m x by linarith
  then have m31: "m < 31" by (simp only: power_strict_increasing_iff)
  have "(2 :: nat) ^ 4 < 2 ^ Suc m" using m x by simp
  then have m4: "4 < Suc m" by (simp only: power_strict_increasing_iff)
  have "\<not> initial_size < 16" using x by (simp add: word_less_nat_alt)
  moreover have "unat (2 ^ Suc m :: u32) = 2 ^ Suc m"
  proof -
    have "(2 :: nat) ^ Suc m < 2 ^ 32" using m31 by (intro power_strict_increasing) auto
    then have "unat (of_nat (2 ^ Suc m) :: u32) = 2 ^ Suc m"
      by (simp only: unsigned_of_nat of_nat_id) (rule take_bit_nat_eq_self, simp)
    then show ?thesis by simp
  qed
  ultimately show ?thesis using m31 m4 m x eq by (intro that [of "Suc m"]) (auto simp: setup_size_def)
qed

lemma hashtable_setup_ok:
  fixes st :: ht_state and load :: u32
  assumes "initial_size \<le> 2147483648" "length bs = unat (setup_size initial_size)" "distinct bs"
  defines "st' \<equiv> snd (hashtable_setup initial_size load (Some bs) st)"
  shows "ht_ok P cb st' (\<lambda>_. [])" "members st' (\<lambda>_. []) = {}" "heads st' = bs"
    "ht_size (tbl st') = setup_size initial_size" "stat st' = stat st" "expanding (tbl st') = expanding (tbl st)"
    "max_load (tbl st') = (if load < 50 \<or> load > 90 then 70 else load)"
proof -
  show hd: "heads st' = bs" by (simp add: st'_def hashtable_setup_def heads_def Let_def)
  show mem: "members st' (\<lambda>_. []) = {}" by (simp add: members_def)
  have "lists_ok (fold INIT_LIST_HEAD bs (store st)) (set bs \<union> {}) (\<lambda>h. if h \<in> set bs then [] else [])"
    using assms(3) by (intro lists_ok_fold_INIT) (simp_all add: lists_ok_def list_nodes_def)
  then have l: "lists_ok (store st') (set bs) (\<lambda>_. [])"
    using assms(2) by (simp add: st'_def hashtable_setup_def Let_def)
  obtain e where "e \<le> 31" "unat (setup_size initial_size) = 2 ^ e" using setup_size_pow [OF assms(1)] by metis
  then show "ht_ok P cb st' (\<lambda>_. [])"
    unfolding ht_ok_def mem hd using l assms(2,3) by (auto simp: st'_def hashtable_setup_def Let_def)
qed (simp_all add: st'_def hashtable_setup_def Let_def)

text \<open>Blocks of addresses, a table whose keys are the nodes themselves, and its states.\<close>

definition addrs :: "nat \<Rightarrow> nat \<Rightarrow> ptr list" where
  "addrs a b = map of_nat [a..<b]"

lemma length_addrs [simp]: "length (addrs a b) = b - a"
  by (simp add: addrs_def)

lemma in_addrs: "b \<le> 2 ^ 64 \<Longrightarrow> p \<in> set (addrs a b) \<longleftrightarrow> a \<le> unat p \<and> unat p < b"
proof
  assume "b \<le> 2 ^ 64" "p \<in> set (addrs a b)"
  then obtain n where "p = of_nat n" "a \<le> n" "n < b" "n < 2 ^ 64" by (auto simp: addrs_def)
  then show "a \<le> unat p \<and> unat p < b" by (simp add: unsigned_of_nat take_bit_nat_eq_self)
next
  assume "a \<le> unat p \<and> unat p < b"
  then have "of_nat (unat p) \<in> set (addrs a b)" unfolding addrs_def set_map by (intro imageI) simp
  then show "p \<in> set (addrs a b)" by simp
qed

lemma distinct_addrs: "b \<le> 2 ^ 64 \<Longrightarrow> distinct (addrs a b)"
  unfolding addrs_def by (auto simp: distinct_map inj_on_def of_nat_eq_64)

definition demo_cb :: "ptr callbacks" where
  "demo_cb = \<lparr>hash_func = ucast, get_key = \<lambda>n. Return (KObject n), key_equals = (=)\<rparr>"

lemma fill_table:
  assumes "ht_ok P demo_cb st f" "distinct xs" "\<forall>x \<in> set xs. x \<noteq> NULL \<and> P x \<and> x \<notin> list_nodes (set (heads st)) f"
    and "card (members st f) + length xs < 2147483647"
  shows "\<exists>st' g. ht_ok P demo_cb st' g \<and> members st' g = members st f \<union> set xs \<and> heads st' = heads st \<and>
    list_nodes (set (heads st)) g = list_nodes (set (heads st)) f \<union> set xs \<and>
    tbl st' = (tbl st)\<lparr>items := items (tbl st')\<rparr> \<and> stat st' = stat st"
  using assms
proof (induction xs arbitrary: st f)
  case Nil
  then show ?case by (intro exI [of _ st] exI [of _ f]) simp
next
  case (Cons x xs)
  have x: "x \<noteq> NULL" "x \<notin> list_nodes (set (heads st)) f" "embeds demo_cb x x" "P x"
    using Cons.prems(3) by (auto simp: embeds_def demo_cb_def)
  have fresh: "x \<notin> members st f" using x(2) by (auto simp: members_def list_nodes_def)
  have ne: "\<forall>m \<in> members st f. \<forall>k'. embeds demo_cb m k' \<longrightarrow> \<not> key_equals demo_cb k' x \<and> \<not> key_equals demo_cb x k'"
    using fresh by (auto simp: embeds_def demo_cb_def)
  let ?h = "heads st ! unat (bucket_index demo_cb (tbl st) x)"
  define st1 where "st1 = st\<lparr>store := list_add x ?h (store st), tbl := (tbl st)\<lparr>items := int32_of (items (tbl st) + 1)\<rparr>\<rparr>"
  define f1 where "f1 = f(?h := x # f ?h)"
  have c: "card (members st f) < 2147483647" using Cons.prems(4) by simp
  have ok1: "ht_ok P demo_cb st1 f1" "members st1 f1 = insert x (members st f)"
    unfolding st1_def f1_def using ht_ok_add [OF Cons.prems(1) x(1,2,3,4) ne c] by blast+
  have hd1: "heads st1 = heads st" by (simp add: st1_def)
  have h: "?h \<in> set (heads st)" using ht_ok_index [OF Cons.prems(1)] by simp
  have ln: "list_nodes (set (heads st)) f1 = insert x (list_nodes (set (heads st)) f)"
    using h by (auto simp: list_nodes_def f1_def split: if_splits)
  have "\<exists>st' g. ht_ok P demo_cb st' g \<and> members st' g = members st1 f1 \<union> set xs \<and> heads st' = heads st1 \<and>
      list_nodes (set (heads st1)) g = list_nodes (set (heads st1)) f1 \<union> set xs \<and>
      tbl st' = (tbl st1)\<lparr>items := items (tbl st')\<rparr> \<and> stat st' = stat st1"
    using ok1 Cons.prems(2-4) fresh by (intro Cons.IH) (auto simp: hd1 ln)
  then obtain st' g where "ht_ok P demo_cb st' g" "members st' g = insert x (members st f) \<union> set xs"
      "heads st' = heads st" "list_nodes (set (heads st)) g = insert x (list_nodes (set (heads st)) f) \<union> set xs"
      "tbl st' = (tbl st1)\<lparr>items := items (tbl st')\<rparr>" "stat st' = stat st1"
    unfolding hd1 ln ok1(2) by (elim exE conjE)
  then show ?case by (intro exI [of _ st'] exI [of _ g]) (simp add: st1_def)
qed

definition demo_zero :: ht_state where
  "demo_zero = \<lparr>tbl = \<lparr>ht_size = 0, items = 0, max_load = 0, expanding = 0, buckets = None\<rparr>,
     stat = \<lparr>new_buckets = None, new_size = 0, transfer_index = 0, expansion_in_progress = False\<rparr>,
     store = \<lparr>next_of = (\<lambda>_. 0), prev_of = (\<lambda>_. 0)\<rparr>\<rparr>"

text \<open>A table of 16 or 32 buckets, filled up to its load limit of 50 percent.\<close>

lemma demo_full:
  assumes "sz = 16 \<or> sz = (32 :: u32)"
  shows "\<exists>st f. ht_ok (\<lambda>_. True) demo_cb st f \<and> heads st = addrs 1000 (1000 + unat sz) \<and>
    members st f = set (addrs 3000 (3000 + unat sz div 2)) \<and> expandable st f (addrs 2000 (2000 + 2 * unat sz)) \<and>
    list_nodes (set (heads st)) f \<subseteq> set (addrs 1000 (1000 + unat sz)) \<union> set (addrs 3000 (3000 + unat sz div 2))"
proof -
  let ?hs = "addrs 1000 (1000 + unat sz)" and ?xs = "addrs 3000 (3000 + unat sz div 2)" and ?ns = "addrs 2000 (2000 + 2 * unat sz)"
  define st0 where "st0 = snd (hashtable_setup sz 50 (Some ?hs) demo_zero)"
  have sz: "setup_size sz = sz" "sz \<le> 2147483648" "unat sz \<le> 32" "sz * 50 div 100 = of_nat (unat sz div 2)"
    using assms by (auto; code_simp)+
  have l: "length ?hs = unat (setup_size sz)" "distinct ?hs" using sz by (simp_all add: distinct_addrs)
  have s: "ht_ok (\<lambda>_. True) demo_cb st0 (\<lambda>_. [])" "members st0 (\<lambda>_. []) = {}" "heads st0 = ?hs"
    unfolding st0_def by (rule hashtable_setup_ok [OF sz(2) l])+
  have t: "tbl st0 = \<lparr>ht_size = sz, items = 0, max_load = 50, expanding = 0, buckets = Some ?hs\<rparr>" "stat st0 = stat demo_zero"
    using sz by (simp_all add: st0_def hashtable_setup_def Let_def demo_zero_def)
  have n0: "list_nodes (set (heads st0)) (\<lambda>_. []) = set ?hs" by (auto simp: list_nodes_def s(3))
  have "\<exists>st f. ht_ok (\<lambda>_. True) demo_cb st f \<and> members st f = members st0 (\<lambda>_. []) \<union> set ?xs \<and> heads st = heads st0 \<and>
      list_nodes (set (heads st0)) f = list_nodes (set (heads st0)) (\<lambda>_. []) \<union> set ?xs \<and>
      tbl st = (tbl st0)\<lparr>items := items (tbl st)\<rparr> \<and> stat st = stat st0"
    using sz(3) s(1,2) by (intro fill_table) (auto simp: in_addrs n0 distinct_addrs)
  then obtain st f where st: "ht_ok (\<lambda>_. True) demo_cb st f" "members st f = set ?xs" "heads st = ?hs"
      "list_nodes (set ?hs) f = set ?hs \<union> set ?xs" "tbl st = (tbl st0)\<lparr>items := items (tbl st)\<rparr>" "stat st = stat demo_zero"
    unfolding s(2,3) t(2) n0 [unfolded s(3)] by (elim exE conjE) simp
  have c: "unat (hashtable_count (tbl st)) = unat sz div 2"
    using count_members [OF st(1)] sz(3) by (simp add: st(2) distinct_card distinct_addrs)
  have "threshold (tbl st) = of_nat (unat sz div 2)"
    by (subst st(5)) (simp add: threshold_def t(1) sz(4))
  then have "threshold (tbl st) \<le> hashtable_count (tbl st)"
    using c sz(3) by (simp add: word_le_nat_alt unsigned_of_nat take_bit_nat_eq_self)
  moreover have "expanding (tbl st) = 0" by (subst st(5)) (simp add: t(1))
  ultimately have "expandable st f ?ns"
    using sz(3) st(3,4,6) by (auto simp: expandable_def demo_zero_def distinct_addrs in_addrs)
  then show ?thesis using st by (intro exI [of _ st] exI [of _ f]) simp
qed

section \<open>Properties\<close>

text \<open>
  C6. Rehashing by one bit of the hash value is rehashing: in a table of at most 16 buckets that
  has reached its load limit, \<^verbatim>\<open>hashtable_try_expand\<close> moves all nodes in one call. Afterwards the
  table is well-formed with twice the number of buckets (every node in the bucket of its full
  hash value), has exactly the nodes it had, and no expansion is left under way.
\<close>

theorem hashtable_try_expand_small:
  assumes "ht_ok P cb st f" "expandable st f ns" "length (heads st) \<le> 16"
  shows "\<exists>st' g. hashtable_try_expand cb (Some ns) st = Some (Return (0, st')) \<and> ht_ok P cb st' g \<and>
    members st' g = members st f \<and> heads st' = ns \<and> ht_size (tbl st') = 2 * ht_size (tbl st) \<and>
    \<not> expansion_in_progress (stat st') \<and> expanding (tbl st') = 0"
proof -
  let ?N = "length (heads st)" and ?f = "\<lambda>h. if h \<in> set ns then [] else f h"
  note ok = ht_okD [OF assms(1)]
  obtain e where e: "e \<le> 31" "ht_size (tbl st) = 2 ^ e" "?N = 2 ^ e"
    "\<And>k. unat (bucket_index cb (tbl st) k) = unat (hash_func cb k) mod 2 ^ e"
    using ht_ok_size [OF assms(1)] by blast
  have ex: "length ns = 2 * ?N" "distinct ns" "length ns < 2 ^ 32" "set ns \<inter> list_nodes (set (heads st)) f = {}"
    using assms(2) by (simp_all add: expandable_def)
  have ff: "\<forall>h \<in> set (heads st). ?f h = f h" using ex(4) by (auto simp: list_nodes_def)
  obtain s g where sg: "hashtable_try_expand cb (Some ns) st = Some (Return (0, finish_expansion (st\<lparr>tbl := (tbl st)\<lparr>expanding := 1\<rparr>,
       stat := \<lparr>new_buckets = Some ns, new_size = ht_size (tbl st) * 2, transfer_index = of_nat (min 16 ?N),
         expansion_in_progress = True\<rparr>, store := s\<rparr>)))"
    "lists_ok s (set (heads st @ ns)) g" "moved cb (ht_size (tbl st)) (heads st) ns {..<min 16 ?N} ?f g"
    using try_expand_moved [OF assms(1,2)] by (elim exE conjE) simp
  have mv: "moved cb (2 ^ e) (heads st) ns {..<?N} ?f g" using sg(3) assms(3) e by simp
  define st' where "st' = \<lparr>tbl = (tbl st)\<lparr>expanding := 0, buckets := Some ns, ht_size := ht_size (tbl st) * 2\<rparr>,
      stat = \<lparr>new_buckets = None, new_size = 0, transfer_index = 0, expansion_in_progress = False\<rparr>, store = s\<rparr>"
  have "ht_size (tbl st) = of_nat ?N" using e by simp
  then have run: "hashtable_try_expand cb (Some ns) st = Some (Return (0, st'))"
    unfolding sg(1) using assms(3) by (simp add: finish_expansion_def st'_def)
  have hd: "heads st' = ns" by (simp add: heads_def st'_def)
  have mem: "members st' g = members st f"
    using moved_members [OF mv ex(1) ff] by (simp add: members_def hd)
  have e': "Suc e \<le> 31"
  proof -
    have "2 ^ e < (2 :: nat) ^ 31" using ex(1,3) e(3) by simp
    then have "e < 31" by (simp only: power_strict_increasing_iff)
    then show ?thesis by simp
  qed
  have size': "ht_size (tbl st') = 2 ^ Suc e" using e(2) by (simp add: st'_def)
  have usize': "unat (ht_size (tbl st')) = length ns"
    using assms(1) ex(1,3) by (simp add: ht_ok_def st'_def unat_word_ariths(2))
  then have pow': "\<exists>e \<le> 31. unat (ht_size (tbl st')) = 2 ^ e"
    using e' e(3) ex(1) by (intro exI [of _ "Suc e"]) simp
  have idx: "\<exists>k. embeds cb n k \<and> P k \<and> unat (bucket_index cb (tbl st') k) = j"
    if j: "j < length ns" "n \<in> set (g (ns ! j))" for j n
  proof -
    have n: "n \<in> set (?f (heads st ! (j mod ?N)))" "upper cb (2 ^ e) n \<longleftrightarrow> ?N \<le> j"
      using mv j by (simp_all add: moved_def)
    have jm: "j mod ?N < ?N" using j(1) ex(1) by (intro mod_less_divisor) linarith
    then have "n \<in> set (f (heads st ! (j mod ?N)))" using n(1) ff by simp
    then obtain k where k: "embeds cb n k" "P k" "unat (bucket_index cb (tbl st) k) = j mod ?N"
      using assms(1) jm unfolding ht_ok_def by blast
    have "unat (hash_func cb k) mod 2 ^ Suc e = j"
      using moved_index [of "hash_func cb k" e j] k n(2) j(1) e(3,4) ex(1) by (auto simp: upper_def embeds_def)
    then have "unat (bucket_index cb (tbl st') k) = j"
      using and_pow_minus_1 [OF e', of "hash_func cb k"] by (simp only: bucket_index_def size')
    with k show ?thesis by blast
  qed
  have "ht_ok P cb st' g"
    unfolding ht_ok_def mem hd
    using assms(1) ex(2) lists_ok_subset [OF sg(2), of "set ns"] idx usize' pow'
    by (simp add: ht_ok_def) (simp add: st'_def)
  then show ?thesis using run mem hd by (intro exI [of _ st'] exI [of _ g]) (simp add: st'_def)
qed

theorem hashtable_try_expand_small_witness:
  "\<exists>st f ns st' g. ht_ok (\<lambda>_. True) demo_cb st f \<and> expandable st f ns \<and> length (heads st) = 16 \<and>
     hashtable_try_expand demo_cb (Some ns) st = Some (Return (0, st')) \<and> ht_ok (\<lambda>_. True) demo_cb st' g \<and>
     members st' g = set (addrs 3000 3008)"
proof -
  obtain st f where st: "ht_ok (\<lambda>_. True) demo_cb st f" "heads st = addrs 1000 1016"
      "members st f = set (addrs 3000 3008)" "expandable st f (addrs 2000 2032)"
    using demo_full [of 16, OF disjI1 [OF refl], simplified] by (elim exE conjE)
  have l: "length (heads st) \<le> 16" by (simp add: st(2))
  obtain st' g where "hashtable_try_expand demo_cb (Some (addrs 2000 2032)) st = Some (Return (0, st'))"
      "ht_ok (\<lambda>_. True) demo_cb st' g" "members st' g = members st f"
    using hashtable_try_expand_small [OF st(1,4) l] by (elim exE conjE)
  then show ?thesis using st
    by (intro exI [of _ st] exI [of _ f] exI [of _ "addrs 2000 2032"] exI [of _ st'] exI [of _ g]) simp
qed

text \<open>
  C7. An expansion of a table of more than 16 buckets (as all tables of the kernel are) loses
  keys while it is under way: the insertion that reaches the load limit moves the first 16
  buckets into the new array, but lookups go on in the old one. After it no key of these
  buckets is found, other than the key just inserted; and a node whose key is already in one of
  them is inserted a second time.
\<close>

theorem hashtable_insert_loses_keys:
  assumes "ht_ok P cb st f" "expandable st f ns" "16 < length (heads st)"
    and "node \<noteq> NULL" "embeds cb node k" "node \<notin> list_nodes (set (heads st)) f \<union> set ns"
  shows "\<exists>r st'. hashtable_insert cb (Some ns) node st = Some (Return (r, st')) \<and> (r = 0 \<or> r = - EEXIST) \<and>
    (unat (bucket_index cb (tbl st) k) < 16 \<longrightarrow> r = 0) \<and>
    (\<forall>k'. unat (bucket_index cb (tbl st) k') < 16 \<longrightarrow> \<not> key_equals cb k k' \<longrightarrow>
       hashtable_lookup cb (Some k') st' = Some (Return NULL))"
proof -
  let ?hs = "heads st" and ?f = "\<lambda>h. if h \<in> set ns then [] else f h" and ?i = "bucket_index cb (tbl st)"
  note ok = ht_okD [OF assms(1)]
  obtain s g where sg: "hashtable_try_expand cb (Some ns) st = Some (Return (0, finish_expansion (st\<lparr>tbl := (tbl st)\<lparr>expanding := 1\<rparr>,
       stat := \<lparr>new_buckets = Some ns, new_size = ht_size (tbl st) * 2, transfer_index = of_nat (min 16 (length ?hs)),
         expansion_in_progress = True\<rparr>, store := s\<rparr>)))"
    "lists_ok s (set (?hs @ ns)) g" "moved cb (ht_size (tbl st)) ?hs ns {..<min 16 (length ?hs)} ?f g"
    using try_expand_moved [OF assms(1,2)] by (elim exE conjE) simp
  define st2 where "st2 = st\<lparr>tbl := (tbl st)\<lparr>expanding := 1\<rparr>,
       stat := \<lparr>new_buckets = Some ns, new_size = ht_size (tbl st) * 2, transfer_index = 16,
         expansion_in_progress = True\<rparr>, store := s\<rparr>"
  have "16 < ht_size (tbl st)" using assms(1,3) by (simp add: ht_ok_def word_less_nat_alt)
  then have ex: "hashtable_try_expand cb (Some ns) st = Some (Return (0, st2))"
    unfolding sg(1) using assms(3) by (simp add: finish_expansion_def st2_def not_le)
  have hd2: "heads st2 = ?hs" "buckets (tbl st2) \<noteq> None" using ok(1) by (simp_all add: heads_def st2_def)
  have i2: "bucket_index cb (tbl st2) = ?i" by (simp add: bucket_index_def st2_def fun_eq_iff)
  have ii: "unat (?i k) < length ?hs" for k by (rule ht_ok_index [OF assms(1)])
  have l2: "lists_ok (store st2) (set ?hs) g" using lists_ok_subset [OF sg(2), of "set ?hs"] by (simp add: st2_def)
  have g: "g (?hs ! i) = (if i < 16 then [] else f (?hs ! i))" if "i < length ?hs" for i
  proof -
    have "?hs ! i \<notin> set ns" using assms(2) nth_mem [OF that] by (auto simp: expandable_def list_nodes_def)
    then show ?thesis using sg(3) that assms(3) by (simp add: moved_def)
  qed
  have gsub: "set (g h) \<subseteq> set (f h)" if "h \<in> set ?hs" for h
    using g that by (auto simp: in_set_conv_nth [of h ?hs] split: if_splits)
  have emb: "\<exists>k. embeds cb n k" if "h \<in> set ?hs" "n \<in> set (g h)" for h n
  proof -
    have "n \<in> members st f" using that gsub by (auto simp: members_def)
    then show ?thesis using ht_ok_node [OF assms(1)] by blast
  qed
  define t where "t n = (\<exists>k'. embeds cb n k' \<and> key_equals cb k' k)" for n
  have sk: "same_key cb (KObject k) n = Return (t n)" if "n \<in> set (g (?hs ! unat (?i k)))" for n
    using emb [OF _ that] ii by (auto simp: same_key_def t_def embeds_def)
  have walk: "in_bucket (same_key cb (KObject k)) st2 (?i k) = Some (Return (List.find t (g (?hs ! unat (?i k)))))"
    using in_bucket_find [of st2 g "?i k" "same_key cb (KObject k)" t] l2 hd2 ii sk by simp
  have full: "threshold (tbl st) \<le> hashtable_count (tbl st)" using assms(2) by (simp add: expandable_def)
  have ins: "hashtable_insert cb (Some ns) node st = insert_node cb (KObject k) (?i k) node st2"
    using full ex assms(4,5) by (simp add: hashtable_insert_def embeds_def i2)
  show ?thesis
  proof (cases "List.find t (g (?hs ! unat (?i k)))")
    case (Some m)
    then have "m \<in> set (g (?hs ! unat (?i k)))" by (auto simp: find_Some_iff)
    then have "\<not> unat (?i k) < 16" using g [OF ii] by auto
    moreover have "hashtable_lookup cb (Some k') st2 = Some (Return NULL)" if "unat (?i k') < 16" for k'
      using in_bucket_find [of st2 g "?i k'" "has_key cb k'" "\<lambda>_. False"] l2 hd2 ii g [OF ii, of k'] that
      by (simp add: hashtable_lookup_def i2)
    ultimately show ?thesis using walk Some by (simp add: ins insert_node_def)
  next
    case None
    let ?h = "?hs ! unat (?i k)"
    define st3 where "st3 = st2\<lparr>store := list_add node ?h (store st2), tbl := (tbl st2)\<lparr>items := int32_of (items (tbl st2) + 1)\<rparr>\<rparr>"
    have run: "hashtable_insert cb (Some ns) node st = Some (Return (0, st3))"
      using walk None ii bucket_heads [OF hd2(2), of "?i k"] hd2(1) by (simp add: ins insert_node_def st3_def)
    have "node \<notin> list_nodes (set ?hs) g" using assms(6) gsub by (auto simp: list_nodes_def)
    then have l3: "lists_ok (store st3) (set ?hs) (g(?h := node # g ?h))"
      using lists_ok_add [OF l2, of ?h node] ii by (simp add: st3_def)
    have hd3: "heads st3 = ?hs" "buckets (tbl st3) \<noteq> None" "bucket_index cb (tbl st3) = ?i"
      using hd2 i2 by (simp_all add: st3_def fun_eq_iff)
    have "hashtable_lookup cb (Some k') st3 = Some (Return NULL)"
      if k': "unat (?i k') < 16" "\<not> key_equals cb k k'" for k'
    proof -
      have only: "(g(?h := node # g ?h)) (?hs ! unat (?i k')) = [] \<or> (g(?h := node # g ?h)) (?hs ! unat (?i k')) = [node]"
        using g [OF ii, of k'] k'(1) by (cases "?hs ! unat (?i k') = ?h") auto
      have "has_key cb k' n = Return False" if "n \<in> set ((g(?h := node # g ?h)) (?hs ! unat (?i k')))" for n
        using that only assms(5) k'(2) by (auto simp: has_key_def embeds_def)
      then have "in_bucket (has_key cb k') st3 (?i k') =
          Some (Return (List.find (\<lambda>_. False) ((g(?h := node # g ?h)) (?hs ! unat (?i k')))))"
        using in_bucket_find [of st3 "g(?h := node # g ?h)" "?i k'" "has_key cb k'" "\<lambda>_. False"] l3 hd3 ii by simp
      moreover have "List.find (\<lambda>_. False) xs = None" for xs :: "ptr list" by (simp add: find_None_iff)
      ultimately show ?thesis by (simp add: hashtable_lookup_def hd3(3))
    qed
    then show ?thesis using run by (intro exI [of _ 0] exI [of _ st3]) simp
  qed
qed

text \<open>The key \<open>3008\<close> is in the table before the insertion of \<open>5000\<close>, and is not found after it.\<close>

theorem hashtable_insert_loses_keys_witness:
  "\<exists>st f ns r st'. ht_ok (\<lambda>_. True) demo_cb st f \<and> expandable st f ns \<and> holds demo_cb st f 3008 3008 \<and>
     hashtable_insert demo_cb (Some ns) 5000 st = Some (Return (r, st')) \<and>
     hashtable_lookup demo_cb (Some 3008) st' = Some (Return NULL)"
proof -
  obtain st f where st: "ht_ok (\<lambda>_. True) demo_cb st f" "heads st = addrs 1000 1032"
      "members st f = set (addrs 3000 3016)" "expandable st f (addrs 2000 2064)"
      "list_nodes (set (heads st)) f \<subseteq> set (addrs 1000 1032) \<union> set (addrs 3000 3016)"
    using demo_full [of 32, OF disjI2 [OF refl], simplified] by (elim exE conjE)
  have len: "16 < length (heads st)" by (simp add: st(2))
  have fresh: "5000 \<notin> list_nodes (set (heads st)) f \<union> set (addrs 2000 2064)"
    using st(5) by (auto simp: in_addrs)
  have e: "embeds demo_cb 5000 5000" by (simp add: embeds_def demo_cb_def)
  have i: "unat (bucket_index demo_cb (tbl st) 3008) < 16"
  proof -
    have "unat (ht_size (tbl st)) = 32" using st(1,2) by (simp add: ht_ok_def)
    then have "ht_size (tbl st) = 2 ^ 5" by (intro size_eq_pow) simp
    then show ?thesis using and_pow_minus_1 [of 5 "hash_func demo_cb 3008"]
      by (simp add: bucket_index_def demo_cb_def)
  qed
  have h: "holds demo_cb st f 3008 3008"
    by (simp add: holds_def st(3) in_addrs) (simp add: embeds_def demo_cb_def)
  from hashtable_insert_loses_keys [OF st(1,4) len _ e fresh] obtain r st'
    where r: "hashtable_insert demo_cb (Some (addrs 2000 2064)) 5000 st = Some (Return (r, st'))"
      "\<forall>k'. unat (bucket_index demo_cb (tbl st) k') < 16 \<longrightarrow> \<not> key_equals demo_cb 5000 k' \<longrightarrow>
         hashtable_lookup demo_cb (Some k') st' = Some (Return NULL)" by auto
  have "hashtable_lookup demo_cb (Some 3008) st' = Some (Return NULL)"
    using r(2) i by (simp add: demo_cb_def)
  with st(1,4) h r(1) show ?thesis by (intro exI conjI)
qed

text \<open>
  \<^verbatim>\<open>hashtable_setup\<close> gives an empty, well-formed table for any set of keys: the number of
  buckets is the least power of two that is at least 16 and at least the size asked for, and
  the load limit is between 50 and 90 percent, for any size up to 2^31 when \<^verbatim>\<open>kmalloc\<close>
  gives an array of that many buckets.
\<close>

theorem hashtable_setup_spec:
  assumes "initial_size \<le> 2147483648" "length bs = unat (setup_size initial_size)" "distinct bs"
  shows "\<exists>e st'. hashtable_setup initial_size load (Some bs) st = (0, st') \<and> ht_ok P cb st' (\<lambda>_. []) \<and>
    members st' (\<lambda>_. []) = {} \<and> unat (ht_size (tbl st')) = 2 ^ e \<and> 4 \<le> e \<and> unat initial_size \<le> 2 ^ e \<and>
    (e = 4 \<or> 2 ^ (e - 1) < unat initial_size) \<and> 50 \<le> max_load (tbl st') \<and> max_load (tbl st') \<le> 90"
proof -
  let ?st = "snd (hashtable_setup initial_size load (Some bs) st)"
  note s = hashtable_setup_ok [OF assms]
  obtain e where e: "4 \<le> e" "unat (setup_size initial_size) = 2 ^ e" "unat initial_size \<le> 2 ^ e"
    "16 < initial_size \<Longrightarrow> 2 ^ (e - 1) < unat initial_size" using setup_size_pow [OF assms(1)] by metis
  have "e = 4 \<or> 2 ^ (e - 1) < unat initial_size"
  proof (cases "16 < initial_size")
    case False
    then have "initial_size < 16 \<or> initial_size = 16" by auto
    moreover have "next_power_of_2 16 = 16" by code_simp
    ultimately have "(2 :: nat) ^ e = 2 ^ 4" using e(2) by (auto simp: setup_size_def)
    then have "e = 4" by (simp only: power_inject_exp)
    then show ?thesis ..
  qed (use e(4) in simp)
  moreover have "fst (hashtable_setup initial_size load (Some bs) st) = 0" by (simp add: hashtable_setup_def Let_def)
  moreover have "50 \<le> max_load (tbl ?st) \<and> max_load (tbl ?st) \<le> 90" unfolding s(7) by (auto simp: not_less)
  ultimately show ?thesis
    using s(1,2,4) e by (intro exI [of _ e] exI [of _ ?st]) (auto simp: prod_eq_iff)
qed

theorem hashtable_setup_spec_witness:
  "\<exists>st'. hashtable_setup 20 95 (Some (addrs 1000 1032)) demo_zero = (0, st') \<and> unat (ht_size (tbl st')) = 32"
proof -
  have sz: "setup_size 20 = 32" by code_simp
  then have "length (addrs 1000 1032) = unat (setup_size 20)" by simp
  from hashtable_setup_spec [OF _ this distinct_addrs, of 95 demo_zero "\<lambda>_. True" demo_cb] sz show ?thesis
    by (auto simp: hashtable_setup_def Let_def)
qed

end
