(* ===== verification/Inode.thy ===== *)
theory Inode
  imports Hashtable
begin

text \<open>
  Inodes: \<^verbatim>\<open>kernel/fs/vfs/inode.c\<close>, the inode cache of \<^verbatim>\<open>kernel/fs/vfs/icache.c\<close> and the inode
  functions of \<^verbatim>\<open>kernel/fs/vfs/superblock.c\<close>. Inodes and superblocks are objects in a store; the
  inode lists of a superblock are sequences (theory \<open>Klist\<close> shows that the kernel lists are), the
  cache is a hash table of theory \<open>Hashtable\<close>. The methods of the file systems are parameters.
  The lemmas show the state lists of the inodes, the cache as a map, and the permission check.
\<close>

section \<open>Data\<close>

abbreviation (input) I_DIRTY :: u64 where "I_DIRTY \<equiv> 0x1"
abbreviation (input) I_NEW :: u64 where "I_NEW \<equiv> 0x2"
abbreviation (input) I_FREEING :: u64 where "I_FREEING \<equiv> 0x40"
abbreviation (input) MAY_EXEC :: u32 where "MAY_EXEC \<equiv> 0x1"
abbreviation (input) MAY_WRITE :: u32 where "MAY_WRITE \<equiv> 0x2"
abbreviation (input) MAY_READ :: u32 where "MAY_READ \<equiv> 0x4"
abbreviation (input) MS_RDONLY :: u64 where "MS_RDONLY \<equiv> 0x1"
abbreviation (input) S_IFMT :: u32 where "S_IFMT \<equiv> 0xF000"
abbreviation (input) S_IFCHR :: u32 where "S_IFCHR \<equiv> 0x2000"
abbreviation (input) S_IFDIR :: u32 where "S_IFDIR \<equiv> 0x4000"
abbreviation (input) S_IFBLK :: u32 where "S_IFBLK \<equiv> 0x6000"

record inode =
  i_mode :: u32
  i_uid :: u32
  i_gid :: u32
  i_nlink :: u32
  i_superblock :: ptr
  i_ino :: u64
  i_op :: ptr
  i_refcount :: int
  i_state :: u64

record superblock =
  s_flags :: u64
  s_next_ino :: int
  s_list_all_inodes :: "ptr list"
  s_list_clean_inodes :: "ptr list"
  s_list_dirty_inodes :: "ptr list"

record inode_key =
  key_sb :: ptr
  key_ino :: u64

text \<open>The inodes, the superblocks and the hash table of the cache.\<close>

record vfs =
  inodes :: "ptr \<Rightarrow> inode option"
  supers :: "ptr \<Rightarrow> superblock option"
  inode_hashtable :: ht_state

text \<open>
  The methods of a file system as far as the code looks at what they do: the next inode number,
  reading, writing and evicting an inode. A missing method is \<open>None\<close>.
\<close>

record superblock_operations =
  get_next_ino :: "(ptr \<Rightarrow> int) option"
  read_inode :: "(inode \<Rightarrow> inode) option"
  write_inode :: "(ptr \<Rightarrow> int \<Rightarrow> int) option"
  evict_method :: "(inode \<Rightarrow> inode) option"

definition upd_inode :: "ptr \<Rightarrow> inode \<Rightarrow> vfs \<Rightarrow> vfs" where
  "upd_inode p i v = v\<lparr>inodes := (inodes v)(p := Some i)\<rparr>"

definition upd_super :: "ptr \<Rightarrow> superblock \<Rightarrow> vfs \<Rightarrow> vfs" where
  "upd_super p sb v = v\<lparr>supers := (supers v)(p := Some sb)\<rparr>"

text \<open>The objects behind a pointer.\<close>

definition inode_at :: "vfs \<Rightarrow> ptr \<Rightarrow> inode outcome" where
  "inode_at v p = (case inodes v p of None \<Rightarrow> Fault | Some i \<Rightarrow> Return i)"

definition super_at :: "vfs \<Rightarrow> ptr \<Rightarrow> superblock outcome" where
  "super_at v p = (case supers v p of None \<Rightarrow> Fault | Some s \<Rightarrow> Return s)"

section \<open>References and the inode cache\<close>

definition inode_isBad :: "inode \<Rightarrow> bool" where
  "inode_isBad i \<longleftrightarrow> i_op i = NULL"

definition inode_ref :: "ptr \<Rightarrow> vfs \<Rightarrow> (ptr \<times> vfs) outcome" where
  "inode_ref p v =
     (if p = NULL then Return (NULL, v)
      else bind_outcome (inode_at v p) (\<lambda>i.
        if inode_isBad i then Return (NULL, v)
        else Return (p, upd_inode p (i\<lparr>i_refcount := int32_of (i_refcount i + 1)\<rparr>) v)))"

definition icache_hash :: "inode_key \<Rightarrow> u32" where
  "icache_hash ikey =
     (let val = key_sb ikey XOR key_ino ikey; val = drop_bit 32 (val * 11400714819323198485)
      in ucast val)"

definition icache_equal :: "inode_key \<Rightarrow> inode_key \<Rightarrow> bool" where
  "icache_equal key1 key2 \<longleftrightarrow> key_sb key1 = key_sb key2 \<and> key_ino key1 = key_ino key2"

text \<open>The key of an inode lies in the inode; the address of its \<^verbatim>\<open>i_hash_node\<close> stands for its own.\<close>

definition icache_getkey :: "vfs \<Rightarrow> ptr \<Rightarrow> inode_key key_ptr outcome" where
  "icache_getkey v node =
     bind_outcome (inode_at v node) (\<lambda>i. Return (KObject \<lparr>key_sb = i_superblock i, key_ino = i_ino i\<rparr>))"

definition icache_callbacks :: "vfs \<Rightarrow> inode_key callbacks" where
  "icache_callbacks v = \<lparr>hash_func = icache_hash, get_key = icache_getkey v, key_equals = icache_equal\<rparr>"

definition icache_init :: "ptr list option \<Rightarrow> vfs \<Rightarrow> int \<times> vfs" where
  "icache_init mem v =
     (let (err, ht) = hashtable_setup 1024 75 mem (inode_hashtable v) in (err, v\<lparr>inode_hashtable := ht\<rparr>))"

definition icache_lookup :: "ptr \<Rightarrow> u64 \<Rightarrow> vfs \<Rightarrow> (ptr \<times> vfs) outcome option" where
  "icache_lookup sb ino v =
     bind_run (hashtable_lookup (icache_callbacks v) (Some \<lparr>key_sb = sb, key_ino = ino\<rparr>) (inode_hashtable v)) (\<lambda>node.
       if PTR_IS_INVALID node then Some (Return (NULL, v))
       else bind_run (Some (inode_ref node v)) (\<lambda>(_, v). Some (Return (node, v))))"

text \<open>\<open>mem\<close> is the memory for the buckets of an expansion of the table.\<close>

definition icache_insert :: "ptr list option \<Rightarrow> ptr \<Rightarrow> vfs \<Rightarrow> vfs outcome option" where
  "icache_insert mem p v =
     (if p = NULL then Some (Return v)
      else bind_run (Some (inode_at v p)) (\<lambda>i.
        if i_superblock i = NULL then Some (Return v)
        else bind_run (hashtable_insert (icache_callbacks v) mem p (inode_hashtable v)) (\<lambda>(_, ht).
          Some (Return (v\<lparr>inode_hashtable := ht\<rparr>)))))"

definition icache_delete :: "ptr \<Rightarrow> vfs \<Rightarrow> vfs outcome" where
  "icache_delete p v =
     (if p = NULL then Return v
      else bind_outcome (inode_at v p) (\<lambda>i.
        if i_superblock i = NULL then Return v
        else bind_outcome (hashtable_remove (icache_callbacks v) p (inode_hashtable v)) (\<lambda>(_, ht).
          Return (v\<lparr>inode_hashtable := ht\<rparr>))))"

section \<open>New inodes\<close>

text \<open>
  \<open>mem\<close> is the memory \<^verbatim>\<open>alloc_inode\<close> of the file system, or \<^verbatim>\<open>kmalloc\<close>, gives. The number is the file
  system's, or the next one of the superblock.
\<close>

definition zero_inode :: inode where
  "zero_inode = \<lparr>i_mode = 0, i_uid = 0, i_gid = 0, i_nlink = 0, i_superblock = NULL, i_ino = 0,
     i_op = NULL, i_refcount = 0, i_state = 0\<rparr>"

definition next_ino :: "superblock_operations option \<Rightarrow> ptr \<Rightarrow> superblock \<Rightarrow> int \<times> superblock" where
  "next_ino ops p sb =
     (case Option.bind ops get_next_ino of
        Some f \<Rightarrow> (f p, sb)
      | None \<Rightarrow> let n = int64_of (s_next_ino sb + 1) in (n, sb\<lparr>s_next_ino := n\<rparr>))"

definition superblock_createInode :: "superblock_operations option \<Rightarrow> ptr \<Rightarrow> ptr \<Rightarrow> vfs \<Rightarrow> (ptr \<times> vfs) outcome" where
  "superblock_createInode ops mem p v =
     (if PTR_IS_INVALID p then Return (ERR_PTR (- EINVAL), v)
      else bind_outcome (super_at v p) (\<lambda>sb.
        let (ino, sb) = next_ino ops p sb
        in if PTR_IS_INVALID mem then Return (ERR_PTR (- ENOMEM), upd_super p sb v)
           else
             let inode = zero_inode\<lparr>i_superblock := p, i_ino := word_of_int ino\<rparr>;
                 sb = sb\<lparr>s_list_all_inodes := mem # s_list_all_inodes sb,
                         s_list_clean_inodes := mem # s_list_clean_inodes sb\<rparr>
             in bind_outcome (inode_ref mem (upd_inode mem inode (upd_super p sb v))) (\<lambda>(_, v).
                  Return (mem, v))))"

definition inode_acquire ::
    "superblock_operations option \<Rightarrow> ptr list option \<Rightarrow> ptr \<Rightarrow> ptr \<Rightarrow> u64 \<Rightarrow> vfs \<Rightarrow> (ptr \<times> vfs) outcome option" where
  "inode_acquire ops bs mem p ino v =
     (if PTR_IS_INVALID p then Some (Return (ERR_PTR (- EINVAL), v))
      else bind_run (icache_lookup p ino v) (\<lambda>(inode, v).
        if PTR_IS_ERROR inode then Some (Return (ERR_PTR (- ENOMEM), v))
        else bind_run (if inode = NULL then Some (superblock_createInode ops mem p v) else Some (Return (inode, v))) (\<lambda>(inode, v).
          if PTR_IS_INVALID inode then Some (Return (ERR_PTR (- ENOMEM), v))
          else bind_run (Some (inode_at v inode)) (\<lambda>i.
            if i_state i AND I_NEW \<noteq> 0
            then (case Option.bind ops read_inode of
                    None \<Rightarrow> Some (Return (ERR_PTR (- EINVAL), v))
                  | Some f \<Rightarrow>
                      bind_run (icache_insert bs inode (upd_inode inode (f i) v)) (\<lambda>v. Some (Return (inode, v))))
            else bind_run (icache_insert bs inode v) (\<lambda>v. Some (Return (inode, v)))))))"

section \<open>The state lists\<close>

text \<open>\<^verbatim>\<open>list_del_init\<close> of the state list node of an inode: it leaves the list it is on.\<close>

definition unlink_state :: "ptr \<Rightarrow> superblock \<Rightarrow> superblock" where
  "unlink_state p sb = sb\<lparr>s_list_clean_inodes := remove1 p (s_list_clean_inodes sb),
     s_list_dirty_inodes := remove1 p (s_list_dirty_inodes sb)\<rparr>"

definition inode_unref :: "ptr \<Rightarrow> vfs \<Rightarrow> vfs outcome" where
  "inode_unref p v =
     (if p = NULL then Return v
      else bind_outcome (inode_at v p) (\<lambda>i.
        let i = i\<lparr>i_refcount := int32_of (i_refcount i - 1)\<rparr>; v = upd_inode p i v
        in if i_refcount i = 0 \<and> i_state i AND I_DIRTY = 0
           then bind_outcome (super_at v (i_superblock i)) (\<lambda>sb.
                  let sb = unlink_state p sb
                  in Return (upd_super (i_superblock i)
                       (sb\<lparr>s_list_clean_inodes := s_list_clean_inodes sb @ [p]\<rparr>) v))
           else Return v))"

definition inode_setDirty :: "ptr \<Rightarrow> vfs \<Rightarrow> vfs outcome" where
  "inode_setDirty p v =
     (if p = NULL then Return v
      else bind_outcome (inode_at v p) (\<lambda>i.
        if i_state i AND I_DIRTY = 0 \<and> i_superblock i \<noteq> NULL
        then bind_outcome (super_at v (i_superblock i)) (\<lambda>sb.
               let sb = unlink_state p sb
               in Return (upd_super (i_superblock i) (sb\<lparr>s_list_dirty_inodes := p # s_list_dirty_inodes sb\<rparr>)
                    (upd_inode p (i\<lparr>i_state := i_state i OR I_DIRTY\<rparr>) v)))
        else Return v))"

text \<open>A clean inode, at the head of the list of the superblock \<open>q\<close>.\<close>

definition mark_clean :: "ptr \<Rightarrow> ptr \<Rightarrow> inode \<Rightarrow> vfs \<Rightarrow> vfs outcome" where
  "mark_clean q p i v =
     bind_outcome (super_at v q) (\<lambda>sb.
       let sb = unlink_state p sb
       in Return (upd_super q (sb\<lparr>s_list_clean_inodes := p # s_list_clean_inodes sb\<rparr>)
            (upd_inode p (i\<lparr>i_state := i_state i AND NOT I_DIRTY\<rparr>) v)))"

text \<open>Writing back one inode; \<open>ops\<close> is \<open>None\<close> where the inode has no superblock or that no methods.\<close>

definition inode_sync :: "superblock_operations option \<Rightarrow> ptr \<Rightarrow> int \<Rightarrow> vfs \<Rightarrow> (int \<times> vfs) outcome" where
  "inode_sync ops p wait v =
     (if p = NULL then Return (- EINVAL, v)
      else bind_outcome (inode_at v p) (\<lambda>i.
        if i_state i AND I_DIRTY = 0 then Return (0, v)
        else
          let ret = (case Option.bind ops write_inode of None \<Rightarrow> 0 | Some w \<Rightarrow> w p wait)
          in if ret = 0 \<and> wait \<noteq> 0
             then bind_outcome (mark_clean (i_superblock i) p i v) (\<lambda>v. Return (ret, v))
             else Return (ret, v)))"

definition inode_sync_metadata :: "superblock_operations option \<Rightarrow> ptr \<Rightarrow> int \<Rightarrow> vfs \<Rightarrow> (int \<times> vfs) outcome" where
  "inode_sync_metadata ops p wait v = inode_sync ops p wait v"

text \<open>
  \<^verbatim>\<open>sync_filesystem\<close> over the dirty inodes, from the first; \<open>sync_fs\<close> is the answer of that
  method, 0 where there is none.
\<close>

fun sync_inodes :: "superblock_operations option \<Rightarrow> ptr \<Rightarrow> int \<Rightarrow> ptr list \<Rightarrow> vfs \<Rightarrow> (int \<times> vfs) outcome" where
  "sync_inodes ops q wait [] v = Return (0, v)"
| "sync_inodes ops q wait (p # ps) v =
     (case Option.bind ops write_inode of
        None \<Rightarrow> sync_inodes ops q wait ps v
      | Some w \<Rightarrow>
          if w p wait = 0 \<and> wait \<noteq> 0
          then bind_outcome (inode_at v p) (\<lambda>i. bind_outcome (mark_clean q p i v) (sync_inodes ops q wait ps))
          else if w p wait \<noteq> 0 then Return (w p wait, v)
          else sync_inodes ops q wait ps v)"

definition sync_filesystem :: "superblock_operations option \<Rightarrow> int \<Rightarrow> ptr \<Rightarrow> int \<Rightarrow> vfs \<Rightarrow> (int \<times> vfs) outcome" where
  "sync_filesystem ops sync_fs p wait v =
     (if p = NULL then Return (- EINVAL, v)
      else if sync_fs \<noteq> 0 then Return (sync_fs, v)
      else bind_outcome (super_at v p) (\<lambda>sb. sync_inodes ops p wait (s_list_dirty_inodes sb) v))"

text \<open>Freeing an inode takes it out of the store; the hash table is not told.\<close>

definition inode_free :: "ptr \<Rightarrow> vfs \<Rightarrow> vfs outcome" where
  "inode_free p v =
     (if p = NULL then Return v
      else bind_outcome (inode_at v p) (\<lambda>i.
        bind_outcome
          (if i_superblock i \<noteq> NULL
           then bind_outcome (super_at v (i_superblock i)) (\<lambda>sb.
                  Return (upd_super (i_superblock i)
                    ((unlink_state p sb)\<lparr>s_list_all_inodes := remove1 p (s_list_all_inodes sb)\<rparr>) v))
           else Return v) (\<lambda>v.
        Return (v\<lparr>inodes := (inodes v)(p := None)\<rparr>))))"

definition evict_inode :: "superblock_operations option \<Rightarrow> ptr \<Rightarrow> vfs \<Rightarrow> vfs outcome" where
  "evict_inode ops p v =
     (if p = NULL then Return v
      else bind_outcome (inode_at v p) (\<lambda>i.
        let i = i\<lparr>i_state := i_state i OR I_FREEING\<rparr>;
            i = (case Option.bind (if i_superblock i = NULL then None else ops) evict_method of
                   None \<Rightarrow> i | Some f \<Rightarrow> f i)
        in inode_free p (upd_inode p i v)))"

definition unlock_new_inode :: "ptr \<Rightarrow> vfs \<Rightarrow> (int \<times> vfs) outcome" where
  "unlock_new_inode p v =
     (if p = NULL then Return (- EINVAL, v)
      else bind_outcome (inode_at v p) (\<lambda>i.
        if i_state i AND I_NEW = 0 then Return (- EINVAL, v)
        else Return (0, upd_inode p (i\<lparr>i_state := i_state i AND NOT I_NEW\<rparr>) v)))"

section \<open>Permissions\<close>

definition inode_isReadonly :: "vfs \<Rightarrow> inode \<Rightarrow> bool outcome" where
  "inode_isReadonly v i =
     (if i_superblock i = NULL then Return False
      else bind_outcome (super_at v (i_superblock i)) (\<lambda>sb. Return (s_flags sb AND MS_RDONLY \<noteq> 0)))"

definition inode_isImmutable :: "inode \<Rightarrow> bool" where
  "inode_isImmutable i = False"

definition inode_isDir :: "vfs \<Rightarrow> ptr \<Rightarrow> bool outcome" where
  "inode_isDir v p =
     (if p = NULL then Return False else bind_outcome (inode_at v p) (\<lambda>i. Return (i_mode i AND S_IFMT = S_IFDIR)))"

text \<open>\<^verbatim>\<open>current_group_matches\<close> of \<^verbatim>\<open>process.h\<close>, whose body is commented out but for the last line.\<close>

definition current_group_matches :: "u32 \<Rightarrow> bool" where
  "current_group_matches gid = True"

text \<open>The last part of both checks: the bits of the class of the caller; \<open>euid\<close> is the current task's.\<close>

definition mode_check :: "u32 \<Rightarrow> inode \<Rightarrow> u32 \<Rightarrow> int" where
  "mode_check euid i msk =
     (let mode = i_mode i;
          mode = (if euid = i_uid i then drop_bit 6 mode
                  else if current_group_matches (i_gid i) then drop_bit 3 mode else mode)
      in if msk AND MAY_READ \<noteq> 0 \<and> mode AND 4 = 0 then - EACCES
         else if msk AND MAY_WRITE \<noteq> 0 \<and> mode AND 2 = 0 then - EACCES
         else if msk AND MAY_EXEC \<noteq> 0 \<and> mode AND 1 = 0 then - EACCES
         else 0)"

definition generic_permission :: "u32 \<Rightarrow> vfs \<Rightarrow> ptr \<Rightarrow> u32 \<Rightarrow> int outcome" where
  "generic_permission euid v p msk =
     bind_outcome (inode_at v p) (\<lambda>i.
       if euid = 0 then Return 0
       else bind_outcome (if msk AND MAY_WRITE \<noteq> 0 then inode_isReadonly v i else Return False) (\<lambda>ro.
         if ro then Return (- EROFS) else Return (mode_check euid i msk)))"

text \<open>\<open>perm\<close> gives the \<^verbatim>\<open>permission\<close> method of the table \<^verbatim>\<open>i_op\<close>, if it has one.\<close>

definition inode_permission ::
    "(ptr \<Rightarrow> (ptr \<Rightarrow> u32 \<Rightarrow> int) option) \<Rightarrow> u32 \<Rightarrow> vfs \<Rightarrow> ptr \<Rightarrow> u32 \<Rightarrow> int outcome" where
  "inode_permission perm euid v p msk =
     (if p = NULL then Return (- EINVAL)
      else bind_outcome (inode_at v p) (\<lambda>i.
        if euid = 0 then (if msk AND MAY_WRITE \<noteq> 0 \<and> inode_isImmutable i then Return (- EPERM) else Return 0)
        else
          let default = bind_outcome (if msk AND MAY_WRITE \<noteq> 0 then inode_isReadonly v i else Return False) (\<lambda>ro.
                if ro then Return (- EROFS) else Return (mode_check euid i msk))
          in case (if i_op i = NULL then None else perm (i_op i)) of
               None \<Rightarrow> default
             | Some f \<Rightarrow> if f p msk \<noteq> - EAGAIN then Return (f p msk) else default))"

definition inode_checkPermission ::
    "(ptr \<Rightarrow> (ptr \<Rightarrow> u32 \<Rightarrow> int) option) \<Rightarrow> u32 \<Rightarrow> vfs \<Rightarrow> ptr \<Rightarrow> u32 \<Rightarrow> int outcome" where
  "inode_checkPermission perm euid v p msk =
     (if p = NULL then Return (- EINVAL)
      else bind_outcome (inode_at v p) (\<lambda>i.
        if i_mode i AND S_IFMT = S_IFCHR \<or> i_mode i AND S_IFMT = S_IFBLK then Return 0
        else case (if i_op i = NULL then None else perm (i_op i)) of
               None \<Rightarrow> generic_permission euid v p msk
             | Some f \<Rightarrow> if f p msk \<noteq> - EAGAIN then Return (f p msk) else generic_permission euid v p msk))"

section \<open>Specification\<close>

definition dirty :: "inode \<Rightarrow> bool" where
  "dirty i \<longleftrightarrow> i_state i AND I_DIRTY \<noteq> 0"

text \<open>The inodes of a superblock.\<close>

definition inodes_of :: "vfs \<Rightarrow> ptr \<Rightarrow> ptr set" where
  "inodes_of v q = {p. \<exists>i. inodes v p = Some i \<and> i_superblock i = q}"

definition dirty_inodes :: "vfs \<Rightarrow> ptr set" where
  "dirty_inodes v = {p. \<exists>i. inodes v p = Some i \<and> dirty i}"

text \<open>
  The comment in \<^verbatim>\<open>superblock.h\<close>: an inode is on exactly one state list at any time. It is the
  list of the dirty inodes when its flag is set, otherwise the list of the clean ones.
\<close>

definition super_ok :: "vfs \<Rightarrow> ptr \<Rightarrow> superblock \<Rightarrow> bool" where
  "super_ok v q sb \<longleftrightarrow>
     distinct (s_list_all_inodes sb) \<and> set (s_list_all_inodes sb) = inodes_of v q \<and>
     distinct (s_list_clean_inodes sb) \<and> set (s_list_clean_inodes sb) = inodes_of v q - dirty_inodes v \<and>
     distinct (s_list_dirty_inodes sb) \<and> set (s_list_dirty_inodes sb) = inodes_of v q \<inter> dirty_inodes v"

definition inode_lists_ok :: "vfs \<Rightarrow> bool" where
  "inode_lists_ok v \<longleftrightarrow>
     (\<forall>q sb. supers v q = Some sb \<longrightarrow> super_ok v q sb) \<and>
     (\<forall>p i. inodes v p = Some i \<longrightarrow> p \<noteq> NULL \<and> i_superblock i \<noteq> NULL \<and> supers v (i_superblock i) \<noteq> None)"

text \<open>The methods of a file system leave the superblock and the dirty flag of an inode alone.\<close>

definition methods_ok :: "superblock_operations option \<Rightarrow> bool" where
  "methods_ok ops \<longleftrightarrow>
     (\<forall>f i. Option.bind ops read_inode = Some f \<or> Option.bind ops evict_method = Some f \<longrightarrow>
        i_superblock (f i) = i_superblock i \<and> dirty (f i) = dirty i)"

text \<open>
  The states of the inodes and superblocks that the operations reach. A new inode gets memory
  that is not in use.
\<close>

inductive inode_reach :: "vfs \<Rightarrow> vfs \<Rightarrow> bool" for v0 where
  start: "inode_reach v0 v0"
| create: "inode_reach v0 v \<Longrightarrow> inodes v mem = None \<Longrightarrow> superblock_createInode ops mem q v = Return (p, v') \<Longrightarrow> inode_reach v0 v'"
| acquire: "inode_reach v0 v \<Longrightarrow> inodes v mem = None \<Longrightarrow> methods_ok ops \<Longrightarrow>
    inode_acquire ops bs mem q ino v = Some (Return (p, v')) \<Longrightarrow> inode_reach v0 v'"
| lookup: "inode_reach v0 v \<Longrightarrow> icache_lookup q ino v = Some (Return (p, v')) \<Longrightarrow> inode_reach v0 v'"
| ref: "inode_reach v0 v \<Longrightarrow> inode_ref p v = Return (p', v') \<Longrightarrow> inode_reach v0 v'"
| unref: "inode_reach v0 v \<Longrightarrow> inode_unref p v = Return v' \<Longrightarrow> inode_reach v0 v'"
| set_dirty: "inode_reach v0 v \<Longrightarrow> inode_setDirty p v = Return v' \<Longrightarrow> inode_reach v0 v'"
| sync: "inode_reach v0 v \<Longrightarrow> inode_sync ops p wait v = Return (r, v') \<Longrightarrow> inode_reach v0 v'"
| sync_fs: "inode_reach v0 v \<Longrightarrow> sync_filesystem ops sfs q wait v = Return (r, v') \<Longrightarrow> inode_reach v0 v'"
| evict: "inode_reach v0 v \<Longrightarrow> methods_ok ops \<Longrightarrow> evict_inode ops p v = Return v' \<Longrightarrow> inode_reach v0 v'"
| unlock: "inode_reach v0 v \<Longrightarrow> unlock_new_inode p v = Return (r, v') \<Longrightarrow> inode_reach v0 v'"
| insert: "inode_reach v0 v \<Longrightarrow> icache_insert bs p v = Some (Return v') \<Longrightarrow> inode_reach v0 v'"
| delete: "inode_reach v0 v \<Longrightarrow> icache_delete p v = Return v' \<Longrightarrow> inode_reach v0 v'"

section \<open>Lemmas\<close>

lemma inode_at_Return [simp]: "inode_at v p = Return i \<longleftrightarrow> inodes v p = Some i"
  by (simp add: inode_at_def split: option.splits)

lemma super_at_Return [simp]: "super_at v p = Return sb \<longleftrightarrow> supers v p = Some sb"
  by (simp add: super_at_def split: option.splits)

lemma upd_simps [simp]:
  "inodes (upd_inode p i v) = (inodes v)(p := Some i)" "supers (upd_inode p i v) = supers v"
  "inodes (upd_super q sb v) = inodes v" "supers (upd_super q sb v) = (supers v)(q := Some sb)"
  "inode_hashtable (upd_inode p i v) = inode_hashtable v" "inode_hashtable (upd_super q sb v) = inode_hashtable v"
  by (simp_all add: upd_inode_def upd_super_def)

subsection \<open>The state lists\<close>

lemma dirty_odd: "dirty i \<longleftrightarrow> odd (i_state i)"
proof -
  have "i_state i AND 1 = of_bool (odd (i_state i))" by (simp add: and_one_eq mod_2_eq_odd)
  then show ?thesis by (simp add: dirty_def)
qed

lemma dirty_simps [simp]:
  "dirty (i\<lparr>i_state := i_state i OR I_DIRTY\<rparr>)" "\<not> dirty (i\<lparr>i_state := i_state i AND NOT I_DIRTY\<rparr>)"
  "dirty (i\<lparr>i_state := i_state i OR I_FREEING\<rparr>) = dirty i" "dirty (i\<lparr>i_state := i_state i AND NOT I_NEW\<rparr>) = dirty i"
  "dirty (i\<lparr>i_refcount := r\<rparr>) = dirty i" "\<not> dirty zero_inode" "dirty (i\<lparr>i_superblock := q, i_ino := n\<rparr>) = dirty i"
  by (simp_all add: dirty_odd even_or_iff even_and_iff even_not_iff zero_inode_def)

lemma not_dirty: "i_state i AND I_DIRTY = 0 \<longleftrightarrow> \<not> dirty i"
  by (simp add: dirty_def)

lemma inode_lists_okD:
  assumes "inode_lists_ok v" "inodes v p = Some i"
  obtains sb where "p \<noteq> NULL" "i_superblock i \<noteq> NULL" "supers v (i_superblock i) = Some sb" "super_ok v (i_superblock i) sb"
  using assms by (fastforce simp: inode_lists_ok_def)

text \<open>An inode may change in everything but its superblock and its dirty flag.\<close>

lemma super_ok_cong:
  "inodes_of v' q = inodes_of v q \<Longrightarrow> inodes_of v q \<inter> dirty_inodes v' = inodes_of v q \<inter> dirty_inodes v \<Longrightarrow>
   super_ok v' q sb \<longleftrightarrow> super_ok v q sb"
  by (auto simp: super_ok_def)

lemma inode_lists_ok_upd:
  assumes "inode_lists_ok v" "inodes v p = Some i" "i_superblock i' = i_superblock i" "dirty i' = dirty i"
  shows "inode_lists_ok (upd_inode p i' v)"
proof -
  have of: "inodes_of (upd_inode p i' v) q = inodes_of v q" for q
    using assms(2,3) by (auto simp: inodes_of_def split: if_splits)
  have d: "dirty_inodes (upd_inode p i' v) = dirty_inodes v"
    using assms(2,4) by (auto simp: dirty_inodes_def split: if_splits)
  show ?thesis
    using assms(1-3) unfolding inode_lists_ok_def super_ok_def of d by (auto split: if_splits)
qed

lemma inode_lists_ok_ht [simp]: "inode_lists_ok (v\<lparr>inode_hashtable := h\<rparr>) \<longleftrightarrow> inode_lists_ok v"
  by (simp add: inode_lists_ok_def super_ok_def inodes_of_def dirty_inodes_def)

text \<open>An inode moves to the front or the end of a state list, with the flag that belongs to it.\<close>

lemma inode_lists_ok_move:
  assumes "inode_lists_ok v" "inodes v p = Some i" "supers v (i_superblock i) = Some sb" "i_superblock i' = i_superblock i"
    and "s_list_all_inodes sb' = s_list_all_inodes sb"
    and "distinct (s_list_clean_inodes sb')" "distinct (s_list_dirty_inodes sb')"
    and "set (s_list_clean_inodes sb') = (set (s_list_clean_inodes sb) - {p}) \<union> (if dirty i' then {} else {p})"
    and "set (s_list_dirty_inodes sb') = (set (s_list_dirty_inodes sb) - {p}) \<union> (if dirty i' then {p} else {})"
  shows "inode_lists_ok (upd_super (i_superblock i) sb' (upd_inode p i' v))" (is "inode_lists_ok ?v")
proof -
  have of: "inodes_of ?v q = inodes_of v q" for q
    using assms(2,4) by (auto simp: inodes_of_def split: if_splits)
  have d: "dirty_inodes ?v = (if dirty i' then insert p (dirty_inodes v) else dirty_inodes v - {p})"
    using assms(2) by (auto simp: dirty_inodes_def split: if_splits)
  have p: "p \<in> inodes_of v q \<longleftrightarrow> q = i_superblock i" for q using assms(2) by (auto simp: inodes_of_def)
  have ok: "super_ok v (i_superblock i) sb" using assms(1,3) by (simp add: inode_lists_ok_def)
  have sup: "super_ok ?v q s" if s: "supers ?v q = Some s" for q s
  proof (cases "q = i_superblock i")
    case True
    then have "s = sb'" using s by simp
    then show ?thesis
      using ok assms(5-9) p [of q] True unfolding super_ok_def of d by (auto split: if_splits)
  next
    case False
    then have "super_ok v q s" using s assms(1) by (simp add: inode_lists_ok_def)
    then show ?thesis using p [of q] False unfolding super_ok_def of d by (auto split: if_splits)
  qed
  moreover have "\<forall>a b. inodes ?v a = Some b \<longrightarrow> a \<noteq> NULL \<and> i_superblock b \<noteq> NULL \<and> supers ?v (i_superblock b) \<noteq> None"
    using assms(1,2,4) by (auto simp: inode_lists_ok_def split: if_splits)
  ultimately show ?thesis unfolding inode_lists_ok_def by blast
qed

lemma super_ok_unlink:
  assumes "super_ok v q sb"
  shows "distinct (s_list_clean_inodes (unlink_state p sb))" "distinct (s_list_dirty_inodes (unlink_state p sb))"
    "set (s_list_clean_inodes (unlink_state p sb)) = set (s_list_clean_inodes sb) - {p}"
    "set (s_list_dirty_inodes (unlink_state p sb)) = set (s_list_dirty_inodes sb) - {p}"
    "s_list_all_inodes (unlink_state p sb) = s_list_all_inodes sb"
  using assms by (auto simp: super_ok_def unlink_state_def)

lemma inode_setDirty_lists:
  assumes "inode_lists_ok v" "inode_setDirty p v = Return v'"
  shows "inode_lists_ok v'"
proof (cases "p = NULL")
  case False
  then obtain i where i: "inodes v p = Some i" using assms(2) by (auto simp: inode_setDirty_def bind_outcome_Return_iff)
  obtain sb where sb: "i_superblock i \<noteq> NULL" "supers v (i_superblock i) = Some sb" "super_ok v (i_superblock i) sb"
    using inode_lists_okD [OF assms(1) i] by blast
  show ?thesis
  proof (cases "dirty i")
    case True
    then have "v' = v" using assms(2) False by (simp add: inode_setDirty_def inode_at_def i not_dirty)
    then show ?thesis using assms(1) by simp
  next
    case nd: False
    have v': "v' = upd_super (i_superblock i) ((unlink_state p sb)\<lparr>s_list_dirty_inodes := p # s_list_dirty_inodes (unlink_state p sb)\<rparr>)
         (upd_inode p (i\<lparr>i_state := i_state i OR I_DIRTY\<rparr>) v)"
      using assms(2) False nd sb(1,2) by (simp add: inode_setDirty_def inode_at_def super_at_def i not_dirty Let_def)
    show ?thesis unfolding v'
      by (rule inode_lists_ok_move [OF assms(1) i sb(2)]) (use super_ok_unlink [OF sb(3), of p] in auto)
  qed
qed (use assms in \<open>simp add: inode_setDirty_def\<close>)

lemma mark_clean_lists:
  assumes "inode_lists_ok v" "inodes v p = Some i" "mark_clean (i_superblock i) p i v = Return v'"
  shows "inode_lists_ok v'"
proof -
  obtain sb where sb: "supers v (i_superblock i) = Some sb" "super_ok v (i_superblock i) sb"
    using inode_lists_okD [OF assms(1,2)] by blast
  define i' where "i' = i\<lparr>i_state := i_state i AND NOT I_DIRTY\<rparr>"
  have i': "i_superblock i' = i_superblock i" "\<not> dirty i'" unfolding i'_def by (simp, rule dirty_simps)
  have v': "v' = upd_super (i_superblock i) ((unlink_state p sb)\<lparr>s_list_clean_inodes := p # s_list_clean_inodes (unlink_state p sb)\<rparr>)
         (upd_inode p i' v)"
    using assms(3) sb(1) by (simp add: mark_clean_def super_at_def Let_def i'_def)
  show ?thesis unfolding v'
    by (rule inode_lists_ok_move [OF assms(1,2) sb(1)]) (use super_ok_unlink [OF sb(2), of p] i' in auto)
qed

lemma inode_unref_lists:
  assumes "inode_lists_ok v" "inode_unref p v = Return v'"
  shows "inode_lists_ok v'"
proof (cases "p = NULL")
  case False
  then obtain i where i: "inodes v p = Some i" using assms(2) by (auto simp: inode_unref_def bind_outcome_Return_iff)
  obtain sb where sb: "supers v (i_superblock i) = Some sb" "super_ok v (i_superblock i) sb"
    using inode_lists_okD [OF assms(1) i] by blast
  define i' where "i' = i\<lparr>i_refcount := int32_of (i_refcount i - 1)\<rparr>"
  have i': "i_superblock i' = i_superblock i" "dirty i' = dirty i" "i_state i' = i_state i" by (simp_all add: i'_def)
  show ?thesis
  proof (cases "i_refcount i' = 0 \<and> \<not> dirty i")
    case True
    then have v': "v' = upd_super (i_superblock i) ((unlink_state p sb)\<lparr>s_list_clean_inodes := s_list_clean_inodes (unlink_state p sb) @ [p]\<rparr>)
         (upd_inode p i' v)"
      using assms(2) False sb(1) by (simp add: inode_unref_def inode_at_def super_at_def i not_dirty Let_def i'_def)
    show ?thesis unfolding v'
      by (rule inode_lists_ok_move [OF assms(1) i sb(1)]) (use super_ok_unlink [OF sb(2), of p] i' True in auto)
  next
    case nz: False
    then have "v' = upd_inode p i' v"
      using assms(2) False by (auto simp: inode_unref_def inode_at_def i not_dirty Let_def i'_def)
    then show ?thesis using inode_lists_ok_upd [OF assms(1) i] i' by simp
  qed
qed (use assms in \<open>simp add: inode_unref_def\<close>)

lemma inode_sync_lists:
  assumes "inode_lists_ok v" "inode_sync ops p wait v = Return (r, v')"
  shows "inode_lists_ok v'"
proof (cases "p = NULL")
  case False
  then obtain i where i: "inodes v p = Some i" using assms(2) by (auto simp: inode_sync_def bind_outcome_Return_iff)
  have "v' = v \<or> mark_clean (i_superblock i) p i v = Return v'"
    using assms(2) False by (auto simp: inode_sync_def inode_at_def i Let_def bind_outcome_Return_iff split: if_splits)
  then show ?thesis using assms(1) mark_clean_lists [OF assms(1) i] by blast
qed (use assms in \<open>simp add: inode_sync_def\<close>)

lemma mark_clean_inodes:
  assumes "mark_clean q p i v = Return v'" "inodes v p = Some i"
  obtains i' where "inodes v' = (inodes v)(p := Some i')" "i_superblock i' = i_superblock i" "\<not> dirty i'"
proof -
  have "inodes v' = (inodes v)(p := Some (i\<lparr>i_state := i_state i AND NOT I_DIRTY\<rparr>))"
    using assms(1) by (auto simp: mark_clean_def bind_outcome_Return_iff Let_def)
  then show ?thesis by (rule that) (simp, rule dirty_simps)
qed

text \<open>The inodes on the lists of a superblock belong to it.\<close>

lemma inodes_of_mark_clean:
  assumes "mark_clean q p i v = Return v'" "inodes v p = Some i"
  shows "inodes_of v' x = inodes_of v x" "dirty_inodes v' = dirty_inodes v - {p}"
proof -
  obtain i' where i': "inodes v' = (inodes v)(p := Some i')" "i_superblock i' = i_superblock i" "\<not> dirty i'"
    using assms by (rule mark_clean_inodes)
  show "inodes_of v' x = inodes_of v x" using i'(2) assms(2) by (auto simp: inodes_of_def i'(1))
  show "dirty_inodes v' = dirty_inodes v - {p}" using i'(3) by (auto simp: dirty_inodes_def i'(1))
qed

lemma sync_inodes_lists:
  "inode_lists_ok v \<Longrightarrow> set ps \<subseteq> inodes_of v q \<Longrightarrow> sync_inodes ops q wait ps v = Return (r, v') \<Longrightarrow>
   inode_lists_ok v' \<and> inodes_of v' q = inodes_of v q"
proof (induction ps arbitrary: v)
  case (Cons p ps)
  show ?case
  proof (cases "Option.bind ops write_inode")
    case (Some w)
    show ?thesis
    proof (cases "w p wait = 0 \<and> wait \<noteq> 0")
      case True
      then obtain i v1 where i: "inodes v p = Some i" "mark_clean q p i v = Return v1" "sync_inodes ops q wait ps v1 = Return (r, v')"
        using Cons.prems(3) Some by (auto simp: bind_outcome_Return_iff)
      have q: "i_superblock i = q" using Cons.prems(2) i(1) by (auto simp: inodes_of_def)
      have "inodes_of v1 q = inodes_of v q" using i(2,1) by (rule inodes_of_mark_clean)
      moreover from this have "inode_lists_ok v' \<and> inodes_of v' q = inodes_of v1 q"
        using Cons.prems(2) by (intro Cons.IH [OF mark_clean_lists [OF Cons.prems(1) i(1)] _ i(3)]) (use i(2) q in auto)
      ultimately show ?thesis by simp
    qed (use Cons Some in \<open>auto split: if_splits\<close>)
  qed (use Cons in simp)
qed simp

lemma sync_inodes_supers: "sync_inodes ops q wait ps v = Return (r, v') \<Longrightarrow> supers v q \<noteq> None \<Longrightarrow> supers v' q \<noteq> None"
proof (induction ps arbitrary: v)
  case (Cons p ps)
  have "supers v1 q \<noteq> None" if "mark_clean q p i v = Return v1" for i v1
    using that by (auto simp: mark_clean_def bind_outcome_Return_iff Let_def)
  then show ?case using Cons by (auto simp: bind_outcome_Return_iff split: option.splits if_splits)
qed simp

text \<open>Writing back with \<open>wait\<close>, all of it successful, cleans the inodes of the list.\<close>

lemma sync_inodes_clean:
  assumes "Option.bind ops write_inode = Some w" "\<forall>p. w p wait = 0" "wait \<noteq> 0" "supers v q \<noteq> None" "set ps \<subseteq> dom (inodes v)"
  shows "\<exists>v'. sync_inodes ops q wait ps v = Return (0, v') \<and> dirty_inodes v' = dirty_inodes v - set ps"
  using assms(4,5)
proof (induction ps arbitrary: v)
  case (Cons p ps)
  obtain i sb where i: "inodes v p = Some i" and sb: "supers v q = Some sb" using Cons.prems by auto
  obtain v1 where v1: "mark_clean q p i v = Return v1" "supers v1 q \<noteq> None"
    by (simp add: mark_clean_def super_at_def sb Let_def)
  obtain i' where i': "inodes v1 = (inodes v)(p := Some i')" using v1(1) i by (rule mark_clean_inodes)
  have "set ps \<subseteq> dom (inodes v1)" using Cons.prems(2) by (auto simp: i')
  then obtain v' where v': "sync_inodes ops q wait ps v1 = Return (0, v')" "dirty_inodes v' = dirty_inodes v1 - set ps"
    using Cons.IH [OF v1(2)] by auto
  have "sync_inodes ops q wait (p # ps) v = Return (0, v')"
    using assms(1-3) by (simp add: inode_at_def i v1(1) v'(1))
  moreover have "dirty_inodes v' = dirty_inodes v - set (p # ps)" using inodes_of_mark_clean(2) [OF v1(1) i] v'(2) by auto
  ultimately show ?case by (intro exI [of _ v'] conjI)
qed simp

lemma sync_filesystem_lists:
  assumes "inode_lists_ok v" "sync_filesystem ops sfs q wait v = Return (r, v')"
  shows "inode_lists_ok v'"
proof (cases "q = NULL \<or> sfs \<noteq> 0")
  case False
  then obtain sb where sb: "supers v q = Some sb" "sync_inodes ops q wait (s_list_dirty_inodes sb) v = Return (r, v')"
    using assms(2) by (auto simp: sync_filesystem_def bind_outcome_Return_iff)
  have "super_ok v q sb" using assms(1) sb(1) by (simp add: inode_lists_ok_def)
  then have "set (s_list_dirty_inodes sb) \<subseteq> inodes_of v q" by (simp add: super_ok_def)
  from sync_inodes_lists [OF assms(1) this sb(2)] show ?thesis by simp
qed (use assms in \<open>auto simp: sync_filesystem_def split: if_splits\<close>)

lemma inode_ref_eq:
  assumes "inode_ref p v = Return (p', v')"
  shows "v' = v \<or> (\<exists>i. inodes v p = Some i \<and> v' = upd_inode p (i\<lparr>i_refcount := int32_of (i_refcount i + 1)\<rparr>) v)"
  using assms by (auto simp: inode_ref_def bind_outcome_Return_iff split: if_splits)

lemma inode_ref_lists: "inode_lists_ok v \<Longrightarrow> inode_ref p v = Return (p', v') \<Longrightarrow> inode_lists_ok v'"
  using inode_ref_eq [of p v p' v'] inode_lists_ok_upd [of v p] by auto

lemma icache_lookup_lists: "inode_lists_ok v \<Longrightarrow> icache_lookup q ino v = Some (Return (p, v')) \<Longrightarrow> inode_lists_ok v'"
  by (auto simp: icache_lookup_def bind_run_Return_iff intro: inode_ref_lists split: if_splits)

lemma icache_insert_lists: "inode_lists_ok v \<Longrightarrow> icache_insert bs p v = Some (Return v') \<Longrightarrow> inode_lists_ok v'"
  by (auto simp: icache_insert_def bind_run_Return_iff split: if_splits)

lemma icache_delete_lists: "inode_lists_ok v \<Longrightarrow> icache_delete p v = Return v' \<Longrightarrow> inode_lists_ok v'"
  by (auto simp: icache_delete_def bind_outcome_Return_iff split: if_splits)

lemma unlock_new_inode_lists: "inode_lists_ok v \<Longrightarrow> unlock_new_inode p v = Return (r, v') \<Longrightarrow> inode_lists_ok v'"
proof (cases "p = NULL")
  case False
  assume ok: "inode_lists_ok v" and run: "unlock_new_inode p v = Return (r, v')"
  obtain i where i: "inodes v p = Some i" using False run by (auto simp: unlock_new_inode_def bind_outcome_Return_iff)
  have "v' = v \<or> v' = upd_inode p (i\<lparr>i_state := i_state i AND NOT I_NEW\<rparr>) v"
    using False run by (auto simp: unlock_new_inode_def inode_at_def i split: if_splits)
  moreover have "inode_lists_ok (upd_inode p (i\<lparr>i_state := i_state i AND NOT I_NEW\<rparr>) v)"
    by (rule inode_lists_ok_upd [OF ok i]) (simp, rule dirty_simps)
  ultimately show "inode_lists_ok v'" using ok by blast
qed (simp add: unlock_new_inode_def)

text \<open>A new inode of a superblock.\<close>

definition created :: "ptr \<Rightarrow> u64 \<Rightarrow> ptr \<Rightarrow> superblock \<Rightarrow> vfs \<Rightarrow> vfs" where
  "created mem ino q sb v =
     upd_inode mem (zero_inode\<lparr>i_superblock := q, i_ino := ino\<rparr>)
       (upd_super q (sb\<lparr>s_list_all_inodes := mem # s_list_all_inodes sb, s_list_clean_inodes := mem # s_list_clean_inodes sb\<rparr>) v)"

lemma next_ino_lists: "next_ino ops q sb = (n, sb') \<Longrightarrow>
    s_list_all_inodes sb' = s_list_all_inodes sb \<and> s_list_clean_inodes sb' = s_list_clean_inodes sb \<and>
    s_list_dirty_inodes sb' = s_list_dirty_inodes sb"
  by (auto simp: next_ino_def Let_def split: option.splits)

lemma createInode_eq:
  assumes "\<not> PTR_IS_INVALID q" "supers v q = Some sb" "next_ino ops q sb = (n, sb')"
  shows "superblock_createInode ops mem q v =
    (if PTR_IS_INVALID mem then Return (ERR_PTR (- ENOMEM), upd_super q sb' v)
     else Return (mem, created mem (word_of_int n) q sb' v))"
proof -
  have "mem \<noteq> NULL" if "\<not> PTR_IS_INVALID mem" using that by (simp add: PTR_IS_INVALID_def)
  then show ?thesis
    using assms by (auto simp: superblock_createInode_def super_at_def Let_def created_def inode_ref_def inode_at_def
        inode_isBad_def zero_inode_def)
qed

lemma created_lists:
  assumes "inode_lists_ok v" "inodes v mem = None" "supers v q = Some sb" "mem \<noteq> NULL" "q \<noteq> NULL"
    and "s_list_all_inodes sb' = s_list_all_inodes sb" "s_list_clean_inodes sb' = s_list_clean_inodes sb"
      "s_list_dirty_inodes sb' = s_list_dirty_inodes sb"
  shows "inode_lists_ok (created mem ino q sb' v)" (is "inode_lists_ok ?v")
proof -
  have of: "inodes_of ?v r = (if r = q then insert mem (inodes_of v r) else inodes_of v r)" for r
    using assms(2) by (auto simp: inodes_of_def created_def)
  have nd: "\<not> dirty (zero_inode\<lparr>i_superblock := q, i_ino := ino\<rparr>)" by simp
  have d: "dirty_inodes ?v = dirty_inodes v"
    using assms(2) nd by (auto simp: dirty_inodes_def created_def)
  have fresh: "mem \<notin> inodes_of v r" "mem \<notin> dirty_inodes v" for r using assms(2) by (auto simp: inodes_of_def dirty_inodes_def)
  have "super_ok v q sb" using assms(1,3) by (simp add: inode_lists_ok_def)
  then have q: "super_ok ?v q (sb'\<lparr>s_list_all_inodes := mem # s_list_all_inodes sb', s_list_clean_inodes := mem # s_list_clean_inodes sb'\<rparr>)"
    using fresh assms(6-8) unfolding super_ok_def of d by auto
  have "super_ok ?v r s" if "supers ?v r = Some s" for r s
  proof (cases "r = q")
    case False
    then have "super_ok v r s" using that assms(1) by (simp add: inode_lists_ok_def created_def)
    then show ?thesis using False unfolding super_ok_def of d by simp
  qed (use that q in \<open>simp add: created_def\<close>)
  moreover have "\<forall>a b. inodes ?v a = Some b \<longrightarrow> a \<noteq> NULL \<and> i_superblock b \<noteq> NULL \<and> supers ?v (i_superblock b) \<noteq> None"
    using assms(1,4,5) by (auto simp: inode_lists_ok_def created_def)
  ultimately show ?thesis unfolding inode_lists_ok_def by blast
qed

lemma inode_lists_ok_super:
  assumes "inode_lists_ok v" "supers v q = Some sb" "s_list_all_inodes sb' = s_list_all_inodes sb"
    "s_list_clean_inodes sb' = s_list_clean_inodes sb" "s_list_dirty_inodes sb' = s_list_dirty_inodes sb"
  shows "inode_lists_ok (upd_super q sb' v)"
  using assms by (auto simp: inode_lists_ok_def super_ok_def inodes_of_def dirty_inodes_def)

lemma createInode_lists:
  assumes "inode_lists_ok v" "inodes v mem = None" "superblock_createInode ops mem q v = Return (p, v')"
  shows "inode_lists_ok v'" "p = mem \<or> PTR_IS_INVALID p"
proof -
  have "inode_lists_ok v' \<and> (p = mem \<or> PTR_IS_INVALID p)"
  proof (cases "PTR_IS_INVALID q")
    case True
    then show ?thesis using assms(1,3) PTR_ERR_ERR_PTR(1) [of "- 22"]
      by (simp add: superblock_createInode_def) (auto simp: PTR_IS_INVALID_def)
  next
    case False
    then obtain sb where sb: "supers v q = Some sb" using assms(3) by (auto simp: superblock_createInode_def bind_outcome_Return_iff)
    obtain n sb' where n: "next_ino ops q sb = (n, sb')" by fastforce
    note keep = next_ino_lists [OF n]
    have "PTR_IS_INVALID (ERR_PTR (- 12))" using PTR_ERR_ERR_PTR(1) [of "- 12"] by (simp add: PTR_IS_INVALID_def)
    moreover have "q \<noteq> NULL" "\<not> PTR_IS_INVALID mem \<Longrightarrow> mem \<noteq> NULL" using False by (auto simp: PTR_IS_INVALID_def)
    ultimately show ?thesis
      using assms(3) createInode_eq [OF False sb n, of mem] inode_lists_ok_super [OF assms(1) sb, of sb']
        created_lists [OF assms(1,2) sb, of sb' "word_of_int n"] keep by (auto split: if_splits)
  qed
  then show "inode_lists_ok v'" "p = mem \<or> PTR_IS_INVALID p" by simp_all
qed

lemma inode_acquire_lists:
  assumes "inode_lists_ok v" "inodes v mem = None" "methods_ok ops" "inode_acquire ops bs mem q ino v = Some (Return (p, v'))"
  shows "inode_lists_ok v'"
proof (cases "PTR_IS_INVALID q")
  case False
  then obtain n v1 where n: "icache_lookup q ino v = Some (Return (n, v1))"
    using assms(4) by (auto simp: inode_acquire_def bind_run_Return_iff)
  have ok1: "inode_lists_ok v1" by (rule icache_lookup_lists [OF assms(1) n])
  have mem1: "inodes v1 mem = None"
    using n assms(2) inode_ref_eq by (fastforce simp: icache_lookup_def bind_run_Return_iff split: if_splits)
  define create where "create = (if n = NULL then superblock_createInode ops mem q v1 else Return (n, v1))"
  have acq: "inode_acquire ops bs mem q ino v = (if PTR_IS_ERROR n then Some (Return (ERR_PTR (- ENOMEM), v1))
      else bind_run (Some create) (\<lambda>(inode, v).
          if PTR_IS_INVALID inode then Some (Return (ERR_PTR (- ENOMEM), v))
          else bind_run (Some (inode_at v inode)) (\<lambda>i.
            if i_state i AND I_NEW \<noteq> 0
            then (case Option.bind ops read_inode of
                    None \<Rightarrow> Some (Return (ERR_PTR (- EINVAL), v))
                  | Some f \<Rightarrow>
                      bind_run (icache_insert bs inode (upd_inode inode (f i) v)) (\<lambda>v. Some (Return (inode, v))))
            else bind_run (icache_insert bs inode v) (\<lambda>v. Some (Return (inode, v))))))"
    using False n by (simp add: inode_acquire_def create_def)
  show ?thesis
  proof (cases "PTR_IS_ERROR n")
    case False
    then obtain a v2 where a: "create = Return (a, v2)" using assms(4) unfolding acq by (auto simp: bind_run_Return_iff)
    have ok2: "inode_lists_ok v2"
      using a ok1 createInode_lists(1) [OF ok1 mem1] by (auto simp: create_def split: if_splits)
    show ?thesis
    proof (cases "PTR_IS_INVALID a")
      case True
      then show ?thesis using assms(4) False a ok2 unfolding acq by simp
    next
      case va: False
      then obtain i where i: "inodes v2 a = Some i" using assms(4) False a unfolding acq by (auto simp: bind_run_Return_iff)
      have f: "inode_lists_ok (upd_inode a (f i) v2)" if "Option.bind ops read_inode = Some f" for f
        using that assms(3) by (intro inode_lists_ok_upd [OF ok2 i]) (auto simp: methods_ok_def)
      from assms(4) False a va ok2 show ?thesis unfolding acq
        by (auto simp: inode_at_def i bind_run_Return_iff intro: icache_insert_lists [OF ok2] icache_insert_lists [OF f]
            split: if_splits option.splits)
    qed
  qed (use assms(4) acq ok1 in simp)
qed (use assms in \<open>simp add: inode_acquire_def\<close>)

lemma inode_free_lists:
  assumes "inode_lists_ok v" "inodes v p = Some i" "inode_free p v = Return v'"
  shows "inode_lists_ok v'"
proof -
  obtain sb where sb: "p \<noteq> NULL" "i_superblock i \<noteq> NULL" "supers v (i_superblock i) = Some sb" "super_ok v (i_superblock i) sb"
    by (rule inode_lists_okD [OF assms(1,2)])
  define sb' where "sb' = (unlink_state p sb)\<lparr>s_list_all_inodes := remove1 p (s_list_all_inodes sb)\<rparr>"
  define v1 where "v1 = upd_super (i_superblock i) sb' v"
  have v': "v' = v1\<lparr>inodes := (inodes v1)(p := None)\<rparr>"
    using assms(3) sb by (simp add: inode_free_def inode_at_def super_at_def assms(2) sb'_def v1_def)
  have of: "inodes_of v' q = inodes_of v q - {p}" for q by (auto simp: inodes_of_def v' v1_def)
  have d: "dirty_inodes v' = dirty_inodes v - {p}" by (auto simp: dirty_inodes_def v' v1_def)
  have p: "p \<in> inodes_of v q \<longleftrightarrow> q = i_superblock i" for q using assms(2) by (auto simp: inodes_of_def)
  have q: "super_ok v' (i_superblock i) sb'"
    using sb(4) super_ok_unlink [OF sb(4), of p] unfolding super_ok_def of d by (auto simp: sb'_def)
  have "super_ok v' r s" if s: "supers v' r = Some s" for r s
  proof (cases "r = i_superblock i")
    case False
    then have "super_ok v r s" using s assms(1) by (simp add: inode_lists_ok_def v' v1_def)
    then show ?thesis using p [of r] False unfolding super_ok_def of d by auto
  qed (use s q in \<open>simp add: v' v1_def\<close>)
  moreover have "\<forall>a b. inodes v' a = Some b \<longrightarrow> a \<noteq> NULL \<and> i_superblock b \<noteq> NULL \<and> supers v' (i_superblock b) \<noteq> None"
    using assms(1) by (auto simp: inode_lists_ok_def v' v1_def split: if_splits)
  ultimately show ?thesis unfolding inode_lists_ok_def by blast
qed

text \<open>What the eviction does to the inode before it is freed.\<close>

lemma evict_inode_free:
  assumes "methods_ok ops" "inodes v p = Some i" "p \<noteq> NULL"
  obtains i' where "evict_inode ops p v = inode_free p (upd_inode p i' v)"
    "i_superblock i' = i_superblock i" "dirty i' = dirty i"
proof -
  define j where "j = i\<lparr>i_state := i_state i OR I_FREEING\<rparr>"
  define k where "k = (case Option.bind (if i_superblock j = NULL then None else ops) evict_method of None \<Rightarrow> j | Some f \<Rightarrow> f j)"
  have j: "i_superblock j = i_superblock i" "dirty j = dirty i" unfolding j_def by (simp, rule dirty_simps)
  have k: "i_superblock k = i_superblock j" "dirty k = dirty j"
    using assms(1) by (auto simp: k_def methods_ok_def split: option.splits if_splits)
  have "evict_inode ops p v = inode_free p (upd_inode p k v)"
    using assms(2,3) unfolding k_def j_def by (simp add: evict_inode_def inode_at_def Let_def)
  then show thesis by (rule that) (simp_all add: j k)
qed

lemma evict_inode_lists:
  assumes "inode_lists_ok v" "methods_ok ops" "evict_inode ops p v = Return v'"
  shows "inode_lists_ok v'"
proof (cases "p = NULL")
  case False
  then obtain i where i: "inodes v p = Some i" using assms(3) by (auto simp: evict_inode_def bind_outcome_Return_iff)
  obtain i' where i': "evict_inode ops p v = inode_free p (upd_inode p i' v)" "i_superblock i' = i_superblock i" "dirty i' = dirty i"
    by (rule evict_inode_free [OF assms(2) i False])
  show ?thesis
    by (rule inode_free_lists [OF inode_lists_ok_upd [OF assms(1) i i'(2,3)], of p i']) (use assms(3) i'(1) in simp_all)
qed (use assms in \<open>simp add: evict_inode_def\<close>)

lemma inode_reach_lists:
  assumes "inode_reach v0 v" "inode_lists_ok v0"
  shows "inode_lists_ok v"
  using assms
proof (induction rule: inode_reach.induct)
  case (create v mem ops q p v')
  then show ?case using createInode_lists(1) by blast
next
  case (acquire v mem ops bs q ino p v')
  then show ?case using inode_acquire_lists by blast
next
  case (sync_fs v ops sfs q wait r v')
  then show ?case by (simp add: sync_filesystem_lists)
qed (auto intro: icache_lookup_lists inode_ref_lists inode_unref_lists inode_setDirty_lists inode_sync_lists
    evict_inode_lists unlock_new_inode_lists icache_insert_lists icache_delete_lists)

subsection \<open>The inode cache\<close>

text \<open>The keys of the inode cache are lawful.\<close>

interpretation ic: hash_keys "\<lambda>_. True" icache_hash icache_equal
proof unfold_locales
  show "icache_hash k = icache_hash k'" if "icache_equal k k'" for k k'
    using that by (simp add: icache_equal_def icache_hash_def Let_def)
qed (auto simp: icache_equal_def)

text \<open>The cache holds an inode for a superblock and a number.\<close>

definition cached :: "vfs \<Rightarrow> (ptr \<Rightarrow> ptr list) \<Rightarrow> ptr \<Rightarrow> ptr \<Rightarrow> u64 \<Rightarrow> bool" where
  "cached v f p q ino \<longleftrightarrow> p \<in> members (inode_hashtable v) f \<and>
     (\<exists>i. inodes v p = Some i \<and> i_superblock i = q \<and> i_ino i = ino)"

definition icache_ok :: "vfs \<Rightarrow> (ptr \<Rightarrow> ptr list) \<Rightarrow> bool" where
  "icache_ok v f \<longleftrightarrow> ht_ok (\<lambda>_. True) (icache_callbacks v) (inode_hashtable v) f \<and>
     (\<forall>p \<in> members (inode_hashtable v) f. \<not> PTR_IS_INVALID p)"

lemma icache_callbacks_simps [simp]:
  "hash_func (icache_callbacks v) = icache_hash" "key_equals (icache_callbacks v) = icache_equal"
  "icache_callbacks (v\<lparr>inode_hashtable := h\<rparr>) = icache_callbacks v"
  by (simp_all add: icache_callbacks_def icache_getkey_def inode_at_def fun_eq_iff)

lemma embeds_icache [simp]:
  "embeds (icache_callbacks v) p k \<longleftrightarrow> (\<exists>i. inodes v p = Some i \<and> k = \<lparr>key_sb = i_superblock i, key_ino = i_ino i\<rparr>)"
  by (auto simp: embeds_def icache_callbacks_def icache_getkey_def inode_at_def split: option.splits)

lemma holds_icache:
  "holds (icache_callbacks v) (inode_hashtable v) f \<lparr>key_sb = q, key_ino = ino\<rparr> p \<longleftrightarrow> cached v f p q ino"
  by (auto simp: holds_def cached_def icache_equal_def)

lemma icache_lookup_cached:
  assumes "icache_ok v f"
  obtains r where "\<And>p. p \<noteq> NULL \<Longrightarrow> r = p \<longleftrightarrow> cached v f p q ino"
    "r = NULL \<Longrightarrow> icache_lookup q ino v = Some (Return (NULL, v))"
    "\<And>i. r \<noteq> NULL \<Longrightarrow> inodes v r = Some i \<Longrightarrow> icache_lookup q ino v = Some (Return (r,
        if inode_isBad i then v else upd_inode r (i\<lparr>i_refcount := int32_of (i_refcount i + 1)\<rparr>) v))"
proof -
  have ok: "ht_ok (\<lambda>_. True) (icache_callbacks v) (inode_hashtable v) f" using assms by (simp add: icache_ok_def)
  obtain r where r: "hashtable_lookup (icache_callbacks v) (Some \<lparr>key_sb = q, key_ino = ino\<rparr>) (inode_hashtable v) = Some (Return r)"
    "\<And>n. n \<noteq> NULL \<Longrightarrow> r = n \<longleftrightarrow> holds (icache_callbacks v) (inode_hashtable v) f \<lparr>key_sb = q, key_ino = ino\<rparr> n"
    using ic.lookup_holds [OF ok icache_callbacks_simps(1,2)] by blast
  have valid: "\<not> PTR_IS_INVALID r" if "r \<noteq> NULL"
    using r(2) [OF that] assms by (auto simp: holds_def icache_ok_def)
  show thesis
  proof (rule that)
    show "r = p \<longleftrightarrow> cached v f p q ino" if "p \<noteq> NULL" for p using r(2) [OF that] by (simp add: holds_icache)
    show "icache_lookup q ino v = Some (Return (NULL, v))" if "r = NULL"
      using that r(1) by (simp add: icache_lookup_def PTR_IS_INVALID_def)
    show "icache_lookup q ino v = Some (Return (r, if inode_isBad i then v else upd_inode r (i\<lparr>i_refcount := int32_of (i_refcount i + 1)\<rparr>) v))"
      if "r \<noteq> NULL" "inodes v r = Some i" for i
      using that r(1) valid by (simp add: icache_lookup_def inode_ref_def inode_at_def)
  qed
qed

lemma icache_insert_cached:
  assumes "icache_ok v f" "inodes v p = Some i" "\<not> PTR_IS_INVALID p" "i_superblock i \<noteq> NULL"
    and "p \<notin> list_nodes (set (heads (inode_hashtable v))) f"
    and "hashtable_count (tbl (inode_hashtable v)) < threshold (tbl (inode_hashtable v))"
  shows "\<exists>v' g. icache_insert bs p v = Some (Return v') \<and> icache_ok v' g \<and> inodes v' = inodes v \<and> supers v' = supers v \<and>
    members (inode_hashtable v') g =
      (if \<exists>m. cached v f m (i_superblock i) (i_ino i) then members (inode_hashtable v) f
       else insert p (members (inode_hashtable v) f))"
proof -
  let ?h = "inode_hashtable v" and ?k = "\<lparr>key_sb = i_superblock i, key_ino = i_ino i\<rparr>" and ?cb = "icache_callbacks v"
  have ok: "ht_ok (\<lambda>_. True) ?cb ?h f" using assms(1) by (simp add: icache_ok_def)
  have p: "p \<noteq> NULL" "embeds ?cb p ?k" using assms(2,3) by (auto simp: PTR_IS_INVALID_def)
  have "card (members ?h f) < 2147483647"
    using assms(6) count_members [OF ok] threshold_bound [of "tbl ?h"] by (simp add: word_less_nat_alt)
  note spec = ic.insert_node_spec [OF ok icache_callbacks_simps(1,2) TrueI p assms(5) this, unfolded holds_icache]
  have run: "icache_insert bs p v = bind_run (insert_node ?cb (KObject ?k) (bucket_index ?cb (tbl ?h) ?k) p ?h)
      (\<lambda>(_, ht). Some (Return (v\<lparr>inode_hashtable := ht\<rparr>)))"
    using p(1) assms(2,4) hashtable_insert_below [OF assms(6) p] by (simp add: icache_insert_def inode_at_def)
  show ?thesis
  proof (cases "\<exists>m. cached v f m (i_superblock i) (i_ino i)")
    case True
    then show ?thesis using spec run assms(1) by (intro exI [of _ v] exI [of _ f]) simp
  next
    case False
    then obtain st' g where "insert_node ?cb (KObject ?k) (bucket_index ?cb (tbl ?h) ?k) p ?h = Some (Return (0, st'))"
        "ht_ok (\<lambda>_. True) ?cb st' g" "members st' g = insert p (members ?h f)"
      using spec by (simp only: if_False) (elim exE conjE)
    then show ?thesis using False run assms(1,3)
      by (intro exI [of _ "v\<lparr>inode_hashtable := st'\<rparr>"] exI [of _ g]) (auto simp: icache_ok_def)
  qed
qed

lemma icache_delete_cached:
  assumes "icache_ok v f" "inodes v p = Some i" "i_superblock i \<noteq> NULL" "p \<in> members (inode_hashtable v) f"
  shows "\<exists>v' g. icache_delete p v = Return v' \<and> icache_ok v' g \<and> inodes v' = inodes v \<and> supers v' = supers v \<and>
    members (inode_hashtable v') g = members (inode_hashtable v) f - {p}"
proof -
  let ?h = "inode_hashtable v"
  have ok: "ht_ok (\<lambda>_. True) (icache_callbacks v) ?h f" and "p \<noteq> NULL"
    using assms(1,4) by (auto simp: icache_ok_def PTR_IS_INVALID_def)
  obtain g where "hashtable_remove (icache_callbacks v) p ?h = Return (0, unlink_node p ?h)"
      "ht_ok (\<lambda>_. True) (icache_callbacks v) (unlink_node p ?h) g" "members (unlink_node p ?h) g = members ?h f - {p}"
    by (rule ic.remove_spec [OF ok assms(4)])
  then show ?thesis using assms(1-3) \<open>p \<noteq> NULL\<close>
    by (intro exI [of _ "v\<lparr>inode_hashtable := unlink_node p ?h\<rparr>"] exI [of _ g])
      (auto simp: icache_delete_def inode_at_def icache_ok_def)
qed

lemma find_node_fault:
  assumes "seg s a (xs @ p # ys) h" "h \<notin> set (xs @ [p])" "\<And>x. x \<in> set xs \<Longrightarrow> test x = Return False" "test p = Fault"
  shows "find_node test s h (next_of s a) = Some Fault"
  using assms
proof (induction xs arbitrary: a)
  case Nil
  then show ?case by (subst find_node.simps) simp
next
  case (Cons x xs)
  then have "find_node test s h (next_of s x) = Some Fault" by simp
  with Cons.prems show ?case by (subst find_node.simps) auto
qed

text \<open>An eviction changes nothing but the lists of the superblock and takes the inode out of the store.\<close>

lemma evict_inode_store:
  assumes "methods_ok ops" "inodes v p = Some i" "evict_inode ops p v = Return v'" "p \<noteq> NULL"
  shows "inodes v' = (inodes v)(p := None)" "inode_hashtable v' = inode_hashtable v"
proof -
  obtain i' where i': "evict_inode ops p v = inode_free p (upd_inode p i' v)" by (rule evict_inode_free [OF assms(1,2,4)])
  have "inodes v' = (inodes v)(p := None) \<and> inode_hashtable v' = inode_hashtable v"
    using assms(3,4) unfolding i'
    by (auto simp: inode_free_def inode_at_def bind_outcome_Return_iff split: if_splits)
  then show "inodes v' = (inodes v)(p := None)" "inode_hashtable v' = inode_hashtable v" by simp_all
qed

subsection \<open>Permission bits\<close>

lemma take_bit_3_eq_0: "take_bit 3 w = 0 \<longleftrightarrow> \<not> bit w 0 \<and> \<not> bit w 1 \<and> \<not> bit (w :: u32) 2"
proof
  assume w: "\<not> bit w 0 \<and> \<not> bit w 1 \<and> \<not> bit w 2"
  show "take_bit 3 w = 0"
  proof (rule bit_eqI)
    fix n :: nat
    have "n < 3 \<Longrightarrow> n = 0 \<or> n = 1 \<or> n = 2" by auto
    then show "bit (take_bit 3 w) n \<longleftrightarrow> bit (0 :: u32) n" using w by (auto simp: bit_take_bit_iff)
  qed
next
  assume "take_bit 3 w = 0"
  then have "\<not> bit (take_bit 3 w) n" for n by simp
  from this [of 0] this [of 1] this [of 2] show "\<not> bit w 0 \<and> \<not> bit w 1 \<and> \<not> bit w 2"
    by (simp add: bit_take_bit_iff)
qed

lemma and_bits: "w AND 4 = 0 \<longleftrightarrow> \<not> bit w 2" "w AND 2 = 0 \<longleftrightarrow> \<not> bit w 1" "w AND 1 = 0 \<longleftrightarrow> \<not> bit (w :: u32) 0"
  using and_exp_eq_0_iff_not_bit [of w 2] and_exp_eq_0_iff_not_bit [of w 1] and_exp_eq_0_iff_not_bit [of w 0] by simp_all

lemma missing_bits:
  "msk AND 7 AND NOT m = 0 \<longleftrightarrow>
     \<not> (msk AND 4 \<noteq> 0 \<and> m AND 4 = 0) \<and> \<not> (msk AND 2 \<noteq> 0 \<and> m AND 2 = 0) \<and> \<not> (msk AND 1 \<noteq> 0 \<and> m AND 1 = (0 :: u32))"
proof -
  have "msk AND 7 AND NOT m = take_bit 3 (msk AND NOT m)"
    by (simp add: take_bit_eq_mask mask_eq_exp_minus_1 ac_simps)
  then show ?thesis
    unfolding and_bits by (simp only: take_bit_3_eq_0) (auto simp: bit_and_iff bit_not_iff possible_bit_word)
qed

text \<open>The permission bits that the code uses for a caller: the owner's, or the group's for everybody else.\<close>

definition class_bits :: "u32 \<Rightarrow> inode \<Rightarrow> u32" where
  "class_bits euid i = drop_bit (if euid = i_uid i then 6 else 3) (i_mode i)"

lemma mode_check_eq: "mode_check euid i msk = (if msk AND 7 AND NOT (class_bits euid i) = 0 then 0 else - EACCES)"
  unfolding missing_bits by (auto simp: mode_check_def class_bits_def current_group_matches_def Let_def)

section \<open>Properties\<close>

text \<open>
  C8. Every inode is on exactly one state list, the right one. In every run of the operations on
  inodes (creation, acquisition, references, marking dirty, writing back one inode or the whole
  file system, eviction, the cache operations) from well-formed lists, with file system methods
  that do not touch an inode's superblock and dirty flag, each inode is on its superblock's list
  of all inodes, and on its dirty list if it is dirty and on its clean list otherwise; no list
  holds an inode twice, nor one that has been freed.
\<close>

theorem inode_reach_one_list:
  assumes "inode_reach v0 v" "inode_lists_ok v0" "supers v q = Some sb"
  shows "distinct (s_list_all_inodes sb) \<and> distinct (s_list_clean_inodes sb @ s_list_dirty_inodes sb) \<and>
    set (s_list_all_inodes sb) = {p. \<exists>i. inodes v p = Some i \<and> i_superblock i = q} \<and>
    set (s_list_dirty_inodes sb) = {p. \<exists>i. inodes v p = Some i \<and> i_superblock i = q \<and> i_state i AND I_DIRTY \<noteq> 0} \<and>
    set (s_list_clean_inodes sb) = {p. \<exists>i. inodes v p = Some i \<and> i_superblock i = q \<and> i_state i AND I_DIRTY = 0}"
proof -
  have "super_ok v q sb" using inode_reach_lists [OF assms(1,2)] assms(3) by (simp add: inode_lists_ok_def)
  then show ?thesis
    unfolding not_dirty dirty_def [symmetric] by (auto simp: super_ok_def inodes_of_def dirty_inodes_def)
qed

text \<open>
  C18. Synchronising a file system with \<open>wait\<close>, when all the writes succeed, leaves no dirty inode
  in it: the flags of its dirty inodes are cleared, they are moved to the list of the clean ones,
  and the inodes of other file systems keep their state.
\<close>

theorem sync_filesystem_cleans:
  assumes "inode_lists_ok v" "supers v q = Some sb" "q \<noteq> NULL"
    and "Option.bind ops write_inode = Some w" "\<forall>p. w p wait = 0" "wait \<noteq> 0"
  shows "\<exists>v' sb'. sync_filesystem ops 0 q wait v = Return (0, v') \<and> inode_lists_ok v' \<and>
    dirty_inodes v' = dirty_inodes v - inodes_of v q \<and>
    supers v' q = Some sb' \<and> s_list_dirty_inodes sb' = [] \<and> set (s_list_clean_inodes sb') = inodes_of v q"
proof -
  have sb: "super_ok v q sb" using assms(1,2) by (simp add: inode_lists_ok_def)
  then have "set (s_list_dirty_inodes sb) \<subseteq> dom (inodes v)" by (auto simp: super_ok_def inodes_of_def)
  then obtain v' where v': "sync_inodes ops q wait (s_list_dirty_inodes sb) v = Return (0, v')"
      "dirty_inodes v' = dirty_inodes v - set (s_list_dirty_inodes sb)"
    using sync_inodes_clean [OF assms(4-6), of v q "s_list_dirty_inodes sb"] assms(2) by auto
  have run: "sync_filesystem ops 0 q wait v = Return (0, v')"
    using assms(2,3) v'(1) by (simp add: sync_filesystem_def super_at_def)
  have d: "dirty_inodes v' = dirty_inodes v - inodes_of v q" using v'(2) sb by (auto simp: super_ok_def)
  have ok: "inode_lists_ok v'" "inodes_of v' q = inodes_of v q"
    using sync_inodes_lists [OF assms(1) _ v'(1)] sb by (auto simp: super_ok_def)
  obtain sb' where sb': "supers v' q = Some sb'" using sync_inodes_supers [OF v'(1)] assms(2) by auto
  then have "super_ok v' q sb'" using ok(1) by (simp add: inode_lists_ok_def)
  then have "set (s_list_dirty_inodes sb') = {}" "set (s_list_clean_inodes sb') = inodes_of v q"
    using d ok(2) by (auto simp: super_ok_def)
  then show ?thesis using run ok(1) d sb' by (intro exI [of _ v'] exI [of _ sb']) simp
qed

text \<open>A superblock at 4096 without inodes, and an empty inode cache of 1024 buckets.\<close>

definition demo_super :: superblock where
  "demo_super = \<lparr>s_flags = 0, s_next_ino = 0, s_list_all_inodes = [], s_list_clean_inodes = [], s_list_dirty_inodes = []\<rparr>"

definition demo_vfs :: vfs where
  "demo_vfs = snd (icache_init (Some (addrs 100000 101024))
     \<lparr>inodes = (\<lambda>_. None), supers = [4096 \<mapsto> demo_super], inode_hashtable = demo_zero\<rparr>)"

lemma demo_vfs_simps [simp]: "inodes demo_vfs = (\<lambda>_. None)" "supers demo_vfs = [4096 \<mapsto> demo_super]"
  by (simp_all add: demo_vfs_def icache_init_def split: prod.split)

lemma demo_vfs_lists: "inode_lists_ok demo_vfs"
  by (auto simp: inode_lists_ok_def super_ok_def inodes_of_def dirty_inodes_def demo_super_def)

lemma demo_setup: "setup_size 1024 = 1024" "length (addrs 100000 101024) = unat (setup_size 1024)"
proof -
  show "setup_size 1024 = 1024" by code_simp
  then show "length (addrs 100000 101024) = unat (setup_size 1024)" by simp
qed

lemma demo_vfs_cache: "icache_ok demo_vfs (\<lambda>_. [])" "members (inode_hashtable demo_vfs) (\<lambda>_. []) = {}"
  "heads (inode_hashtable demo_vfs) = addrs 100000 101024"
  "tbl (inode_hashtable demo_vfs) = \<lparr>ht_size = 1024, items = 0, max_load = 75, expanding = 0, buckets = Some (addrs 100000 101024)\<rparr>"
proof -
  define h where "h = snd (hashtable_setup 1024 75 (Some (addrs 100000 101024)) demo_zero)"
  have h: "inode_hashtable demo_vfs = h" by (simp add: demo_vfs_def icache_init_def h_def split: prod.split)
  note s = hashtable_setup_ok [OF _ demo_setup(2) distinct_addrs, where load = 75 and st = demo_zero, folded h_def]
  show m: "members (inode_hashtable demo_vfs) (\<lambda>_. []) = {}" unfolding h by (rule s) simp_all
  show "heads (inode_hashtable demo_vfs) = addrs 100000 101024" unfolding h by (rule s) simp_all
  have "ht_ok (\<lambda>_. True) (icache_callbacks demo_vfs) h (\<lambda>_. [])" by (rule s) simp_all
  then show "icache_ok demo_vfs (\<lambda>_. [])" unfolding icache_ok_def m by (simp add: h)
  show "tbl (inode_hashtable demo_vfs) = \<lparr>ht_size = 1024, items = 0, max_load = 75, expanding = 0, buckets = Some (addrs 100000 101024)\<rparr>"
    unfolding h h_def by (simp add: hashtable_setup_def demo_zero_def Let_def demo_setup(1))
qed

text \<open>One dirty inode, written back.\<close>

theorem sync_filesystem_cleans_witness:
  "\<exists>v v' sb'. dirty_inodes v = {8192} \<and>
     sync_filesystem (Some \<lparr>get_next_ino = None, read_inode = None, write_inode = Some (\<lambda>_ _. 0), evict_method = None\<rparr>) 0 4096 1 v = Return (0, v') \<and>
     dirty_inodes v' = {} \<and> supers v' 4096 = Some sb' \<and> set (s_list_clean_inodes sb') = {8192}"
proof -
  let ?ops = "Some \<lparr>get_next_ino = None, read_inode = None, write_inode = Some (\<lambda>(_ :: ptr) (_ :: int). 0 :: int), evict_method = None\<rparr>"
  define i where "i = zero_inode\<lparr>i_superblock := 4096, i_state := 1\<rparr>"
  define v where "v = upd_inode 8192 i (upd_super 4096 (demo_super\<lparr>s_list_all_inodes := [8192], s_list_dirty_inodes := [8192]\<rparr>) demo_vfs)"
  have i: "i_superblock i = 4096" "dirty i" by (simp_all add: i_def dirty_def)
  have sets: "inodes_of v q = (if q = 4096 then {8192} else {})" "dirty_inodes v = {8192}" for q
    using i by (auto simp: inodes_of_def dirty_inodes_def v_def)
  have "inode_lists_ok v"
    unfolding inode_lists_ok_def super_ok_def sets by (auto simp: v_def i demo_super_def split: if_splits)
  then have "\<exists>v' sb'. sync_filesystem ?ops 0 4096 1 v = Return (0, v') \<and> inode_lists_ok v' \<and>
    dirty_inodes v' = dirty_inodes v - inodes_of v 4096 \<and>
    supers v' 4096 = Some sb' \<and> s_list_dirty_inodes sb' = [] \<and> set (s_list_clean_inodes sb') = inodes_of v 4096"
    by (rule sync_filesystem_cleans [where w = "\<lambda>_ _. 0"]) (simp_all add: v_def)
  then obtain v' sb' where "sync_filesystem ?ops 0 4096 1 v = Return (0, v')" "dirty_inodes v' = dirty_inodes v - inodes_of v 4096"
      "supers v' 4096 = Some sb'" "set (s_list_clean_inodes sb') = inodes_of v 4096"
    by (elim exE conjE)
  then show ?thesis using sets by (intro exI [of _ v] exI [of _ v'] exI [of _ sb']) simp
qed

theorem inode_reach_one_list_witness:
  "\<exists>v sb. inode_reach demo_vfs v \<and> supers v 4096 = Some sb \<and> set (s_list_dirty_inodes sb) = {8192} \<and>
     set (s_list_clean_inodes sb) = {}"
proof -
  define v1 where "v1 = created 8192 1 4096 (demo_super\<lparr>s_next_ino := 1\<rparr>) demo_vfs"
  have "superblock_createInode None 8192 4096 demo_vfs = Return (8192, v1)"
    by (subst createInode_eq [where sb = demo_super and n = 1 and sb' = "demo_super\<lparr>s_next_ino := 1\<rparr>"])
      (simp_all add: PTR_IS_INVALID_def PTR_IS_ERROR_def next_ino_def demo_super_def int64_of_def v1_def)
  then have r1: "inode_reach demo_vfs v1" by (intro inode_reach.create [OF inode_reach.start]) auto
  obtain v2 where d: "inode_setDirty 8192 v1 = Return v2"
    by (simp add: inode_setDirty_def inode_at_def super_at_def v1_def created_def zero_inode_def Let_def)
  have r2: "inode_reach demo_vfs v2" by (rule inode_reach.set_dirty [OF r1 d])
  have v2: "v2 = upd_super 4096 (demo_super\<lparr>s_next_ino := 1, s_list_all_inodes := [8192], s_list_dirty_inodes := [8192]\<rparr>)
      (upd_inode 8192 (zero_inode\<lparr>i_superblock := 4096, i_ino := 1, i_state := 1\<rparr>) v1)"
    using d by (simp add: inode_setDirty_def inode_at_def super_at_def v1_def created_def zero_inode_def Let_def unlink_state_def demo_super_def)
  have "supers v2 4096 = Some (demo_super\<lparr>s_next_ino := 1, s_list_all_inodes := [8192], s_list_dirty_inodes := [8192]\<rparr>)"
    by (simp add: v2)
  from inode_reach_one_list [OF r2 demo_vfs_lists this] r2 this show ?thesis
    by (intro exI [of _ v2]) (simp add: demo_super_def)
qed



text \<open>
  C19. An inode that is evicted stays in the cache. After \<^verbatim>\<open>evict_inode\<close> has freed an inode that
  the cache holds, a lookup of its key reaches its node in the bucket and reads the freed memory.
\<close>

theorem evict_inode_dangling:
  assumes "icache_ok v f" "cached v f p q ino" "methods_ok ops" "evict_inode ops p v = Return v'"
  shows "icache_lookup q ino v' = Some Fault"
proof -
  let ?h = "inode_hashtable v" and ?k = "\<lparr>key_sb = q, key_ino = ino\<rparr>" and ?cb = "icache_callbacks v"
  have ok: "ht_ok (\<lambda>_. True) ?cb ?h f" and p0: "p \<noteq> NULL" using assms(1,2) by (auto simp: icache_ok_def cached_def PTR_IS_INVALID_def)
  obtain i where i: "p \<in> members ?h f" "inodes v p = Some i" "i_superblock i = q" "i_ino i = ino"
    using assms(2) by (auto simp: cached_def)
  note v' = evict_inode_store [OF assms(3) i(2) assms(4) p0]
  let ?b = "bucket_index ?cb (tbl ?h) ?k"
  have bi: "bucket_index (icache_callbacks v') (tbl ?h) ?k = ?b" by (simp add: bucket_index_def)
  have idx: "unat ?b < length (heads ?h)" by (rule ht_ok_index [OF ok])
  have "p \<in> set (f (heads ?h ! unat ?b))"
    by (rule ht_ok_node [OF ok i(1)]) (use i in auto)
  then obtain xs ys where xs: "f (heads ?h ! unat ?b) = xs @ p # ys" "p \<notin> set xs" by (auto dest: split_list_first)
  have seg: "seg (store ?h) (heads ?h ! unat ?b) (xs @ p # ys) (heads ?h ! unat ?b)" "heads ?h ! unat ?b \<notin> set (xs @ [p])"
    using lists_ok_dll [OF ht_okD(3) [OF ok], of "heads ?h ! unat ?b"] idx xs by (auto simp: dll_def)
  have other: "has_key (icache_callbacks v') ?k x = Return False" if x: "x \<in> set xs" for x
  proof -
    have xm: "x \<in> members ?h f" by (rule members_I [OF idx]) (simp add: xs x)
    then obtain j where j: "inodes v x = Some j" using ht_ok_node [OF ok xm] by auto
    have "x \<noteq> p" using x xs(2) by auto
    then have "\<not> holds ?cb ?h f ?k x"
      using ic.holds_unique [OF ok icache_callbacks_simps(1,2) TrueI, of ?k x p] assms(2) by (auto simp: holds_icache)
    then have "\<not> (i_superblock j = q \<and> i_ino j = ino)" using j xm by (simp add: holds_icache cached_def)
    then show ?thesis
      using j \<open>x \<noteq> p\<close> by (simp add: has_key_def icache_callbacks_def icache_getkey_def inode_at_def v' icache_equal_def)
  qed
  have "has_key (icache_callbacks v') ?k p = Fault"
    by (simp add: has_key_def icache_callbacks_def icache_getkey_def inode_at_def v')
  then have "in_bucket (has_key (icache_callbacks v') ?k) ?h ?b = Some Fault"
    using find_node_fault [OF seg other] bucket_heads [OF ht_okD(1) [OF ok] idx] by (simp add: in_bucket_def)
  then show ?thesis by (simp add: icache_lookup_def hashtable_lookup_def v'(2) bi)
qed

text \<open>The cache with one inode, number 7 of the superblock at 4096.\<close>

lemma demo_cached:
  "\<exists>v g. icache_ok v g \<and> cached v g 8192 4096 7 \<and> supers v = [4096 \<mapsto> demo_super] \<and> inodes v 8192 = Some (zero_inode\<lparr>i_superblock := 4096, i_ino := 7\<rparr>)"
proof -
  define v where "v = upd_inode 8192 (zero_inode\<lparr>i_superblock := 4096, i_ino := 7\<rparr>) demo_vfs"
  have ok: "icache_ok v (\<lambda>_. [])"
    using demo_vfs_cache(1,2) by (simp add: v_def icache_ok_def ht_ok_def)
  have i: "inodes v 8192 = Some (zero_inode\<lparr>i_superblock := 4096, i_ino := 7\<rparr>)" by (simp add: v_def)
  have "\<exists>v' g. icache_insert None 8192 v = Some (Return v') \<and> icache_ok v' g \<and> inodes v' = inodes v \<and> supers v' = supers v \<and>
      members (inode_hashtable v') g =
        (if \<exists>m. cached v (\<lambda>_. []) m (i_superblock (zero_inode\<lparr>i_superblock := 4096, i_ino := 7\<rparr>)) (i_ino (zero_inode\<lparr>i_superblock := 4096, i_ino := 7\<rparr>))
         then members (inode_hashtable v) (\<lambda>_. []) else insert 8192 (members (inode_hashtable v) (\<lambda>_. [])))"
    by (rule icache_insert_cached [OF ok i])
      (simp_all add: PTR_IS_INVALID_def PTR_IS_ERROR_def v_def list_nodes_def demo_vfs_cache(3,4) in_addrs hashtable_count_def threshold_def)
  then obtain v' g where "icache_ok v' g" "inodes v' = inodes v" "supers v' = supers v" "members (inode_hashtable v') g = {8192}"
    by (auto simp: cached_def v_def demo_vfs_cache(2))
  then show ?thesis by (intro exI [of _ v'] exI [of _ g]) (simp add: cached_def v_def)
qed

theorem evict_inode_dangling_witness:
  "\<exists>v f v'. icache_ok v f \<and> cached v f 8192 4096 7 \<and> evict_inode None 8192 v = Return v' \<and> icache_lookup 4096 7 v' = Some Fault"
proof -
  obtain v g where v: "icache_ok v g" "cached v g 8192 4096 7" "supers v = [4096 \<mapsto> demo_super]"
      "inodes v 8192 = Some (zero_inode\<lparr>i_superblock := 4096, i_ino := 7\<rparr>)"
    using demo_cached by (elim exE conjE)
  have m: "methods_ok None" by (simp add: methods_ok_def)
  obtain v' where v': "evict_inode None 8192 v = Return v'"
    using v(3,4) by (simp add: evict_inode_def inode_free_def inode_at_def super_at_def Let_def zero_inode_def)
  from evict_inode_dangling [OF v(1,2) m v'] v(1,2) v' show ?thesis by (intro exI conjI)
qed

lemma icache_lookup_miss:
  assumes "icache_ok v f" "\<nexists>p. cached v f p q ino"
  shows "icache_lookup q ino v = Some (Return (NULL, v))"
proof (rule icache_lookup_cached [OF assms(1), of q ino])
  fix r
  assume r: "\<And>p. p \<noteq> NULL \<Longrightarrow> r = p \<longleftrightarrow> cached v f p q ino"
    "r = NULL \<Longrightarrow> icache_lookup q ino v = Some (Return (NULL, v))"
  have "r = NULL" using r(1) [of r] assms(2) by auto
  then show ?thesis by (rule r(2))
qed

lemma icache_ok_new_inode:
  assumes "inode_hashtable v1 = inode_hashtable v" "inodes v1 = (inodes v)(p := Some i)"
    and "p \<notin> members (inode_hashtable v) f" "icache_ok v f"
  shows "icache_ok v1 f"
proof -
  have "embeds (icache_callbacks v1) m k \<longleftrightarrow> embeds (icache_callbacks v) m k" if "m \<in> members (inode_hashtable v) f" for m k
    using that assms(3) by (auto simp: assms(2))
  then show ?thesis using assms(4) members_I [of _ "inode_hashtable v" _ f]
    unfolding icache_ok_def ht_ok_def assms(1) by (simp add: bucket_index_def)
qed





end
