(* ===== verification/Pid.thy ===== *)
theory Pid
  imports Prelude
begin

text \<open>
  The PID allocator (\<^verbatim>\<open>kernel/sched/pid.c\<close>, \<^verbatim>\<open>include/kernel/sched/pid.h\<close>): a
  bitmap of 8192 bits and a rotating cursor. Abstractly it is a set of live PIDs; the
  refinement lemmas relate the bitmap operations to that set. The lock
  \<^verbatim>\<open>manager.lock\<close> makes each operation one atomic step and has no field here.
\<close>

section \<open>Model\<close>

abbreviation PID_MAX :: int where
  "PID_MAX \<equiv> 8192"

record pid_manager =
  next_pid :: int
  pid_map :: "u8 list"

definition pid_init :: pid_manager where
  "pid_init = \<lparr>next_pid = 1, pid_map = replicate 1024 0\<rparr>"

text \<open>
  The loop of \<^verbatim>\<open>pid_alloc\<close> from iteration \<open>i\<close> on. The result is \<open>- EAGAIN\<close> when the
  loop ends without a free bit.
\<close>

function pid_alloc_loop :: "pid_manager \<Rightarrow> int \<Rightarrow> int \<times> pid_manager" where
  "pid_alloc_loop mgr i =
     (if i < PID_MAX then
        let current_pid = (next_pid mgr + i) mod PID_MAX;
            byte_idx = nat (current_pid div 8);
            bit_idx = nat (current_pid mod 8)
        in if current_pid = 0 then pid_alloc_loop mgr (i + 1)
           else if pid_map mgr ! byte_idx AND push_bit bit_idx 1 = 0
           then (current_pid,
                 mgr\<lparr>pid_map := (pid_map mgr)
                        [byte_idx := pid_map mgr ! byte_idx OR push_bit bit_idx 1],
                     next_pid := (current_pid + 1) mod PID_MAX\<rparr>)
           else pid_alloc_loop mgr (i + 1)
      else (- EAGAIN, mgr))"
  by pat_completeness auto
termination
  by (relation "measure (\<lambda>(mgr, i). nat (PID_MAX - i))") simp_all

declare pid_alloc_loop.simps [simp del]

definition pid_alloc :: "pid_manager \<Rightarrow> int \<times> pid_manager" where
  "pid_alloc mgr = pid_alloc_loop mgr 0"

text \<open>
  \<^verbatim>\<open>pid_free\<close> tests the range, but \<^verbatim>\<open>panic\<close> is empty and it goes on: a PID below 0 or from
  \<^verbatim>\<open>PID_MAX\<close> on leads outside the bitmap.
\<close>

definition pid_free :: "int \<Rightarrow> pid_manager \<Rightarrow> pid_manager outcome" where
  "pid_free pid mgr =
     (if pid < 0 \<or> pid \<ge> PID_MAX then Fault
      else let byte_idx = nat (pid div 8); bit_idx = nat (pid mod 8)
           in Return (mgr\<lparr>pid_map := (pid_map mgr)
                [byte_idx := pid_map mgr ! byte_idx AND NOT (push_bit bit_idx 1)]\<rparr>))"

section \<open>Specification\<close>

text \<open>The set of PIDs the bitmap marks as live.\<close>

definition live :: "pid_manager \<Rightarrow> int set" where
  "live mgr = {p. 0 < p \<and> p < PID_MAX \<and> wa_test (pid_map mgr) (nat p)}"

definition pid_inv :: "pid_manager \<Rightarrow> bool" where
  "pid_inv mgr \<longleftrightarrow> length (pid_map mgr) = 1024 \<and> 0 \<le> next_pid mgr \<and> next_pid mgr < PID_MAX"

section \<open>Lemmas\<close>

lemma pid_inv_cap: "pid_inv mgr \<Longrightarrow> wa_cap (pid_map mgr) = 8192"
  by (simp add: pid_inv_def wa_cap_def)

lemma nat_div_mod_8: "0 \<le> p \<Longrightarrow> nat (p div 8) = nat p div 8 \<and> nat (p mod 8) = nat p mod 8"
  by (simp add: nat_div_distrib nat_mod_distrib)

text \<open>The bit operations of the source are those of the bit array layout.\<close>

lemma pid_bit_test:
  assumes "0 \<le> p"
  shows "(bm ! nat (p div 8) AND push_bit (nat (p mod 8)) 1 = (0::u8)) \<longleftrightarrow> \<not> wa_test bm (nat p)"
  using assms by (simp add: wa_test_def nat_div_mod_8 bit_iff_and_push_bit_not_eq_0)

lemma pid_bit_set:
  assumes "0 \<le> p"
  shows "bm[nat (p div 8) := bm ! nat (p div 8) OR push_bit (nat (p mod 8)) (1::u8)] = wa_set bm (nat p)"
  using assms by (simp add: wa_set_def nat_div_mod_8)

lemma pid_bit_clear:
  assumes "0 \<le> p"
  shows "bm[nat (p div 8) := bm ! nat (p div 8) AND NOT (push_bit (nat (p mod 8)) (1::u8))] = wa_clear bm (nat p)"
  using assms by (simp add: wa_clear_def nat_div_mod_8)

text \<open>
  The candidate of iteration \<open>j\<close>, whether it can be handed out, and the state after
  handing it out.
\<close>

definition cand :: "pid_manager \<Rightarrow> int \<Rightarrow> int" where
  "cand mgr j = (next_pid mgr + j) mod PID_MAX"

definition usable :: "pid_manager \<Rightarrow> int \<Rightarrow> bool" where
  "usable mgr p \<longleftrightarrow> p \<noteq> 0 \<and> \<not> wa_test (pid_map mgr) (nat p)"

definition take_pid :: "int \<Rightarrow> pid_manager \<Rightarrow> pid_manager" where
  "take_pid p mgr = mgr\<lparr>pid_map := wa_set (pid_map mgr) (nat p), next_pid := (p + 1) mod PID_MAX\<rparr>"

lemma cand_range: "0 \<le> cand mgr j" "cand mgr j < PID_MAX"
  by (simp_all add: cand_def)

lemma pid_alloc_loop_step:
  "pid_alloc_loop mgr i =
     (if i < PID_MAX then
        if usable mgr (cand mgr i) then (cand mgr i, take_pid (cand mgr i) mgr)
        else pid_alloc_loop mgr (i + 1)
      else (- EAGAIN, mgr))"
  by (subst pid_alloc_loop.simps)
     (simp add: Let_def pid_bit_test pid_bit_set usable_def cand_def take_pid_def del: push_bit_of_1)

lemma pid_alloc_loop_hit:
  "i \<le> j \<Longrightarrow> j < PID_MAX \<Longrightarrow> usable mgr (cand mgr j) \<Longrightarrow>
   (\<And>k. i \<le> k \<Longrightarrow> k < j \<Longrightarrow> \<not> usable mgr (cand mgr k)) \<Longrightarrow>
   pid_alloc_loop mgr i = (cand mgr j, take_pid (cand mgr j) mgr)"
proof (induction "nat (j - i)" arbitrary: i)
  case 0
  then have "i = j" by simp
  with 0 show ?case by (simp add: pid_alloc_loop_step [of mgr j])
next
  case (Suc n)
  then have lt: "i < j" by simp
  with Suc.prems have "\<not> usable mgr (cand mgr i)" by simp
  with lt Suc.prems have "pid_alloc_loop mgr i = pid_alloc_loop mgr (i + 1)"
    by (simp add: pid_alloc_loop_step [of mgr i])
  also have "\<dots> = (cand mgr j, take_pid (cand mgr j) mgr)"
    using Suc.hyps(2) lt Suc.prems by (intro Suc.hyps(1)) simp_all
  finally show ?case .
qed

lemma pid_alloc_loop_miss:
  "(\<And>k. i \<le> k \<Longrightarrow> k < PID_MAX \<Longrightarrow> \<not> usable mgr (cand mgr k)) \<Longrightarrow>
   pid_alloc_loop mgr i = (- EAGAIN, mgr)"
proof (induction "nat (PID_MAX - i)" arbitrary: i)
  case 0
  then show ?case by (simp add: pid_alloc_loop_step [of mgr i])
next
  case (Suc n)
  then have lt: "i < PID_MAX" by simp
  with Suc.prems have "\<not> usable mgr (cand mgr i)" by simp
  with lt have "pid_alloc_loop mgr i = pid_alloc_loop mgr (i + 1)"
    by (simp add: pid_alloc_loop_step [of mgr i])
  also have "\<dots> = (- EAGAIN, mgr)"
    using Suc.hyps(2) lt Suc.prems by (intro Suc.hyps(1)) simp_all
  finally show ?case .
qed

text \<open>The candidates of one round are all the PIDs.\<close>

lemma cand_surj:
  assumes "pid_inv mgr" "0 \<le> p" "p < PID_MAX"
  shows "\<exists>j. 0 \<le> j \<and> j < PID_MAX \<and> cand mgr j = p"
proof -
  have "0 \<le> (p - next_pid mgr) mod PID_MAX" "(p - next_pid mgr) mod PID_MAX < PID_MAX" by simp_all
  moreover have "cand mgr ((p - next_pid mgr) mod PID_MAX) = p"
    using assms by (simp add: cand_def mod_add_right_eq)
  ultimately show ?thesis by blast
qed

lemma usable_iff:
  "pid_inv mgr \<Longrightarrow> 0 \<le> p \<Longrightarrow> p < PID_MAX \<Longrightarrow> usable mgr p \<longleftrightarrow> 0 < p \<and> p \<notin> live mgr"
  by (auto simp: usable_def live_def)

lemma pid_alloc_cases:
  assumes inv: "pid_inv mgr"
  obtains (hit) p where "0 < p" "p < PID_MAX" "p \<notin> live mgr" "pid_alloc mgr = (p, take_pid p mgr)"
        | (full) "live mgr = {1..<PID_MAX}" "pid_alloc mgr = (- EAGAIN, mgr)"
proof (cases "\<exists>n. int n < PID_MAX \<and> usable mgr (cand mgr (int n))")
  case True
  define n where "n = (LEAST n. int n < PID_MAX \<and> usable mgr (cand mgr (int n)))"
  from LeastI_ex [OF True] have n: "int n < PID_MAX" "usable mgr (cand mgr (int n))"
    by (simp_all add: n_def)
  have least: "\<not> usable mgr (cand mgr k)" if "0 \<le> k" "k < int n" for k
  proof -
    from that have "nat k < n" by simp
    from not_less_Least [OF this [unfolded n_def]] that n(1) show ?thesis by simp
  qed
  from n least have "pid_alloc mgr = (cand mgr (int n), take_pid (cand mgr (int n)) mgr)"
    unfolding pid_alloc_def by (intro pid_alloc_loop_hit) auto
  with n inv show thesis using cand_range [of mgr "int n"] by (intro hit) (auto simp: usable_iff)
next
  case False
  then have none: "\<not> usable mgr (cand mgr k)" if "0 \<le> k" "k < PID_MAX" for k
  proof -
    from False have "\<not> (int (nat k) < PID_MAX \<and> usable mgr (cand mgr (int (nat k))))" by blast
    with that show ?thesis by simp
  qed
  then have "pid_alloc mgr = (- EAGAIN, mgr)"
    unfolding pid_alloc_def by (intro pid_alloc_loop_miss) auto
  moreover have "p \<in> live mgr" if "1 \<le> p" "p < PID_MAX" for p
  proof -
    from that cand_surj [OF inv, of p] obtain j where "0 \<le> j" "j < PID_MAX" "cand mgr j = p" by auto
    with none have "\<not> usable mgr p" by blast
    with that show ?thesis by (simp add: usable_iff [OF inv])
  qed
  then have "live mgr = {1..<PID_MAX}" by (auto simp: live_def)
  ultimately show thesis by (intro full)
qed

lemma live_take_pid:
  assumes "pid_inv mgr" "0 < p" "p < PID_MAX"
  shows "live (take_pid p mgr) = insert p (live mgr)"
proof -
  have "wa_test (wa_set (pid_map mgr) (nat p)) (nat q) \<longleftrightarrow> q = p \<or> wa_test (pid_map mgr) (nat q)"
    if "0 < q" "q < PID_MAX" for q
    using assms that pid_inv_cap [OF assms(1)] by (subst wa_test_set) auto
  with assms show ?thesis by (auto simp: live_def take_pid_def)
qed

lemma pid_inv_init: "pid_inv pid_init"
  by (simp add: pid_inv_def pid_init_def)

lemma live_init: "live pid_init = {}"
  by (auto simp: live_def pid_init_def)

lemma pid_inv_take_pid: "pid_inv mgr \<Longrightarrow> pid_inv (take_pid p mgr)"
  by (simp add: pid_inv_def take_pid_def)

lemma pid_inv_alloc: "pid_inv mgr \<Longrightarrow> pid_inv (snd (pid_alloc mgr))"
  by (rule pid_alloc_cases [of mgr]) (auto simp: pid_inv_take_pid)

lemma pid_free_eq:
  "0 < p \<Longrightarrow> p < PID_MAX \<Longrightarrow> pid_free p mgr = Return (mgr\<lparr>pid_map := wa_clear (pid_map mgr) (nat p)\<rparr>)"
  by (simp add: pid_free_def pid_bit_clear Let_def del: push_bit_of_1)

lemma pid_inv_free: "pid_inv mgr \<Longrightarrow> pid_free p mgr = Return mgr' \<Longrightarrow> pid_inv mgr'"
  by (auto simp: pid_inv_def pid_free_def Let_def split: if_splits)

lemma live_free:
  assumes "pid_inv mgr" "0 < p" "p < PID_MAX" "pid_free p mgr = Return mgr'"
  shows "live mgr' = live mgr - {p}"
proof -
  have "wa_test (wa_clear (pid_map mgr) (nat p)) (nat q) \<longleftrightarrow> q \<noteq> p \<and> wa_test (pid_map mgr) (nat q)"
    if "0 < q" "q < PID_MAX" for q
    using assms that pid_inv_cap [OF assms(1)] by (subst wa_test_clear) auto
  with assms(2-4) show ?thesis by (auto simp: live_def pid_free_eq)
qed

section \<open>The allocator as a state machine\<close>

text \<open>
  Runs of the allocator, with a ledger of the PIDs their owners still hold: an allocation
  that returns a PID adds it, one that fails changes nothing, and only a held PID is freed.
\<close>

inductive pid_run :: "pid_manager \<Rightarrow> int set \<Rightarrow> bool" where
  init: "pid_run pid_init {}"
| alloc: "pid_run mgr held \<Longrightarrow> pid_alloc mgr = (p, mgr') \<Longrightarrow> 0 < p \<Longrightarrow> pid_run mgr' (insert p held)"
| full: "pid_run mgr held \<Longrightarrow> pid_alloc mgr = (p, mgr') \<Longrightarrow> p < 0 \<Longrightarrow> pid_run mgr' held"
| free: "pid_run mgr held \<Longrightarrow> p \<in> held \<Longrightarrow> pid_free p mgr = Return mgr' \<Longrightarrow> pid_run mgr' (held - {p})"

lemma pid_run_inv: "pid_run mgr held \<Longrightarrow> pid_inv mgr \<and> held = live mgr"
proof (induction rule: pid_run.induct)
  case init
  show ?case by (simp add: pid_inv_init live_init)
next
  case (alloc mgr held p mgr')
  then have inv: "pid_inv mgr" by blast
  show ?case
    by (rule pid_alloc_cases [OF inv])
       (use alloc inv in \<open>auto simp: pid_inv_take_pid live_take_pid\<close>)
next
  case (full mgr held p mgr')
  then have inv: "pid_inv mgr" by blast
  show ?case
    by (rule pid_alloc_cases [OF inv]) (use full in auto)
next
  case (free mgr held p mgr')
  then have "0 < p" "p < PID_MAX" by (auto simp: live_def)
  with free show ?case by (auto simp: pid_inv_free live_free)
qed

section \<open>Properties\<close>

text \<open>
  C10. \<^verbatim>\<open>pid_alloc\<close> refines allocation from the set of live PIDs: if every PID from 1 to
  8191 is live it returns \<open>- EAGAIN\<close> and changes nothing; otherwise it returns a PID in
  that range that was not live, and exactly that PID becomes live. PID 0 is never handed
  out, and the search does not give up while a PID is free.
\<close>

theorem pid_alloc_spec:
  assumes "pid_inv mgr"
  shows "pid_inv (snd (pid_alloc mgr)) \<and>
         (if live mgr = {1..<PID_MAX} then pid_alloc mgr = (- EAGAIN, mgr)
          else fst (pid_alloc mgr) \<in> {1..<PID_MAX} - live mgr \<and>
               live (snd (pid_alloc mgr)) = insert (fst (pid_alloc mgr)) (live mgr))"
proof (rule pid_alloc_cases [OF assms])
  fix p
  assume p: "0 < p" "p < PID_MAX" "p \<notin> live mgr" "pid_alloc mgr = (p, take_pid p mgr)"
  then have "live mgr \<noteq> {1..<PID_MAX}" by force
  with p assms show ?thesis by (simp add: live_take_pid pid_inv_take_pid)
next
  assume "live mgr = {1..<PID_MAX}" "pid_alloc mgr = (- EAGAIN, mgr)"
  with assms show ?thesis by simp
qed

theorem pid_alloc_spec_witness:
  "pid_inv pid_init \<and> live pid_init \<noteq> {1..<PID_MAX} \<and>
   fst (pid_alloc pid_init) \<in> {1..<PID_MAX} - live pid_init"
proof -
  have h: "live pid_init \<noteq> {1..<PID_MAX}" by (simp add: live_init)
  show ?thesis using pid_inv_init h pid_alloc_spec [OF pid_inv_init] by simp
qed

text \<open>
  \<^verbatim>\<open>pid_free\<close> outside 0 to 8191 reaches beyond the bitmap (the test at its start has no effect);
  inside, it returns and removes exactly that
  PID from the live set, so freeing what \<^verbatim>\<open>pid_alloc\<close> returned restores the live set.
\<close>

theorem pid_free_spec:
  assumes "pid_inv mgr"
  shows "(pid_free p mgr = Fault \<longleftrightarrow> p \<notin> {0..<PID_MAX}) \<and>
         (p \<in> {1..<PID_MAX} \<longrightarrow>
            (\<exists>mgr'. pid_free p mgr = Return mgr' \<and> pid_inv mgr' \<and> live mgr' = live mgr - {p}))"
proof (cases "p \<in> {1..<PID_MAX}")
  case True
  then have p: "0 < p" "p < PID_MAX" by auto
  then obtain mgr' where r: "pid_free p mgr = Return mgr'" by (simp add: pid_free_eq)
  with p assms True show ?thesis by (auto simp: pid_inv_free live_free)
next
  case False
  then show ?thesis by (auto simp: pid_free_def)
qed

theorem pid_free_spec_witness:
  "pid_inv pid_init \<and> pid_free (- EAGAIN) pid_init = Fault \<and>
   (\<exists>mgr'. pid_free 5 pid_init = Return mgr' \<and> live mgr' = live pid_init - {5})"
  using pid_free_spec [OF pid_inv_init, of "- EAGAIN"] pid_free_spec [OF pid_inv_init, of 5] pid_inv_init by auto

text \<open>
  C30. In every run of the allocator, a PID it returns is not held by any current owner:
  two live processes never share a PID.
\<close>

theorem pid_run_unique:
  assumes "pid_run mgr held" "pid_alloc mgr = (p, mgr')" "0 < p"
  shows "p \<notin> held"
proof -
  from pid_run_inv [OF assms(1)] have inv: "pid_inv mgr" and held: "held = live mgr" by auto
  show ?thesis by (rule pid_alloc_cases [OF inv]) (use assms held in auto)
qed

theorem pid_run_unique_witness:
  "\<exists>p mgr'. pid_run pid_init {} \<and> pid_alloc pid_init = (p, mgr') \<and> 0 < p \<and> p \<notin> {}"
proof -
  obtain p mgr' where e: "pid_alloc pid_init = (p, mgr')" by fastforce
  have "0 < p"
    by (rule pid_alloc_cases [OF pid_inv_init]) (use e live_init in auto)
  with e pid_run_unique [OF pid_run.init e] show ?thesis by (blast intro: pid_run.init)
qed

end
