(* ===== verification/Sched.thy ===== *)
theory Sched
  imports Pid Klist
begin

text \<open>
  The process table and the scheduler: \<^verbatim>\<open>kernel/sched/sched.c\<close>, \<^verbatim>\<open>kernel/sched/process.c\<close> and
  \<^verbatim>\<open>include/kernel/sched/process.h\<close>. Task structures are objects in a store, the table
  \<^verbatim>\<open>procs\<close> holds their addresses, and the ready queue is the sequence of tasks its list head
  leads to (see theory Klist). Memory and the objects other subsystems make for a new
  process are parameters. The registers that \<^verbatim>\<open>store_all_registers\<close>,
  \<^verbatim>\<open>restore_all_registers\<close> and \<^verbatim>\<open>return_to_user\<close> move are not modelled: \<^verbatim>\<open>schedule\<close> says which
  context is resumed.
\<close>

section \<open>Data\<close>

abbreviation NPROC :: nat where "NPROC \<equiv> 32"
abbreviation (input) TASK_RUNNING :: u32 where "TASK_RUNNING \<equiv> 0"
abbreviation TASK_INTERRUPTIBLE :: u32 where "TASK_INTERRUPTIBLE \<equiv> 1"
abbreviation TASK_UNINTERRUPTIBLE :: u32 where "TASK_UNINTERRUPTIBLE \<equiv> 2"
abbreviation TASK_DEAD :: u32 where "TASK_DEAD \<equiv> 0x80"

abbreviation (input) SIG_DFL :: u64 where "SIG_DFL \<equiv> 0"
abbreviation (input) SIG_IGN :: u64 where "SIG_IGN \<equiv> 1"

text \<open>A signal set: the sixteen 64-bit words of \<^verbatim>\<open>sigset_t\<close>.\<close>

type_synonym sigset_t = "u64 list"

record sigaction =
  sa_handler :: u64
  sa_mask :: sigset_t
  sa_flags :: u32
  sa_restorer :: u64

record task_struct =
  kstack :: u64
  trapframe :: ptr
  ktrapframe :: ptr
  task_mm :: ptr
  task_fs :: ptr
  task_fdtable :: ptr
  task_pid :: int
  task_state :: u32
  task_flags :: u32
  parent :: ptr
  tick_count :: int
  pending :: sigset_t
  blocked :: sigset_t
  sighand :: "sigaction list"
  egid :: int

record sched =
  tasks :: "ptr \<Rightarrow> task_struct option"
  procs :: "ptr list"
  ready_queue :: "ptr list"
  current :: ptr
  manager :: pid_manager

text \<open>A structure after \<^verbatim>\<open>memset\<close> with 0.\<close>

definition empty_sigset :: sigset_t where
  "empty_sigset = replicate 16 0"

definition zero_sigaction :: sigaction where
  "zero_sigaction = \<lparr>sa_handler = 0, sa_mask = empty_sigset, sa_flags = 0, sa_restorer = 0\<rparr>"

definition zero_task :: task_struct where
  "zero_task = \<lparr>kstack = 0, trapframe = NULL, ktrapframe = NULL, task_mm = NULL, task_fs = NULL,
     task_fdtable = NULL, task_pid = 0, task_state = 0, task_flags = 0, parent = NULL, tick_count = 0,
     pending = empty_sigset, blocked = empty_sigset, sighand = replicate 64 zero_sigaction, egid = 0\<rparr>"

section \<open>Operations\<close>

definition init_scheduler :: "sched \<Rightarrow> sched" where
  "init_scheduler s = s\<lparr>ready_queue := [], manager := pid_init, procs := replicate NPROC NULL\<rparr>"

text \<open>The loop of \<^verbatim>\<open>alloc_empty_process\<close>: the first free slot of the table.\<close>

fun free_slot :: "ptr list \<Rightarrow> nat \<Rightarrow> nat option" where
  "free_slot [] i = None"
| "free_slot (p # ps) i = (if p = NULL then Some i else free_slot ps (i + 1))"

text \<open>
  \<open>p\<close> is what \<^verbatim>\<open>kmalloc\<close> returns; the result of \<^verbatim>\<open>kmalloc\<close> is not tested before the \<^verbatim>\<open>memset\<close>.
\<close>

definition alloc_empty_process :: "ptr \<Rightarrow> sched \<Rightarrow> (ptr \<times> sched) outcome" where
  "alloc_empty_process p s =
     (case free_slot (procs s) 0 of
        None \<Rightarrow> Return (NULL, s)
      | Some i \<Rightarrow>
          if p = NULL then Fault
          else Return (p, s\<lparr>procs := (procs s)[i := p], tasks := (tasks s)(p \<mapsto> zero_task)\<rparr>))"

text \<open>What the other subsystems hand to \<^verbatim>\<open>alloc_process\<close>.\<close>

record process_parts =
  new_task :: ptr
  new_kstack :: u64
  new_trapframe :: ptr
  new_mm :: ptr
  new_fs :: ptr
  new_fdtable :: ptr

definition alloc_process :: "process_parts \<Rightarrow> sched \<Rightarrow> (ptr \<times> sched) outcome" where
  "alloc_process parts s =
     bind_outcome (alloc_empty_process (new_task parts) s)
       (\<lambda>(ps, s1).
          if ps = NULL then Fault
          else case pid_alloc (manager s1) of
            (pid, mgr) \<Rightarrow>
              Return (ps, s1\<lparr>manager := mgr,
                tasks := (tasks s1)(ps \<mapsto> zero_task
                  \<lparr>kstack := new_kstack parts, trapframe := new_trapframe parts, ktrapframe := NULL,
                   task_mm := new_mm parts, task_fs := new_fs parts, task_fdtable := new_fdtable parts,
                   task_pid := pid, tick_count := 0, pending := empty_sigset, blocked := empty_sigset,
                   sighand := map (\<lambda>sa. sa\<lparr>sa_handler := SIG_DFL\<rparr>) (replicate 64 zero_sigaction)\<rparr>)\<rparr>))"

text \<open>\<^verbatim>\<open>find_process_by_pid\<close>: \<open>NULL\<close> when there is none.\<close>

fun find_pid_loop :: "(ptr \<Rightarrow> task_struct option) \<Rightarrow> ptr list \<Rightarrow> int \<Rightarrow> ptr outcome" where
  "find_pid_loop st [] pid = Return NULL"
| "find_pid_loop st (p # ps) pid =
     (if p = NULL then find_pid_loop st ps pid
      else case st p of
             None \<Rightarrow> Fault
           | Some t \<Rightarrow> if task_pid t = pid then Return p else find_pid_loop st ps pid)"

definition find_process_by_pid :: "sched \<Rightarrow> int \<Rightarrow> ptr outcome" where
  "find_process_by_pid s pid = (if pid \<le> 0 then Return NULL else find_pid_loop (tasks s) (procs s) pid)"

text \<open>\<^verbatim>\<open>insert_to_ready_queue\<close> reads the PID for its message and calls \<^verbatim>\<open>list_add\<close>.\<close>

definition insert_to_ready_queue :: "ptr \<Rightarrow> sched \<Rightarrow> sched outcome" where
  "insert_to_ready_queue p s =
     (case tasks s p of
        None \<Rightarrow> Fault
      | Some t \<Rightarrow> Return (s\<lparr>ready_queue := p # ready_queue s\<rparr>))"

text \<open>The context that runs after \<^verbatim>\<open>schedule\<close>: a saved kernel frame, or a task in user mode.\<close>

datatype resume = Resume_kernel ptr | Return_to_user ptr

definition switch_to :: "ptr \<Rightarrow> sched \<Rightarrow> (resume \<times> sched) outcome" where
  "switch_to p s =
     (if p = NULL then Fault
      else case tasks s p of
             None \<Rightarrow> Fault
           | Some t \<Rightarrow> Return (Return_to_user p, s\<lparr>current := p\<rparr>))"

text \<open>
  \<open>frame\<close> is what \<^verbatim>\<open>kmalloc\<close> returns for a kernel frame and \<open>rq\<close> the address
  \<^verbatim>\<open>container_of\<close> computes from the head of the ready queue, which becomes \<^verbatim>\<open>CURRENT\<close> when
  the queue is empty.
\<close>

definition schedule :: "ptr \<Rightarrow> ptr \<Rightarrow> sched \<Rightarrow> (resume \<times> sched) outcome" where
  "schedule rq frame s =
     (let cur = current s;
          blocking = (case tasks s cur of
                        Some t \<Rightarrow> cur \<noteq> NULL \<and>
                          (task_state t = TASK_INTERRUPTIBLE \<or> task_state t = TASK_UNINTERRUPTIBLE) \<and> ktrapframe t = NULL
                      | None \<Rightarrow> False);
          s1 = (if blocking
                then s\<lparr>tasks := (tasks s)(cur := map_option (\<lambda>t. t\<lparr>ktrapframe := frame\<rparr>) (tasks s cur))\<rparr> else s);
          s2 = s1\<lparr>current := (case ready_queue s1 of [] \<Rightarrow> rq | p # q \<Rightarrow> p), ready_queue := tl (ready_queue s1)\<rparr>
      in if blocking \<and> frame = NULL then Fault
         else case tasks s2 cur of
           None \<Rightarrow> Fault
         | Some t \<Rightarrow>
             if ktrapframe t \<noteq> NULL
             then Return (Resume_kernel (ktrapframe t), s2\<lparr>tasks := (tasks s2)(cur \<mapsto> t\<lparr>ktrapframe := NULL\<rparr>)\<rparr>)
             else switch_to cur s2)"

text \<open>
  The scan of \<^verbatim>\<open>do_wait(-1)\<close> for a dead child of the task \<open>me\<close>: the index of its slot. An
  empty slot is dereferenced.
\<close>

fun wait_scan :: "(ptr \<Rightarrow> task_struct option) \<Rightarrow> task_struct option \<Rightarrow> ptr list \<Rightarrow> nat \<Rightarrow> nat option outcome" where
  "wait_scan st me [] i = Return None"
| "wait_scan st me (p # ps) i =
     (if p = NULL then Fault
      else case st p of
        None \<Rightarrow> Fault
      | Some t \<Rightarrow>
          if parent t = NULL then wait_scan st me ps (i + 1)
          else case (st (parent t), me) of
            (Some q, Some c) \<Rightarrow>
              if task_pid q = task_pid c \<and> task_state t AND TASK_DEAD \<noteq> 0 then Return (Some i)
              else wait_scan st me ps (i + 1)
          | _ \<Rightarrow> Fault)"

text \<open>The loop around the scan; the scan changes nothing, so it runs for ever (\<open>None\<close>) or not at all.\<close>

partial_function (option) wait_any :: "sched \<Rightarrow> int outcome option" where
  "wait_any s =
     (case wait_scan (tasks s) (tasks s (current s)) (procs s) 0 of
        Return (Some i) \<Rightarrow> Some (Return (int i))
      | Return None \<Rightarrow> wait_any s
      | Fault \<Rightarrow> Some Fault)"

definition do_wait :: "int \<Rightarrow> sched \<Rightarrow> int outcome option" where
  "do_wait pid s =
     (if pid = -1 then wait_any s
      else if 0 < pid \<and> pid < int NPROC then
        case tasks s (procs s ! nat pid) of
          None \<Rightarrow> Some Fault
        | Some t \<Rightarrow> if parent t \<noteq> current s then Some (Return (- 1)) else Some (Return pid)
      else Some (Return (- 1)))"

definition current_is_in_group :: "int \<Rightarrow> sched \<Rightarrow> int outcome" where
  "current_is_in_group gid s =
     (case tasks s (current s) of
        None \<Rightarrow> Fault
      | Some t \<Rightarrow> Return (if egid t = gid then 1 else 0))"

section \<open>Invariant of the process table\<close>

definition active :: "sched \<Rightarrow> ptr set" where
  "active s = {p \<in> set (procs s). p \<noteq> NULL}"

definition pid_of :: "sched \<Rightarrow> ptr \<Rightarrow> int" where
  "pid_of s p = (case tasks s p of None \<Rightarrow> 0 | Some t \<Rightarrow> task_pid t)"

text \<open>
  Every slot is empty or leads to a task; the positive PIDs of the tasks are live in the
  PID allocator and no two tasks share one.
\<close>

definition proc_inv :: "sched \<Rightarrow> bool" where
  "proc_inv s \<longleftrightarrow> length (procs s) = NPROC \<and> tasks s NULL = None \<and> pid_inv (manager s) \<and>
     (\<forall>p \<in> active s. tasks s p \<noteq> None \<and> (0 < pid_of s p \<longrightarrow> pid_of s p \<in> live (manager s))) \<and>
     (\<forall>p \<in> active s. \<forall>q \<in> active s. pid_of s p = pid_of s q \<and> 0 < pid_of s p \<longrightarrow> p = q)"

section \<open>Lemmas\<close>

lemma free_slot_Some:
  "free_slot ps k = Some i \<Longrightarrow> k \<le> i \<and> i - k < length ps \<and> ps ! (i - k) = NULL"
proof (induction ps k rule: free_slot.induct)
  case (2 p ps k)
  show ?case
  proof (cases "p = NULL")
    case False
    with 2 have "Suc k \<le> i \<and> i - Suc k < length ps \<and> ps ! (i - Suc k) = NULL" by simp
    then show ?thesis by (auto simp: nth_Cons' Suc_diff_le)
  qed (use 2 in auto)
qed simp

lemma free_slot_None: "free_slot ps k = None \<longleftrightarrow> NULL \<notin> set ps"
  by (induction ps k rule: free_slot.induct) auto

lemma find_pid_loop_ok:
  assumes "\<And>p. p \<in> set ps \<Longrightarrow> p \<noteq> NULL \<Longrightarrow> tasks s p \<noteq> None"
  shows "\<exists>r. find_pid_loop (tasks s) ps pid = Return r \<and>
    (if r = NULL then \<forall>p \<in> set ps. p \<noteq> NULL \<longrightarrow> pid_of s p \<noteq> pid
     else r \<in> set ps \<and> pid_of s r = pid)"
  using assms
proof (induction ps)
  case (Cons p ps)
  have "\<And>p. p \<in> set ps \<Longrightarrow> p \<noteq> NULL \<Longrightarrow> tasks s p \<noteq> None" by (rule Cons.prems) simp_all
  from Cons.IH [OF this] obtain r where r: "find_pid_loop (tasks s) ps pid = Return r"
    "if r = NULL then \<forall>p \<in> set ps. p \<noteq> NULL \<longrightarrow> pid_of s p \<noteq> pid else r \<in> set ps \<and> pid_of s r = pid" by blast
  show ?case
  proof (cases "p \<noteq> NULL \<and> pid_of s p = pid")
    case True
    then obtain t where "tasks s p = Some t" using Cons.prems [of p] by auto
    with True have "find_pid_loop (tasks s) (p # ps) pid = Return p" by (simp add: pid_of_def)
    with True show ?thesis by simp
  next
    case False
    have "find_pid_loop (tasks s) (p # ps) pid = Return r"
    proof (cases "p = NULL")
      case np: False
      then obtain t where "tasks s p = Some t" using Cons.prems [of p] by auto
      with np False r(1) show ?thesis by (simp add: pid_of_def)
    qed (simp add: r(1))
    with r(2) False show ?thesis by (cases "r = NULL") (simp_all del: find_pid_loop.simps, blast+)
  qed
qed simp

lemma find_process_by_pid_ok:
  assumes "proc_inv s" "0 < pid"
  shows "\<exists>r. find_process_by_pid s pid = Return r \<and>
    (if r = NULL then \<forall>p \<in> active s. pid_of s p \<noteq> pid else r \<in> active s \<and> pid_of s r = pid)"
proof -
  have "\<And>p. p \<in> set (procs s) \<Longrightarrow> p \<noteq> NULL \<Longrightarrow> tasks s p \<noteq> None"
    using assms(1) unfolding proc_inv_def active_def by blast
  from find_pid_loop_ok [OF this, where pid = pid] obtain r where
    "find_pid_loop (tasks s) (procs s) pid = Return r"
    "if r = NULL then \<forall>p \<in> set (procs s). p \<noteq> NULL \<longrightarrow> pid_of s p \<noteq> pid else r \<in> set (procs s) \<and> pid_of s r = pid"
    by blast
  with assms(2) show ?thesis
    by (intro exI [of _ r]) (auto simp: find_process_by_pid_def active_def split: if_splits)
qed

lemma find_process_by_pid_unique:
  assumes "proc_inv s" "p \<in> active s" "0 < pid_of s p"
  shows "find_process_by_pid s (pid_of s p) = Return p"
proof -
  from find_process_by_pid_ok [OF assms(1,3)] obtain r where
    r: "find_process_by_pid s (pid_of s p) = Return r" and
    c: "if r = NULL then \<forall>q \<in> active s. pid_of s q \<noteq> pid_of s p else r \<in> active s \<and> pid_of s r = pid_of s p"
    by blast
  then have "r \<in> active s \<and> pid_of s r = pid_of s p" using assms(2) by (auto split: if_splits)
  with assms r show ?thesis by (auto simp: proc_inv_def)
qed

lemma alloc_process_table:
  assumes inv: "proc_inv s" and free: "NULL \<in> set (procs s)" and new: "new_task parts \<noteq> NULL" "tasks s (new_task parts) = None"
    and pid: "pid_alloc (manager s) = (pid, mgr)"
  shows "\<exists>s'. alloc_process parts s = Return (new_task parts, s') \<and> active s' = insert (new_task parts) (active s) \<and>
    length (procs s') = NPROC \<and> tasks s' NULL = None \<and> manager s' = mgr \<and> pid_of s' (new_task parts) = pid \<and>
    tasks s' (new_task parts) \<noteq> None \<and> (\<forall>p. p \<noteq> new_task parts \<longrightarrow> tasks s' p = tasks s p)"
proof -
  let ?p = "new_task parts"
  from free obtain i where fs: "free_slot (procs s) 0 = Some i" using free_slot_None [of "procs s" 0] by auto
  from free_slot_Some [OF fs] have i: "i < length (procs s)" "procs s ! i = NULL" by auto
  have act: "{q \<in> set ((procs s)[i := ?p]). q \<noteq> NULL} = insert ?p (active s)"
    unfolding active_def by (rule set_update_hole) (use i new in auto)
  show ?thesis
    using inv new act i by (auto simp: alloc_process_def alloc_empty_process_def fs pid active_def pid_of_def proc_inv_def)
qed

lemma proc_inv_alloc:
  assumes inv: "proc_inv s" and new: "p \<notin> active s" "p \<noteq> NULL"
    and s': "active s' = insert p (active s)" "length (procs s') = NPROC" "tasks s' NULL = None"
      "manager s' = snd (pid_alloc (manager s))" "pid_of s' p = fst (pid_alloc (manager s))" "tasks s' p \<noteq> None"
      "\<And>q. q \<noteq> p \<Longrightarrow> tasks s' q = tasks s q"
  shows "proc_inv s'"
proof -
  let ?m = "manager s"
  have pinv: "pid_inv ?m" using inv by (simp add: proc_inv_def)
  have pid: "pid_of s' q = pid_of s q" if "q \<noteq> p" for q using s'(7) that by (simp add: pid_of_def)
  have act: "q \<noteq> p" if "q \<in> active s" for q using that new by auto
  have old: "tasks s q \<noteq> None" "0 < pid_of s q \<Longrightarrow> pid_of s q \<in> live ?m" if "q \<in> active s" for q
    using inv that by (auto simp: proc_inv_def)
  have fresh: "pid_of s' p \<in> live (manager s') \<and> pid_of s' p \<notin> live ?m \<and> live ?m \<subseteq> live (manager s')" if "0 < pid_of s' p"
    by (rule pid_alloc_cases [OF pinv]) (use that s' in \<open>auto simp: live_take_pid [OF pinv]\<close>)
  have mono: "live ?m \<subseteq> live (manager s')"
    by (rule pid_alloc_cases [OF pinv]) (use s' in \<open>auto simp: live_take_pid [OF pinv]\<close>)
  have ok: "tasks s' q \<noteq> None \<and> (0 < pid_of s' q \<longrightarrow> pid_of s' q \<in> live (manager s'))" if "q \<in> active s'" for q
  proof (cases "q = p")
    case False
    with that s'(1) have "q \<in> active s" by simp
    with old mono False show ?thesis using s'(7) pid by auto
  qed (use fresh s'(6) in auto)
  have uniq: "q = r" if "q \<in> active s'" "r \<in> active s'" "pid_of s' q = pid_of s' r" "0 < pid_of s' q" for q r
  proof -
    have "q \<in> active s" if "q \<in> active s'" "q \<noteq> p" for q using that s'(1) by simp
    moreover have "pid_of s q \<noteq> pid_of s' p" if "q \<in> active s" "0 < pid_of s' p" for q
      using old(2) [OF that(1)] fresh [OF that(2)] that(2) by auto
    ultimately show ?thesis using that inv pid unfolding proc_inv_def by metis
  qed
  show ?thesis unfolding proc_inv_def
    using s'(2-4) pid_inv_alloc [OF pinv] ok uniq by auto
qed

text \<open>A task is a dead child of the current one.\<close>

definition dead_child :: "sched \<Rightarrow> ptr \<Rightarrow> bool" where
  "dead_child s p \<longleftrightarrow> (\<exists>t q c. tasks s p = Some t \<and> parent t \<noteq> NULL \<and> tasks s (parent t) = Some q \<and>
     tasks s (current s) = Some c \<and> task_pid q = task_pid c \<and> task_state t AND TASK_DEAD \<noteq> 0)"

definition parents_ok :: "sched \<Rightarrow> bool" where
  "parents_ok s \<longleftrightarrow> tasks s (current s) \<noteq> None \<and>
     (\<forall>p \<in> active s. \<forall>t. tasks s p = Some t \<and> parent t \<noteq> NULL \<longrightarrow> tasks s (parent t) \<noteq> None)"

text \<open>The first slot at which the scan of \<^verbatim>\<open>do_wait(-1)\<close> stops.\<close>

definition stop_slot :: "sched \<Rightarrow> ptr list \<Rightarrow> nat" where
  "stop_slot s ps = length (takeWhile (\<lambda>p. p \<noteq> NULL \<and> \<not> dead_child s p) ps)"

lemma wait_scan_eq:
  assumes cur: "tasks s (current s) = Some c"
    and ok: "\<And>p. p \<in> set ps \<Longrightarrow> p \<noteq> NULL \<Longrightarrow> \<exists>t. tasks s p = Some t \<and> (parent t \<noteq> NULL \<longrightarrow> tasks s (parent t) \<noteq> None)"
  shows "wait_scan (tasks s) (tasks s (current s)) ps i =
    (if stop_slot s ps = length ps then Return None
     else if ps ! stop_slot s ps = NULL then Fault else Return (Some (i + stop_slot s ps)))"
  using ok
proof (induction ps arbitrary: i)
  case (Cons p ps)
  have IH: "wait_scan (tasks s) (tasks s (current s)) ps (i + 1) =
    (if stop_slot s ps = length ps then Return None
     else if ps ! stop_slot s ps = NULL then Fault else Return (Some (i + 1 + stop_slot s ps)))"
    by (rule Cons.IH) (rule Cons.prems, simp_all)
  show ?case
  proof (cases "p = NULL")
    case False
    from Cons.prems [of p] False obtain t where t: "tasks s p = Some t" "parent t \<noteq> NULL \<longrightarrow> tasks s (parent t) \<noteq> None" by auto
    show ?thesis
    proof (cases "dead_child s p")
      case True
      with t False show ?thesis by (auto simp: dead_child_def stop_slot_def)
    next
      case nd: False
      then have "wait_scan (tasks s) (tasks s (current s)) (p # ps) i = wait_scan (tasks s) (tasks s (current s)) ps (i + 1)"
        using t False cur by (cases "parent t = NULL"; cases "tasks s (parent t)") (auto simp: dead_child_def)
      moreover have "stop_slot s (p # ps) = Suc (stop_slot s ps)" using nd False by (simp add: stop_slot_def)
      ultimately show ?thesis using IH by simp
    qed
  qed (simp add: stop_slot_def)
qed (simp add: stop_slot_def)

lemma wait_any_diverges:
  assumes "wait_scan (tasks s) (tasks s (current s)) (procs s) 0 = Return None"
  shows "wait_any s = None"
proof (rule ccontr)
  assume "wait_any s \<noteq> None"
  then obtain y where y: "wait_any s = Some y" by blast
  have "s = s \<longrightarrow> False"
    by (rule wait_any.raw_induct [where P = "\<lambda>s' y. s' = s \<longrightarrow> False", OF _ y]) (auto simp: assms, blast)
  then show False by simp
qed

section \<open>Properties\<close>

text \<open>
  C4. \<^verbatim>\<open>alloc_process\<close> keeps the process table sound. When no slot is free it writes through \<^verbatim>\<open>NULL\<close>;
  otherwise the new task is in the table, all tasks of before are still there unchanged, no
  two tasks share a PID, and unless the PIDs have run out the new task is the one
  \<^verbatim>\<open>find_process_by_pid\<close> returns for its PID (when they have run out its PID is \<open>- EAGAIN\<close>,
  which is not tested).
\<close>

theorem alloc_process_spec:
  assumes inv: "proc_inv s" and new: "new_task parts \<noteq> NULL" "tasks s (new_task parts) = None"
  shows "if NULL \<notin> set (procs s) then alloc_process parts s = Fault
    else \<exists>s'. alloc_process parts s = Return (new_task parts, s') \<and> proc_inv s' \<and>
      active s' = insert (new_task parts) (active s) \<and> (\<forall>p \<in> active s. tasks s' p = tasks s p) \<and>
      (if live (manager s) = {1..<PID_MAX} then pid_of s' (new_task parts) = - EAGAIN
       else 0 < pid_of s' (new_task parts) \<and>
            find_process_by_pid s' (pid_of s' (new_task parts)) = Return (new_task parts))"
proof (cases "NULL \<in> set (procs s)")
  case False
  then have "free_slot (procs s) 0 = None" by (simp add: free_slot_None)
  with False show ?thesis by (simp add: alloc_process_def alloc_empty_process_def)
next
  case True
  let ?p = "new_task parts" and ?a = "pid_alloc (manager s)"
  from alloc_process_table [OF inv True new, of "fst ?a" "snd ?a"] obtain s' where
    s': "alloc_process parts s = Return (?p, s')" "active s' = insert ?p (active s)" "length (procs s') = NPROC"
      "tasks s' NULL = None" "manager s' = snd ?a" "pid_of s' ?p = fst ?a" "tasks s' ?p \<noteq> None"
      "\<And>q. q \<noteq> ?p \<Longrightarrow> tasks s' q = tasks s q" by auto
  have na: "?p \<notin> active s" using inv new by (auto simp: proc_inv_def)
  have inv': "proc_inv s'" by (rule proc_inv_alloc [OF inv na new(1)]) (use s' in auto)
  have pinv: "pid_inv (manager s)" using inv by (simp add: proc_inv_def)
  have "if live (manager s) = {1..<PID_MAX} then fst ?a = - EAGAIN else 0 < fst ?a"
  proof (rule pid_alloc_cases [OF pinv])
    fix q assume q: "0 < q" "q < PID_MAX" "q \<notin> live (manager s)" "?a = (q, take_pid q (manager s))"
    then have "live (manager s) \<noteq> {1..<PID_MAX}" by force
    with q show ?thesis by simp
  qed simp
  moreover have "\<forall>q \<in> active s. tasks s' q = tasks s q" using s'(8) na by metis
  moreover have "0 < pid_of s' ?p \<longrightarrow> find_process_by_pid s' (pid_of s' ?p) = Return ?p"
    using find_process_by_pid_unique [OF inv', of ?p] s'(2) by blast
  ultimately show ?thesis using True s'(1,2,6) inv' by (simp split: if_splits)
qed

text \<open>A table with one process, for the witnesses.\<close>

definition demo_parts :: process_parts where
  "demo_parts = \<lparr>new_task = 0x1000, new_kstack = 0x2000, new_trapframe = 0x3000, new_mm = 0x4000,
     new_fs = 0x5000, new_fdtable = 0x6000\<rparr>"

definition demo_sched :: sched where
  "demo_sched = init_scheduler \<lparr>tasks = Map.empty, procs = [], ready_queue = [], current = NULL, manager = pid_init\<rparr>"

lemma demo_sched_inv: "proc_inv demo_sched"
  by (auto simp: proc_inv_def demo_sched_def init_scheduler_def active_def pid_inv_init)

theorem alloc_process_spec_witness:
  "proc_inv demo_sched \<and> (\<exists>s'. alloc_process demo_parts demo_sched = Return (0x1000, s') \<and> proc_inv s' \<and>
     find_process_by_pid s' (pid_of s' 0x1000) = Return 0x1000)"
proof -
  have h: "new_task demo_parts = 0x1000" "tasks demo_sched (new_task demo_parts) = None" "NULL \<in> set (procs demo_sched)"
    "live (manager demo_sched) \<noteq> {1..<PID_MAX}"
    by (simp_all add: demo_parts_def demo_sched_def init_scheduler_def live_init)
  then show ?thesis using alloc_process_spec [OF demo_sched_inv, of demo_parts] demo_sched_inv by auto
qed



text \<open>
  C37. \<^verbatim>\<open>do_wait(-1)\<close> scans the table until its first empty slot or dead child of the current
  process. At a dead child it returns the number of the slot (not the PID); at an empty slot
  it dereferences \<^verbatim>\<open>NULL\<close>; if there is neither it never returns.
\<close>

theorem do_wait_any_spec:
  assumes "proc_inv s" "parents_ok s"
  shows "do_wait (- 1) s =
    (let k = stop_slot s (procs s) in
     if k = NPROC then None else if procs s ! k = NULL then Some Fault else Some (Return (int k)))"
proof -
  obtain c where c: "tasks s (current s) = Some c" using assms(2) by (auto simp: parents_ok_def)
  have "\<exists>t. tasks s p = Some t \<and> (parent t \<noteq> NULL \<longrightarrow> tasks s (parent t) \<noteq> None)" if "p \<in> set (procs s)" "p \<noteq> NULL" for p
  proof -
    from that have "p \<in> active s" by (simp add: active_def)
    with assms show ?thesis unfolding proc_inv_def parents_ok_def by blast
  qed
  note sc = wait_scan_eq [OF c this, of "procs s" 0]
  have l: "length (procs s) = NPROC" using assms(1) by (simp add: proc_inv_def)
  show ?thesis
  proof (cases "stop_slot s (procs s) = NPROC")
    case True
    then have "wait_any s = None" using sc l by (intro wait_any_diverges) simp
    with True show ?thesis by (simp add: do_wait_def)
  next
    case False
    then show ?thesis using sc l by (simp add: do_wait_def Let_def wait_any.simps [of s])
  qed
qed

theorem do_wait_any_spec_witness:
  "do_wait (- 1) (demo_sched\<lparr>tasks := [0x1000 \<mapsto> zero_task], current := 0x1000\<rparr>) = Some Fault"
proof -
  let ?s = "demo_sched\<lparr>tasks := [0x1000 \<mapsto> zero_task], current := 0x1000\<rparr>"
  have p: "procs ?s = replicate 32 NULL" by (simp add: demo_sched_def init_scheduler_def)
  have "proc_inv ?s" "parents_ok ?s"
    using demo_sched_inv by (auto simp: proc_inv_def parents_ok_def active_def demo_sched_def init_scheduler_def)
  moreover have "stop_slot ?s (procs ?s) = 0" by (simp add: p stop_slot_def numeral_eq_Suc)
  ultimately show ?thesis using do_wait_any_spec [of ?s] by (simp add: p)
qed

end
