(* ===== verification/Signal.thy ===== *)
theory Signal
  imports Sched
begin

text \<open>
  Signals: \<^verbatim>\<open>kernel/sched/signal.c\<close> and \<^verbatim>\<open>include/kernel/sched/signal.h\<close>. A signal set is an
  array of sixteen 64-bit words; abstractly it is the set of its members. The operations
  work on the current task of the scheduler's state. A pointer argument that may be
  \<^verbatim>\<open>NULL\<close> is an option, and what is stored through a result pointer is part of the result.
  The copies from and to user space of the system call wrappers are oracles: \<open>None\<close> when
  \<^verbatim>\<open>copy_from_user\<close> or \<^verbatim>\<open>copy_to_user\<close> fails.
\<close>

section \<open>Signal sets\<close>

abbreviation NSIG :: int where "NSIG \<equiv> 65"
abbreviation SIGKILL :: int where "SIGKILL \<equiv> 9"
abbreviation SIGSTOP :: int where "SIGSTOP \<equiv> 19"

abbreviation (input) SIG_BLOCK :: int where "SIG_BLOCK \<equiv> 0"
abbreviation (input) SIG_UNBLOCK :: int where "SIG_UNBLOCK \<equiv> 1"
abbreviation (input) SIG_SETMASK :: int where "SIG_SETMASK \<equiv> 2"

text \<open>
  The five operations of the source; the argument is \<open>None\<close> for a \<^verbatim>\<open>NULL\<close> pointer, and the
  result has the set as the call leaves it.
\<close>

definition sigemptyset :: "sigset_t option \<Rightarrow> int \<times> sigset_t option" where
  "sigemptyset m = (case m of None \<Rightarrow> (- EINVAL, None) | Some s \<Rightarrow> (0, Some (replicate 16 0)))"

definition sigfillset :: "sigset_t option \<Rightarrow> int \<times> sigset_t option" where
  "sigfillset m = (case m of None \<Rightarrow> (- EINVAL, None) | Some s \<Rightarrow> (0, Some (replicate 16 (- 1))))"

definition sigaddset :: "sigset_t option \<Rightarrow> int \<Rightarrow> int \<times> sigset_t option" where
  "sigaddset m signo =
     (case m of
        None \<Rightarrow> (- EINVAL, None)
      | Some s \<Rightarrow>
          if signo \<le> 0 \<or> signo \<ge> NSIG then (- EINVAL, Some s)
          else let w = nat ((signo - 1) div 64); b = nat ((signo - 1) mod 64)
               in (0, Some (s[w := s ! w OR push_bit b 1])))"

definition sigdelset :: "sigset_t option \<Rightarrow> int \<Rightarrow> int \<times> sigset_t option" where
  "sigdelset m signo =
     (case m of
        None \<Rightarrow> (- EINVAL, None)
      | Some s \<Rightarrow>
          if signo \<le> 0 \<or> signo \<ge> NSIG then (- EINVAL, Some s)
          else let w = nat ((signo - 1) div 64); b = nat ((signo - 1) mod 64)
               in (0, Some (s[w := s ! w AND NOT (push_bit b 1)])))"

definition sigismember :: "sigset_t option \<Rightarrow> int \<Rightarrow> int" where
  "sigismember m signo =
     (case m of
        None \<Rightarrow> - EINVAL
      | Some s \<Rightarrow>
          if signo \<le> 0 \<or> signo \<ge> NSIG then - EINVAL
          else let w = nat ((signo - 1) div 64); b = nat ((signo - 1) mod 64)
               in if s ! w AND push_bit b 1 \<noteq> 0 then 1 else 0)"

text \<open>The set an operation leaves behind, when it is called with the address of a variable.\<close>

abbreviation set_after :: "(sigset_t option \<Rightarrow> int \<Rightarrow> int \<times> sigset_t option) \<Rightarrow> sigset_t \<Rightarrow> int \<Rightarrow> sigset_t" where
  "set_after f s signo \<equiv> the (snd (f (Some s) signo))"

section \<open>Operations\<close>

text \<open>Writing a task back to the store.\<close>

definition put_task :: "ptr \<Rightarrow> task_struct \<Rightarrow> sched \<Rightarrow> sched" where
  "put_task p t s = s\<lparr>tasks := (tasks s)(p \<mapsto> t)\<rparr>"

definition do_send_signal :: "int \<Rightarrow> int \<Rightarrow> sched \<Rightarrow> (int \<times> sched) outcome" where
  "do_send_signal pid sig s =
     (if sig \<le> 0 \<or> sig \<ge> NSIG then Return (- EINVAL, s)
      else bind_outcome (if pid = 0 then Return (current s) else find_process_by_pid s pid)
        (\<lambda>p. if p = NULL then Return (- ESRCH, s)
             else case tasks s p of
                    None \<Rightarrow> Fault
                  | Some t \<Rightarrow>
                      if sig = SIGKILL then Return (0, s)
                      else if sig = SIGSTOP then Return (0, s)
                      else Return (0, put_task p (t\<lparr>pending := set_after sigaddset (pending t) sig\<rparr>) s)))"

text \<open>The result has the old action, when one was asked for.\<close>

definition do_sigaction ::
  "int \<Rightarrow> sigaction option \<Rightarrow> bool \<Rightarrow> sched \<Rightarrow> (int \<times> sigaction option \<times> sched) outcome" where
  "do_sigaction sig act want_old s =
     (if current s = NULL then Return (- ESRCH, None, s)
      else if sig \<le> 0 \<or> sig \<ge> NSIG then Return (- EINVAL, None, s)
      else if sig = SIGKILL \<or> sig = SIGSTOP then Return (- EINVAL, None, s)
      else case tasks s (current s) of
             None \<Rightarrow> Fault
           | Some t \<Rightarrow>
               let i = nat (sig - 1);
                   oldact = (if want_old then Some (sighand t ! i) else None);
                   s' = (case act of
                           None \<Rightarrow> s
                         | Some a \<Rightarrow> put_task (current s) (t\<lparr>sighand := (sighand t)[i := a]\<rparr>) s)
               in Return (0, oldact, s'))"

definition do_sigprocmask ::
  "int \<Rightarrow> sigset_t option \<Rightarrow> bool \<Rightarrow> sched \<Rightarrow> (int \<times> sigset_t option \<times> sched) outcome" where
  "do_sigprocmask how m want_old s =
     (if current s = NULL then Return (- ESRCH, None, s)
      else case tasks s (current s) of
             None \<Rightarrow> Fault
           | Some t \<Rightarrow>
               let oldset = (if want_old then Some (blocked t) else None) in
               (case m of
                 None \<Rightarrow> Return (0, oldset, s)
               | Some w \<Rightarrow>
                   let new_blocked =
                         (if how = SIG_BLOCK then Some (map2 (OR) (blocked t) w)
                          else if how = SIG_UNBLOCK then Some (map2 (\<lambda>b c. b AND NOT c) (blocked t) w)
                          else if how = SIG_SETMASK then Some w
                          else None)
                   in case new_blocked of
                        None \<Rightarrow> Return (- EINVAL, oldset, s)
                      | Some nb \<Rightarrow>
                          let nb' = set_after sigdelset (set_after sigdelset nb SIGKILL) SIGSTOP
                          in Return (0, oldset, put_task (current s) (t\<lparr>blocked := nb'\<rparr>) s)))"

text \<open>The four cases of \<^verbatim>\<open>do_kill\<close>; only a positive PID names another process.\<close>

definition do_kill :: "int \<Rightarrow> int \<Rightarrow> sched \<Rightarrow> (int \<times> sched) outcome" where
  "do_kill pid sig s =
     (if pid > 0 then do_send_signal pid sig s
      else if pid = 0 then do_send_signal 0 sig s
      else if pid = -1 then do_send_signal 0 sig s
      else do_send_signal 0 sig s)"

text \<open>
  The loop of \<^verbatim>\<open>do_signal_delivery\<close> on the task: the signals handled, in order, and the task
  after it. The default actions only print a message, so an ignored and a defaulted signal
  go on with the loop; a signal with a handler ends it. The loop counter is \<open>sig\<close>.
\<close>

datatype delivery = Ignored int | Defaulted int | Handled int

function delivery_loop :: "int \<Rightarrow> task_struct \<Rightarrow> delivery list \<times> task_struct" where
  "delivery_loop sig t =
     (if sig < NSIG then
        if sigismember (Some (pending t)) sig \<noteq> 0 \<and> sigismember (Some (blocked t)) sig = 0 then
          let t' = t\<lparr>pending := set_after sigdelset (pending t) sig\<rparr>;
              h = sa_handler (sighand t ! nat (sig - 1))
          in if h = SIG_IGN then case delivery_loop (sig + 1) t' of (ds, t'') \<Rightarrow> (Ignored sig # ds, t'')
             else if h = SIG_DFL then case delivery_loop (sig + 1) t' of (ds, t'') \<Rightarrow> (Defaulted sig # ds, t'')
             else ([Handled sig], t')
        else delivery_loop (sig + 1) t
      else ([], t))"
  by pat_completeness auto
termination
  by (relation "measure (\<lambda>(sig, t). nat (NSIG - sig))") auto

declare delivery_loop.simps [simp del]

definition do_signal_delivery :: "sched \<Rightarrow> (delivery list \<times> sched) outcome" where
  "do_signal_delivery s =
     (if current s = NULL then Return ([], s)
      else case tasks s (current s) of
             None \<Rightarrow> Fault
           | Some t \<Rightarrow>
               (case delivery_loop 1 t of (ds, t') \<Rightarrow> Return (ds, put_task (current s) t' s)))"

text \<open>
  \<^verbatim>\<open>do_sigsuspend\<close>: the wait between the two changes of the mask is commented out in the
  source. The result has the mask that is in force in between.
\<close>

definition do_sigsuspend :: "sigset_t option \<Rightarrow> sched \<Rightarrow> (int \<times> sigset_t option \<times> sched) outcome" where
  "do_sigsuspend m s =
     (if current s = NULL \<or> m = None then Return (- EINVAL, None, s)
      else case tasks s (current s) of
             None \<Rightarrow> Fault
           | Some t \<Rightarrow>
               let old_blocked = blocked t;
                   t1 = t\<lparr>blocked := set_after sigdelset (set_after sigdelset (the m) SIGKILL) SIGSTOP\<rparr>;
                   t2 = t1\<lparr>blocked := old_blocked\<rparr>
               in Return (- EINTR, Some (blocked t1), put_task (current s) t2 s))"

section \<open>System calls\<close>

definition sys_kill :: "int \<Rightarrow> int \<Rightarrow> sched \<Rightarrow> (int \<times> sched) outcome" where
  "sys_kill pid sig s = do_kill pid sig s"

text \<open>
  A user pointer is \<open>None\<close> when it is \<^verbatim>\<open>NULL\<close>; otherwise \<open>Some\<close> the outcome of the copy. \<open>out_ok\<close>
  says whether the copy to user space succeeds.
\<close>

definition sys_sigaction ::
  "int \<Rightarrow> sigaction option option \<Rightarrow> bool \<Rightarrow> bool \<Rightarrow> sched \<Rightarrow> (int \<times> sigaction option \<times> sched) outcome" where
  "sys_sigaction sig act_user want_old out_ok s =
     (if act_user = Some None then Return (- EFAULT, None, s)
      else bind_outcome (do_sigaction sig (Option.bind act_user id) want_old s)
        (\<lambda>(ret, old, s').
           if ret = 0 \<and> want_old then if out_ok then Return (ret, old, s') else Return (- EFAULT, None, s')
           else Return (ret, None, s')))"

definition sys_sigprocmask ::
  "int \<Rightarrow> sigset_t option option \<Rightarrow> bool \<Rightarrow> bool \<Rightarrow> sched \<Rightarrow> (int \<times> sigset_t option \<times> sched) outcome" where
  "sys_sigprocmask how set_user want_old out_ok s =
     (if set_user = Some None then Return (- EFAULT, None, s)
      else bind_outcome (do_sigprocmask how (Option.bind set_user id) want_old s)
        (\<lambda>(ret, old, s').
           if ret = 0 \<and> want_old then if out_ok then Return (ret, old, s') else Return (- EFAULT, None, s')
           else Return (ret, None, s')))"

definition sys_sigsuspend :: "sigset_t option option \<Rightarrow> sched \<Rightarrow> (int \<times> sched) outcome" where
  "sys_sigsuspend mask_user s =
     (case mask_user of
        None \<Rightarrow> Return (- EFAULT, s)
      | Some None \<Rightarrow> Return (- EFAULT, s)
      | Some (Some m) \<Rightarrow>
          bind_outcome (do_sigsuspend (Some m) s) (\<lambda>(r, in_force, s'). Return (r, s')))"

section \<open>Signal sets as sets\<close>

text \<open>The signals a set has, and the sets of the size the type has.\<close>

definition members :: "sigset_t \<Rightarrow> int set" where
  "members s = {n. 0 < n \<and> n < NSIG \<and> wa_test s (nat (n - 1))}"

lemma sigset_cap: "length s = 16 \<Longrightarrow> wa_cap (s :: sigset_t) = 1024"
  by (simp add: wa_cap_def)

lemma sig_index: "0 < n \<Longrightarrow> nat ((n - 1) div 64) = nat (n - 1) div 64 \<and> nat ((n - 1) mod 64) = nat (n - 1) mod 64"
  by (simp add: nat_div_distrib nat_mod_distrib)

lemma set_after_sigaddset: "0 < n \<Longrightarrow> n < NSIG \<Longrightarrow> set_after sigaddset s n = wa_set s (nat (n - 1))"
  using sig_index [of n] by (simp add: sigaddset_def wa_set_def Let_def)

lemma set_after_sigdelset: "0 < n \<Longrightarrow> n < NSIG \<Longrightarrow> set_after sigdelset s n = wa_clear s (nat (n - 1))"
  using sig_index [of n] by (simp add: sigdelset_def wa_clear_def Let_def)

lemma members_sigaddset:
  assumes "length s = 16" "0 < n" "n < NSIG"
  shows "members (set_after sigaddset s n) = insert n (members s)"
  using assms by (auto simp: members_def set_after_sigaddset wa_test_set sigset_cap)

lemma members_sigdelset:
  assumes "length s = 16" "0 < n" "n < NSIG"
  shows "members (set_after sigdelset s n) = members s - {n}"
  using assms by (auto simp: members_def set_after_sigdelset wa_test_clear sigset_cap)

lemma length_sigaddset [simp]: "length (set_after sigaddset s n) = length s"
  by (simp add: sigaddset_def Let_def)

lemma length_sigdelset [simp]: "length (set_after sigdelset s n) = length s"
  by (simp add: sigdelset_def Let_def)

lemma sigismember_iff:
  assumes "0 < n" "n < NSIG"
  shows "sigismember (Some s) n = (if n \<in> members s then 1 else 0)"
  using assms sig_index [of n] by (auto simp: sigismember_def members_def wa_test_def Let_def and_exp_eq_0_iff_not_bit)

lemma members_map2_or:
  assumes "length b = 16" "length m = 16"
  shows "members (map2 (OR) b m) = members b \<union> members m"
  using assms by (auto simp: members_def wa_test_def bit_or_iff)

lemma members_map2_and_not:
  assumes "length b = 16" "length m = 16"
  shows "members (map2 (\<lambda>b c. b AND NOT c) b m) = members b - members m"
  using assms by (auto simp: members_def wa_test_def bit_and_iff bit_not_iff)

lemma members_sigemptyset: "members empty_sigset = {}"
  by (auto simp: members_def empty_sigset_def)

section \<open>Reachable states\<close>

text \<open>
  The states the scheduler's and the signal calls lead to from an empty table. A mask that
  comes from a caller has the size of its type.
\<close>

inductive sched_reach :: "sched \<Rightarrow> bool" where
  init: "tasks s = Map.empty \<Longrightarrow> sched_reach (init_scheduler s)"
| alloc: "sched_reach s \<Longrightarrow> alloc_process parts s = Return (p, s') \<Longrightarrow> sched_reach s'"
| ready: "sched_reach s \<Longrightarrow> insert_to_ready_queue p s = Return s' \<Longrightarrow> sched_reach s'"
| sched: "sched_reach s \<Longrightarrow> schedule rq frame s = Return (r, s') \<Longrightarrow> sched_reach s'"
| kill: "sched_reach s \<Longrightarrow> sys_kill pid sig s = Return (k, s') \<Longrightarrow> sched_reach s'"
| action: "sched_reach s \<Longrightarrow> sys_sigaction sig act w out_ok s = Return (k, old, s') \<Longrightarrow> sched_reach s'"
| procmask: "sched_reach s \<Longrightarrow> (\<And>x. m = Some (Some x) \<Longrightarrow> length x = 16) \<Longrightarrow>
    sys_sigprocmask how m w out_ok s = Return (k, oldm, s') \<Longrightarrow> sched_reach s'"
| suspend: "sched_reach s \<Longrightarrow> sys_sigsuspend m s = Return (k, s') \<Longrightarrow> sched_reach s'"
| deliver: "sched_reach s \<Longrightarrow> do_signal_delivery s = Return (ds, s') \<Longrightarrow> sched_reach s'"

text \<open>What holds of the signal state of every task.\<close>

definition signal_ok :: "task_struct \<Rightarrow> bool" where
  "signal_ok t \<longleftrightarrow> length (pending t) = 16 \<and> length (blocked t) = 16 \<and> length (sighand t) = 64 \<and>
     members (blocked t) \<inter> {SIGKILL, SIGSTOP} = {} \<and> members (pending t) \<inter> {SIGKILL, SIGSTOP} = {} \<and>
     sa_handler (sighand t ! 8) = SIG_DFL \<and> sa_handler (sighand t ! 18) = SIG_DFL"

definition signals_ok :: "sched \<Rightarrow> bool" where
  "signals_ok s \<longleftrightarrow> (\<forall>p t. tasks s p = Some t \<longrightarrow> signal_ok t)"

lemma signals_okD: "signals_ok s \<Longrightarrow> tasks s p = Some t \<Longrightarrow> signal_ok t"
  by (auto simp: signals_ok_def)

lemma signals_ok_put: "signals_ok s \<Longrightarrow> signal_ok t \<Longrightarrow> signals_ok (put_task p t s)"
  by (auto simp: signals_ok_def put_task_def)

lemma signal_ok_zero_task: "signal_ok zero_task"
  by (simp add: signal_ok_def zero_task_def members_sigemptyset) (simp add: empty_sigset_def zero_sigaction_def)

lemma signals_ok_alloc:
  assumes "signals_ok s" "alloc_process parts s = Return (p, s')"
  shows "signals_ok s'"
  using assms signal_ok_zero_task
  by (auto simp: alloc_process_def alloc_empty_process_def signals_ok_def signal_ok_def bind_outcome_Return_iff members_sigemptyset zero_task_def
     empty_sigset_def zero_sigaction_def split: option.splits if_splits prod.splits)

lemma signals_ok_send:
  assumes "signals_ok s" "do_send_signal pid sig s = Return (k, s')"
  shows "signals_ok s'"
proof -
  have "signal_ok (t\<lparr>pending := set_after sigaddset (pending t) sig\<rparr>)"
    if "signal_ok t" "0 < sig" "sig < NSIG" "sig \<noteq> SIGKILL" "sig \<noteq> SIGSTOP" for t
    using that by (auto simp: signal_ok_def members_sigaddset)
  with assms show ?thesis
    by (auto simp: do_send_signal_def bind_outcome_Return_iff intro!: signals_ok_put dest: signals_okD split: if_splits option.splits)
qed

lemma signals_ok_action:
  assumes "signals_ok s" "do_sigaction sig act w s = Return (k, old, s')"
  shows "signals_ok s'"
proof -
  have "signal_ok (t\<lparr>sighand := (sighand t)[nat (sig - 1) := a]\<rparr>)"
    if "signal_ok t" "0 < sig" "sig < NSIG" "sig \<noteq> SIGKILL" "sig \<noteq> SIGSTOP" for t a
    using that by (auto simp: signal_ok_def nth_list_update)
  with assms show ?thesis
    by (auto simp: do_sigaction_def Let_def intro!: signals_ok_put dest: signals_okD split: if_splits option.splits)
qed

text \<open>The mask that is left when \<^verbatim>\<open>SIGKILL\<close> and \<^verbatim>\<open>SIGSTOP\<close> have been taken out.\<close>

lemma members_unblockable:
  assumes "length s = 16"
  shows "members (set_after sigdelset (set_after sigdelset s SIGKILL) SIGSTOP) = members s - {SIGKILL, SIGSTOP}"
  using assms by (auto simp: members_sigdelset)

lemma signals_ok_procmask:
  assumes "signals_ok s" "m \<noteq> None \<longrightarrow> length (the m) = 16" "do_sigprocmask how m w s = Return (k, oldm, s')"
  shows "signals_ok s'"
proof -
  have "signal_ok (t\<lparr>blocked := set_after sigdelset (set_after sigdelset b SIGKILL) SIGSTOP\<rparr>)"
    if "signal_ok t" "length b = 16" for t b
    using that by (auto simp: signal_ok_def members_unblockable)
  moreover have "length (blocked t) = 16" if "signal_ok t" for t using that by (simp add: signal_ok_def)
  ultimately show ?thesis using assms
    by (auto simp: do_sigprocmask_def Let_def intro!: signals_ok_put dest: signals_okD split: if_splits option.splits)
qed

lemma signals_ok_suspend:
  assumes "signals_ok s" "do_sigsuspend m s = Return (k, f, s')"
  shows "signals_ok s'"
  using assms
  by (auto simp: do_sigsuspend_def Let_def intro!: signals_ok_put dest: signals_okD split: if_splits option.splits)

section \<open>Delivery\<close>

text \<open>
  What \<^verbatim>\<open>do_signal_delivery\<close> does, without the loop: of the pending signals that are not
  blocked, in ascending order, it takes those up to the first one with a handler.
\<close>

definition deliverable :: "task_struct \<Rightarrow> int set" where
  "deliverable t = members (pending t) - members (blocked t)"

definition handler_of :: "task_struct \<Rightarrow> int \<Rightarrow> u64" where
  "handler_of t sig = sa_handler (sighand t ! nat (sig - 1))"

definition caught :: "task_struct \<Rightarrow> int \<Rightarrow> bool" where
  "caught t sig \<longleftrightarrow> handler_of t sig \<noteq> SIG_IGN \<and> handler_of t sig \<noteq> SIG_DFL"

definition disposition :: "task_struct \<Rightarrow> int \<Rightarrow> delivery" where
  "disposition t sig = (if handler_of t sig = SIG_IGN then Ignored sig
     else if handler_of t sig = SIG_DFL then Defaulted sig else Handled sig)"

fun upto_first :: "('a \<Rightarrow> bool) \<Rightarrow> 'a list \<Rightarrow> 'a list" where
  "upto_first P [] = []"
| "upto_first P (x # xs) = (if P x then [x] else x # upto_first P xs)"

definition delivered :: "task_struct \<Rightarrow> int \<Rightarrow> int list" where
  "delivered t k = upto_first (caught t) (filter (\<lambda>sig. sig \<in> deliverable t) [k..64])"

lemma delivered_Nil: "64 < k \<Longrightarrow> delivered t k = []"
  by (simp add: delivered_def)

lemma delivered_step:
  assumes "k \<le> 64"
  shows "delivered t k = (if k \<notin> deliverable t then delivered t (k + 1)
    else if caught t k then [k] else k # delivered t (k + 1))"
  using assms by (simp add: delivered_def upto_rec1 [of k 64])

lemma delivered_ge: "sig \<in> set (delivered t k) \<Longrightarrow> k \<le> sig"
proof -
  have "set (upto_first P xs) \<subseteq> set xs" for P and xs :: "int list" by (induction xs) auto
  then show "sig \<in> set (delivered t k) \<Longrightarrow> k \<le> sig" by (force simp: delivered_def)
qed

lemma delivered_clear:
  assumes "length (pending t) = 16" "0 < k" "k < NSIG" "k < j"
  shows "delivered (t\<lparr>pending := set_after sigdelset (pending t) k\<rparr>) j = delivered t j"
proof -
  have "filter (\<lambda>sig. sig \<in> deliverable (t\<lparr>pending := set_after sigdelset (pending t) k\<rparr>)) [j..64] =
    filter (\<lambda>sig. sig \<in> deliverable t) [j..64]"
    using assms by (intro filter_cong) (auto simp: deliverable_def members_sigdelset)
  then show ?thesis by (simp add: delivered_def caught_def [abs_def] handler_of_def)
qed

lemma delivery_loop_Nil: "64 < k \<Longrightarrow> delivery_loop k t = ([], t)"
  by (simp add: delivery_loop.simps)

lemma delivery_loop_step:
  assumes "0 < k" "k \<le> 64"
  shows "delivery_loop k t =
    (let t' = t\<lparr>pending := set_after sigdelset (pending t) k\<rparr>
     in if k \<notin> deliverable t then delivery_loop (k + 1) t
        else if caught t k then ([disposition t k], t')
        else (disposition t k # fst (delivery_loop (k + 1) t'), snd (delivery_loop (k + 1) t')))"
proof -
  have "sigismember (Some (pending t)) k \<noteq> 0 \<and> sigismember (Some (blocked t)) k = 0 \<longleftrightarrow> k \<in> deliverable t"
    using assms by (simp add: sigismember_iff deliverable_def)
  with assms show ?thesis
    by (simp only: delivery_loop.simps [of k t]) (simp add: Let_def caught_def handler_of_def disposition_def split: prod.split)
qed

lemma delivery_loop_spec:
  assumes "length (pending t) = 16" "0 < k"
  shows "\<exists>pend. delivery_loop k t = (map (disposition t) (delivered t k), t\<lparr>pending := pend\<rparr>) \<and>
    length pend = 16 \<and> members pend = members (pending t) - set (delivered t k)"
  using assms
proof (induction "nat (NSIG - k)" arbitrary: k t)
  case 0
  then show ?case by (intro exI [of _ "pending t"]) (simp add: delivery_loop_Nil delivered_Nil)
next
  case (Suc n)
  let ?t = "t\<lparr>pending := set_after sigdelset (pending t) k\<rparr>"
  have k: "k \<le> 64" "n = nat (NSIG - (k + 1))" "0 < k + 1" using Suc.hyps(2) Suc.prems by auto
  have disp: "disposition ?t = disposition t" by (rule ext) (simp add: disposition_def handler_of_def)
  have mem: "members (set_after sigdelset (pending t) k) = members (pending t) - {k}"
    using Suc.prems k by (simp add: members_sigdelset)
  consider "k \<notin> deliverable t" | "k \<in> deliverable t" "caught t k" | "k \<in> deliverable t" "\<not> caught t k" by blast
  then show ?case
  proof cases
    case 1
    with Suc.hyps(1) [OF k(2) Suc.prems(1) k(3)] Suc.prems k show ?thesis
      by (simp only: delivery_loop_step delivered_step Let_def if_True not_False_eq_True)
  next
    case 2
    with Suc.prems k mem show ?thesis
      by (intro exI [of _ "set_after sigdelset (pending t) k"]) (simp add: delivery_loop_step delivered_step Let_def)
  next
    case 3
    have "length (pending ?t) = 16" using Suc.prems by simp
    from Suc.hyps(1) [OF k(2) this k(3)] obtain pend where loop:
      "delivery_loop (k + 1) ?t = (map (disposition ?t) (delivered ?t (k + 1)), ?t\<lparr>pending := pend\<rparr>)"
      "length pend = 16" "members pend = members (pending ?t) - set (delivered ?t (k + 1))" by blast
    have del: "delivered ?t (k + 1) = delivered t (k + 1)"
      using delivered_clear [of t k "k + 1"] Suc.prems k by simp
    have "delivery_loop k t = (map (disposition t) (k # delivered t (k + 1)), t\<lparr>pending := pend\<rparr>)"
      using 3 Suc.prems k loop(1) by (simp add: delivery_loop_step Let_def del disp)
    moreover have "delivered t k = k # delivered t (k + 1)" using 3 k by (simp add: delivered_step)
    moreover have "members pend = members (pending t) - insert k (set (delivered t (k + 1)))"
      using loop(3) mem del by auto
    ultimately show ?thesis using loop(2) by auto
  qed
qed

lemma do_signal_delivery_eq:
  assumes "tasks s (current s) = Some t" "current s \<noteq> NULL" "signal_ok t"
  obtains pend where "do_signal_delivery s =
      Return (map (disposition t) (delivered t 1), put_task (current s) (t\<lparr>pending := pend\<rparr>) s)"
    "length pend = 16" "members pend = members (pending t) - set (delivered t 1)"
proof -
  have "length (pending t) = 16" using assms(3) by (simp add: signal_ok_def)
  from delivery_loop_spec [OF this, of 1] obtain pend where
    "delivery_loop 1 t = (map (disposition t) (delivered t 1), t\<lparr>pending := pend\<rparr>)"
    "length pend = 16" "members pend = members (pending t) - set (delivered t 1)" by auto
  with assms(1,2) show thesis by (intro that [of pend]) (simp_all add: do_signal_delivery_def)
qed

lemma signals_ok_delivery:
  assumes ok: "signals_ok s" and del: "do_signal_delivery s = Return (ds, s')"
  shows "signals_ok s'"
proof (cases "current s = NULL")
  case False
  with del obtain t where t: "tasks s (current s) = Some t" by (auto simp: do_signal_delivery_def split: option.splits)
  have st: "signal_ok t" by (rule signals_okD [OF ok t])
  obtain pend where d: "do_signal_delivery s =
      Return (map (disposition t) (delivered t 1), put_task (current s) (t\<lparr>pending := pend\<rparr>) s)"
    "length pend = 16" "members pend = members (pending t) - set (delivered t 1)"
    by (rule do_signal_delivery_eq [OF t False st])
  have "signal_ok (t\<lparr>pending := pend\<rparr>)" using st d(2,3) by (auto simp: signal_ok_def)
  then have "signals_ok (put_task (current s) (t\<lparr>pending := pend\<rparr>) s)" by (rule signals_ok_put [OF ok])
  with del d(1) show ?thesis by simp
qed (use assms in \<open>simp add: do_signal_delivery_def\<close>)

lemma signals_ok_schedule:
  assumes "signals_ok s" "schedule rq frame s = Return (r, s')"
  shows "signals_ok s'"
proof -
  have kt: "signal_ok t \<Longrightarrow> signal_ok (t\<lparr>ktrapframe := f\<rparr>)" for t f by (simp add: signal_ok_def)
  then show ?thesis using assms
    by (auto simp: schedule_def switch_to_def Let_def signals_ok_def split: if_splits option.splits)
qed

lemma signals_ok_sys_sigprocmask:
  assumes ok: "signals_ok s" and m: "\<And>x. m = Some (Some x) \<Longrightarrow> length x = 16"
    and ret: "sys_sigprocmask how m w out_ok s = Return (k, oldm, s')"
  shows "signals_ok s'"
proof (cases "m = Some None")
  case False
  with ret obtain r o' where "do_sigprocmask how (Option.bind m id) w s = Return (r, o', s')"
    by (auto simp: sys_sigprocmask_def bind_outcome_Return_iff split: if_splits)
  moreover have "Option.bind m id \<noteq> None \<longrightarrow> length (the (Option.bind m id)) = 16"
    using m by (auto simp: bind_eq_Some_conv)
  ultimately show ?thesis using signals_ok_procmask [OF ok] by blast
qed (use ok ret in \<open>simp add: sys_sigprocmask_def\<close>)

lemma signals_ok_sys_sigaction:
  assumes ok: "signals_ok s" and ret: "sys_sigaction sig act w out_ok s = Return (k, old, s')"
  shows "signals_ok s'"
proof (cases "act = Some None")
  case False
  with ret obtain r o' where "do_sigaction sig (Option.bind act id) w s = Return (r, o', s')"
    by (auto simp: sys_sigaction_def bind_outcome_Return_iff split: if_splits)
  then show ?thesis by (rule signals_ok_action [OF ok])
qed (use ok ret in \<open>simp add: sys_sigaction_def\<close>)

lemma signals_ok_sys_kill:
  assumes "signals_ok s" "sys_kill pid sig s = Return (k, s')"
  shows "signals_ok s'"
  using assms signals_ok_send by (auto simp: sys_kill_def do_kill_def split: if_splits)

lemma signals_ok_sys_sigsuspend:
  assumes "signals_ok s" "sys_sigsuspend m s = Return (k, s')"
  shows "signals_ok s'"
  using assms signals_ok_suspend by (auto simp: sys_sigsuspend_def bind_outcome_Return_iff split: option.splits)

section \<open>Properties\<close>

text \<open>
  C15. In every state the calls of the scheduler and of the signal subsystem lead to from an
  empty process table, no task blocks \<^verbatim>\<open>SIGKILL\<close> or \<^verbatim>\<open>SIGSTOP\<close>, neither is ever pending, and
  the actions of both are the default ones; and the arrays have their sizes.
\<close>

theorem sched_reach_signal_ok:
  assumes "sched_reach s" "tasks s p = Some t"
  shows "signal_ok t"
proof -
  from assms(1) have "signals_ok s"
  proof induction
    case (init s)
    then show ?case by (simp add: signals_ok_def init_scheduler_def)
  next
    case (ready s p s')
    then show ?case by (auto simp: insert_to_ready_queue_def signals_ok_def split: option.splits)
  next
    case (alloc s parts p s')
    show ?case by (rule signals_ok_alloc [OF alloc.IH alloc.hyps(2)])
  next
    case (sched s rq frame r s')
    show ?case by (rule signals_ok_schedule [OF sched.IH sched.hyps(2)])
  next
    case (kill s pid sig k s')
    show ?case by (rule signals_ok_sys_kill [OF kill.IH kill.hyps(2)])
  next
    case (action s sig act w out_ok k old s')
    show ?case by (rule signals_ok_sys_sigaction [OF action.IH action.hyps(2)])
  next
    case (procmask s m how w out_ok k oldm s')
    show ?case by (rule signals_ok_sys_sigprocmask [OF procmask.IH procmask.hyps(2,3)])
  next
    case (suspend s m k s')
    show ?case by (rule signals_ok_sys_sigsuspend [OF suspend.IH suspend.hyps(2)])
  next
    case (deliver s ds s')
    show ?case by (rule signals_ok_delivery [OF deliver.IH deliver.hyps(2)])
  qed
  then show ?thesis by (rule signals_okD) (rule assms(2))
qed

theorem sched_reach_signal_ok_witness:
  "\<exists>s' t. alloc_process demo_parts demo_sched = Return (0x1000, s') \<and> tasks s' 0x1000 = Some t \<and> signal_ok t"
proof -
  have h: "new_task demo_parts = 0x1000" "tasks demo_sched 0x1000 = None" "NULL \<in> set (procs demo_sched)"
    by (simp_all add: demo_parts_def demo_sched_def init_scheduler_def)
  obtain pid mgr where "pid_alloc (manager demo_sched) = (pid, mgr)" by fastforce
  from alloc_process_table [OF demo_sched_inv h(3) _ _ this, of demo_parts] h
  obtain s' t where s': "alloc_process demo_parts demo_sched = Return (0x1000, s')" "tasks s' 0x1000 = Some t" by auto
  have "sched_reach demo_sched" unfolding demo_sched_def by (rule sched_reach.init) simp
  from sched_reach_signal_ok [OF sched_reach.alloc [OF this s'(1)] s'(2)] s' show ?thesis by blast
qed

text \<open>
  \<^verbatim>\<open>do_sigprocmask\<close> computes on the sets of signals. With a mask and a valid \<open>how\<close>, the
  blocked signals become the union, the difference or the mask itself, always without
  \<^verbatim>\<open>SIGKILL\<close> and \<^verbatim>\<open>SIGSTOP\<close>; an invalid \<open>how\<close> gives \<open>- EINVAL\<close> and changes nothing. The old
  mask is reported in every case, and nothing else of the task changes.
\<close>

theorem do_sigprocmask_spec:
  assumes "current s \<noteq> NULL" "tasks s (current s) = Some t" "length (blocked t) = 16" "length m = 16"
  shows "if how = SIG_BLOCK \<or> how = SIG_UNBLOCK \<or> how = SIG_SETMASK
    then \<exists>nb. do_sigprocmask how (Some m) True s = Return (0, Some (blocked t), put_task (current s) (t\<lparr>blocked := nb\<rparr>) s) \<and>
      length nb = 16 \<and>
      members nb = (if how = SIG_BLOCK then members (blocked t) \<union> members m
                    else if how = SIG_UNBLOCK then members (blocked t) - members m else members m) - {SIGKILL, SIGSTOP}
    else do_sigprocmask how (Some m) True s = Return (- EINVAL, Some (blocked t), s)"
proof -
  let ?nb = "if how = SIG_BLOCK then map2 (OR) (blocked t) m
    else if how = SIG_UNBLOCK then map2 (\<lambda>b c. b AND NOT c) (blocked t) m else m"
  have "length ?nb = 16" using assms by simp
  from members_unblockable [OF this] have "members (set_after sigdelset (set_after sigdelset ?nb SIGKILL) SIGSTOP) =
      (if how = SIG_BLOCK then members (blocked t) \<union> members m
       else if how = SIG_UNBLOCK then members (blocked t) - members m else members m) - {SIGKILL, SIGSTOP}"
    using assms by (simp add: members_map2_or members_map2_and_not)
  moreover have "do_sigprocmask how (Some m) True s =
      (if how = SIG_BLOCK \<or> how = SIG_UNBLOCK \<or> how = SIG_SETMASK
       then Return (0, Some (blocked t),
         put_task (current s) (t\<lparr>blocked := set_after sigdelset (set_after sigdelset ?nb SIGKILL) SIGSTOP\<rparr>) s)
       else Return (- EINVAL, Some (blocked t), s))"
    using assms by (simp add: do_sigprocmask_def Let_def)
  moreover have "length (set_after sigdelset (set_after sigdelset ?nb SIGKILL) SIGSTOP) = 16"
    by (simp only: length_sigdelset \<open>length ?nb = 16\<close>)
  ultimately show ?thesis by meson
qed

text \<open>One task, with \<^verbatim>\<open>SIGHUP\<close>, \<^verbatim>\<open>SIGQUIT\<close> and \<^verbatim>\<open>SIGUSR1\<close> pending, \<^verbatim>\<open>SIGHUP\<close> blocked and a handler for \<^verbatim>\<open>SIGUSR1\<close>.\<close>

definition demo_task :: task_struct where
  "demo_task = zero_task\<lparr>pending := 0x205 # replicate 15 0, blocked := 1 # replicate 15 0,
     sighand := (sighand zero_task)[9 := zero_sigaction\<lparr>sa_handler := 0x10000\<rparr>]\<rparr>"

definition demo_current :: sched where
  "demo_current = demo_sched\<lparr>tasks := [0x1000 \<mapsto> demo_task], current := 0x1000\<rparr>"

theorem do_sigprocmask_spec_witness:
  "\<exists>nb. do_sigprocmask SIG_SETMASK (Some (replicate 16 (- 1))) True demo_current =
      Return (0, Some (blocked demo_task), put_task 0x1000 (demo_task\<lparr>blocked := nb\<rparr>) demo_current) \<and>
    members nb = members (replicate 16 (- 1)) - {SIGKILL, SIGSTOP}"
  using do_sigprocmask_spec [of demo_current demo_task "replicate 16 (- 1)" SIG_SETMASK]
  by (auto simp: demo_current_def demo_task_def)

text \<open>
  C28. \<^verbatim>\<open>do_signal_delivery\<close> takes the deliverable signals (pending and not blocked) in ascending
  order up to and including the first one with a handler of its own: these, and no others,
  leave the pending set, each with the disposition its action says. All else of the task and
  of the system is unchanged, so a second handler has to wait for the next call.
\<close>

theorem do_signal_delivery_spec:
  assumes "current s \<noteq> NULL" "tasks s (current s) = Some t" "signal_ok t"
  shows "\<exists>pend. do_signal_delivery s =
      Return (map (disposition t) (upto_first (caught t) (filter (\<lambda>sig. sig \<in> deliverable t) [1..64])),
        put_task (current s) (t\<lparr>pending := pend\<rparr>) s) \<and>
    members pend = members (pending t) - set (upto_first (caught t) (filter (\<lambda>sig. sig \<in> deliverable t) [1..64]))"
proof -
  from do_signal_delivery_eq [OF assms(2,1,3)] obtain pend where "do_signal_delivery s =
      Return (map (disposition t) (delivered t 1), put_task (current s) (t\<lparr>pending := pend\<rparr>) s)"
    "members pend = members (pending t) - set (delivered t 1)" .
  then show ?thesis unfolding delivered_def by blast
qed

lemma demo_signal_ok: "signal_ok demo_task"
  by (simp add: signal_ok_def demo_task_def zero_task_def members_def wa_test_def zero_sigaction_def bit_simps)

lemma demo_deliverable: "filter (\<lambda>sig. sig \<in> deliverable demo_task) [1..64] = [3, 10]"
  unfolding deliverable_def members_def mem_Collect_eq Diff_iff by code_simp

theorem do_signal_delivery_spec_witness:
  "\<exists>pend. do_signal_delivery demo_current =
      Return ([Defaulted 3, Handled 10], put_task 0x1000 (demo_task\<lparr>pending := pend\<rparr>) demo_current) \<and>
    members pend = members (pending demo_task) - {3, 10}"
  using do_signal_delivery_spec [of demo_current demo_task] demo_signal_ok
  by (simp add: demo_deliverable)
     (simp add: demo_current_def demo_task_def zero_task_def disposition_def caught_def handler_of_def zero_sigaction_def)

end
