(* ===== verification/Page.thy ===== *)
theory Page
  imports Prelude
begin

text \<open>
  Physical pages: \<^verbatim>\<open>kernel/mm/page.c\<close> and \<^verbatim>\<open>include/kernel/mm/page.h\<close>. A page structure is an
  entry of the array \<^verbatim>\<open>page_pool\<close>, and a pointer to one is its index (the page frame number).
  The free list threads through the free pages themselves (theory Klist); here it is the
  sequence of their addresses, or \<open>Unlinked\<close> when the list head does not link to anything any
  more. \<open>klookup\<close> stands for \<^verbatim>\<open>lookup_pa(g_kernel_pagetable, _)\<close>, the translation of theory
  PageTable on the kernel's page table.
\<close>

section \<open>Data\<close>

abbreviation PAGE_SIZE :: u64 where "PAGE_SIZE \<equiv> 0x1000"
abbreviation DRAM_BASE :: u64 where "DRAM_BASE \<equiv> 0x80000000"
abbreviation KERN_BASE :: u64 where "KERN_BASE \<equiv> 0x80200000"
abbreviation PKE_MAX_ALLOWABLE_RAM :: u64 where "PKE_MAX_ALLOWABLE_RAM \<equiv> 0x8000000"
abbreviation (input) PAGE_DIRTY :: u64 where "PAGE_DIRTY \<equiv> 0x1"
abbreviation (input) PAGE_UPTODATE :: u64 where "PAGE_UPTODATE \<equiv> 0x2"
abbreviation (input) PAGE_LOCKED :: u64 where "PAGE_LOCKED \<equiv> 0x4"

definition ROUNDUP :: "u64 \<Rightarrow> u64 \<Rightarrow> u64" where
  "ROUNDUP a b = ((a - 1) div b + 1) * b"

definition ROUNDDOWN :: "u64 \<Rightarrow> u64 \<Rightarrow> u64" where
  "ROUNDDOWN a b = a div b * b"

record page =
  page_flags :: u64
  page_mapping :: ptr
  page_refcount :: int
  page_index :: u64
  kmalloc_size :: u64
  paddr :: u64
  page_lock :: bool

datatype free_list = Linked "u64 list" | Unlinked

record page_state =
  page_pool :: "page list"
  total_pages :: u64
  mem_base_addr :: u64
  mem_size :: u64
  free_page_list :: free_list
  free_page_counter :: u64
  list_head_addr :: u64
  zeroed :: "u64 list"

text \<open>\<open>zeroed\<close> records the addresses at which \<^verbatim>\<open>alloc_page\<close> has cleared \<^verbatim>\<open>PAGE_SIZE\<close> bytes.\<close>

section \<open>Operations\<close>

text \<open>\<^verbatim>\<open>init_page_struct\<close> leaves \<^verbatim>\<open>kmalloc_size\<close> as it is.\<close>

definition init_page_struct :: "page \<Rightarrow> page" where
  "init_page_struct pg = pg\<lparr>page_flags := 0, page_refcount := 0, page_index := 0, paddr := 0, page_mapping := NULL, page_lock := False\<rparr>"

definition get_pfn :: "(u64 \<Rightarrow> u64) \<Rightarrow> u64 \<Rightarrow> page_state \<Rightarrow> u64" where
  "get_pfn klookup pa s =
     (let pa' = (if pa \<ge> mem_base_addr s + mem_size s then klookup pa else pa)
      in (pa' - mem_base_addr s) div PAGE_SIZE)"

text \<open>
  \<^verbatim>\<open>get_free_page_addr\<close>: in an empty list the next node of the head is the head itself, so it
  is the head that is unlinked and returned.
\<close>

definition get_free_page_addr :: "page_state \<Rightarrow> u64 \<times> page_state" where
  "get_free_page_addr s =
     (case free_page_list s of
        Linked (x # xs) \<Rightarrow> (x, s\<lparr>free_page_list := Linked xs, free_page_counter := free_page_counter s - 1\<rparr>)
      | Linked [] \<Rightarrow> (list_head_addr s, s\<lparr>free_page_list := Unlinked, free_page_counter := free_page_counter s - 1\<rparr>)
      | Unlinked \<Rightarrow> (NULL, s))"

text \<open>\<^verbatim>\<open>put_free_page\<close>: the range test has no effect, since \<^verbatim>\<open>panic\<close> is empty.\<close>

definition put_free_page :: "u64 \<Rightarrow> page_state \<Rightarrow> page_state outcome" where
  "put_free_page addr s =
     (if addr = NULL then Fault
      else case free_page_list s of
        Linked xs \<Rightarrow> Return (s\<lparr>free_page_list := Linked (addr # xs), free_page_counter := free_page_counter s + 1\<rparr>)
      | Unlinked \<Rightarrow> Fault)"

definition pfn_to_page :: "u64 \<Rightarrow> page_state \<Rightarrow> nat option" where
  "pfn_to_page pfn s = (if pfn \<ge> total_pages s then None else Some (unat pfn))"

definition addr_to_page :: "(u64 \<Rightarrow> u64) \<Rightarrow> u64 \<Rightarrow> page_state \<Rightarrow> nat option" where
  "addr_to_page klookup addr s =
     (let pa = (if addr \<ge> mem_base_addr s + mem_size s then klookup addr else addr)
      in if pa mod PAGE_SIZE \<noteq> 0 \<or> pa < mem_base_addr s \<or> pa \<ge> mem_base_addr s + mem_size s then None
         else pfn_to_page (get_pfn klookup pa s) s)"

definition page_to_pfn :: "nat option \<Rightarrow> u64" where
  "page_to_pfn p = (case p of None \<Rightarrow> 0 | Some i \<Rightarrow> of_nat i)"

text \<open>Updating a page structure through its pointer; nothing happens for \<^verbatim>\<open>NULL\<close>.\<close>

definition on_page :: "(page \<Rightarrow> page) \<Rightarrow> nat option \<Rightarrow> page_state \<Rightarrow> page_state" where
  "on_page f p s = (case p of None \<Rightarrow> s | Some i \<Rightarrow> s\<lparr>page_pool := (page_pool s)[i := f (page_pool s ! i)]\<rparr>)"

definition alloc_page :: "(u64 \<Rightarrow> u64) \<Rightarrow> page_state \<Rightarrow> nat option \<times> page_state" where
  "alloc_page klookup s =
     (case get_free_page_addr s of
        (pa, s1) \<Rightarrow>
          if pa = NULL then (None, s1)
          else let s2 = s1\<lparr>zeroed := zeroed s1 @ [pa]\<rparr>; p = addr_to_page klookup pa s2
               in (p, on_page (\<lambda>pg. (init_page_struct pg)\<lparr>page_refcount := 1, paddr := pa\<rparr>) p s2))"

text \<open>\<^verbatim>\<open>put_page\<close> resets the structure before it reads the address from it.\<close>

definition put_page :: "nat option \<Rightarrow> page_state \<Rightarrow> page_state outcome" where
  "put_page p s =
     (case p of
        None \<Rightarrow> Return s
      | Some i \<Rightarrow>
          if page_refcount (page_pool s ! i) \<noteq> 0 then Return s
          else let s1 = on_page init_page_struct p s
               in put_free_page (paddr (page_pool s1 ! i)) s1)"

definition get_page :: "nat option \<Rightarrow> page_state \<Rightarrow> page_state" where
  "get_page p s = on_page (\<lambda>pg. pg\<lparr>page_refcount := int32_of (page_refcount pg + 1)\<rparr>) p s"

definition set_page_dirty :: "nat option \<Rightarrow> page_state \<Rightarrow> page_state" where
  "set_page_dirty p s = on_page (\<lambda>pg. pg\<lparr>page_flags := page_flags pg OR PAGE_DIRTY\<rparr>) p s"

definition clear_page_dirty :: "nat option \<Rightarrow> page_state \<Rightarrow> page_state" where
  "clear_page_dirty p s = on_page (\<lambda>pg. pg\<lparr>page_flags := page_flags pg AND NOT PAGE_DIRTY\<rparr>) p s"

definition test_page_dirty :: "nat option \<Rightarrow> page_state \<Rightarrow> int" where
  "test_page_dirty p s =
     (case p of None \<Rightarrow> 0 | Some i \<Rightarrow> if page_flags (page_pool s ! i) AND PAGE_DIRTY \<noteq> 0 then 1 else 0)"

text \<open>\<^verbatim>\<open>lock_page\<close> spins for ever on a locked page: \<open>None\<close>.\<close>

definition lock_page :: "nat option \<Rightarrow> page_state \<Rightarrow> page_state option" where
  "lock_page p s =
     (case p of
        None \<Rightarrow> Some s
      | Some i \<Rightarrow>
          if page_lock (page_pool s ! i) then None
          else Some (on_page (\<lambda>pg. pg\<lparr>page_lock := True, page_flags := page_flags pg OR PAGE_LOCKED\<rparr>) p s))"

definition unlock_page :: "nat option \<Rightarrow> page_state \<Rightarrow> page_state" where
  "unlock_page p s = on_page (\<lambda>pg. pg\<lparr>page_flags := page_flags pg AND NOT PAGE_LOCKED, page_lock := False\<rparr>) p s"

definition trylock_page :: "nat option \<Rightarrow> page_state \<Rightarrow> int \<times> page_state" where
  "trylock_page p s =
     (case p of
        None \<Rightarrow> (0, s)
      | Some i \<Rightarrow>
          if page_lock (page_pool s ! i) then (0, s)
          else (1, on_page (\<lambda>pg. pg\<lparr>page_lock := True, page_flags := page_flags pg OR PAGE_LOCKED\<rparr>) p s))"

definition page_uptodate :: "nat \<Rightarrow> page_state \<Rightarrow> int" where
  "page_uptodate i s = (if page_flags (page_pool s ! i) AND PAGE_UPTODATE \<noteq> 0 then 1 else 0)"

definition set_page_uptodate :: "nat \<Rightarrow> page_state \<Rightarrow> page_state" where
  "set_page_uptodate i s = on_page (\<lambda>pg. pg\<lparr>page_flags := page_flags pg OR PAGE_UPTODATE\<rparr>) (Some i) s"

definition get_free_page_count :: "page_state \<Rightarrow> int" where
  "get_free_page_count s = int32_of (uint (free_page_counter s))"

text \<open>
  \<^verbatim>\<open>init_page_manager\<close>, for a kernel that ends at \<open>kernel_end\<close> and a memory of \<open>ram\<close> bytes; \<open>head\<close>
  is the address of the variable \<^verbatim>\<open>free_page_list\<close>. A page structure has 72 bytes. The loop at
  the end runs up to \<^verbatim>\<open>DRAM_BASE + mem_size\<close>, far below the end of the address space, so its
  counter is a natural number here.
\<close>

definition sizeof_page :: u64 where
  "sizeof_page = 72"

function free_loop :: "nat \<Rightarrow> nat \<Rightarrow> page_state \<Rightarrow> page_state outcome" where
  "free_loop i e s =
     (if i < e then bind_outcome (put_free_page (of_nat i) s) (free_loop (i + unat PAGE_SIZE) e) else Return s)"
  by pat_completeness auto
termination
  by (relation "measure (\<lambda>(i, e, s). e - i)") auto

declare free_loop.simps [simp del]

definition init_page_manager :: "u64 \<Rightarrow> u64 \<Rightarrow> u64 \<Rightarrow> page list \<Rightarrow> page_state outcome" where
  "init_page_manager kernel_end ram head raw =
     (let free_mem_start_addr = ROUNDUP kernel_end PAGE_SIZE;
          size = ROUNDDOWN (if PKE_MAX_ALLOWABLE_RAM < ram then PKE_MAX_ALLOWABLE_RAM else ram) PAGE_SIZE;
          total = size div PAGE_SIZE;
          page_map_size = ROUNDUP (total * sizeof_page) PAGE_SIZE;
          s = \<lparr>page_pool = map init_page_struct (take (unat total) raw), total_pages = total, mem_base_addr = KERN_BASE,
               mem_size = size, free_page_list = Linked [], free_page_counter = 0, list_head_addr = head, zeroed = []\<rparr>
      in free_loop (unat (free_mem_start_addr + page_map_size)) (unat (DRAM_BASE + size)) s)"

section \<open>Invariant\<close>

definition in_ram :: "page_state \<Rightarrow> u64 \<Rightarrow> bool" where
  "in_ram s x \<longleftrightarrow> unat x mod 4096 = 0 \<and> unat (mem_base_addr s) \<le> unat x \<and> unat x < unat (mem_base_addr s) + unat (mem_size s)"

definition page_inv :: "page_state \<Rightarrow> bool" where
  "page_inv s \<longleftrightarrow> 0 < unat (mem_base_addr s) \<and> unat (mem_base_addr s) mod 4096 = 0 \<and> unat (mem_size s) mod 4096 = 0 \<and>
     unat (mem_base_addr s) + unat (mem_size s) < 2 ^ 64 \<and> unat (total_pages s) = unat (mem_size s) div 4096 \<and>
     length (page_pool s) = unat (total_pages s) \<and>
     (\<forall>xs. free_page_list s = Linked xs \<longrightarrow> distinct xs \<and> (\<forall>x \<in> set xs. in_ram s x))"

text \<open>The page frame number of an address.\<close>

definition frame_of :: "page_state \<Rightarrow> u64 \<Rightarrow> nat" where
  "frame_of s x = (unat x - unat (mem_base_addr s)) div 4096"

lemma ram_end:
  assumes "page_inv s"
  shows "unat (mem_base_addr s + mem_size s) = unat (mem_base_addr s) + unat (mem_size s)"
  using assms by (simp add: page_inv_def unat_plus_if')

lemma addr_to_page_in_ram:
  assumes inv: "page_inv s" and x: "in_ram s x"
  shows "addr_to_page klookup x s = Some (frame_of s x)" "frame_of s x < length (page_pool s)"
proof -
  have lt: "\<not> x \<ge> mem_base_addr s + mem_size s" "\<not> x < mem_base_addr s" "x mod PAGE_SIZE = 0"
    using x ram_end [OF inv] by (simp_all add: in_ram_def word_le_nat_alt word_less_nat_alt word_arith_nat_mod)
  have pfn: "unat ((x - mem_base_addr s) div PAGE_SIZE) = frame_of s x"
    using x by (simp add: frame_of_def unat_div unat_sub word_le_nat_alt in_ram_def)
  obtain a b where ab: "unat (mem_base_addr s) = 4096 * a" "unat (mem_size s) = 4096 * b"
    using inv by (auto simp: page_inv_def mod_eq_0_iff_dvd elim!: dvdE)
  obtain c where c: "unat x = 4096 * c" using x by (auto simp: in_ram_def mod_eq_0_iff_dvd elim!: dvdE)
  have "frame_of s x = c - a" using ab c by (simp add: frame_of_def flip: diff_mult_distrib2)
  moreover have "a \<le> c" "c < a + b" using x ab c by (auto simp: in_ram_def)
  ultimately have "frame_of s x < b" by simp
  moreover have "unat (total_pages s) = b" "length (page_pool s) = b" using inv ab by (simp_all add: page_inv_def)
  ultimately show "addr_to_page klookup x s = Some (frame_of s x)" "frame_of s x < length (page_pool s)"
    using lt pfn by (simp_all add: addr_to_page_def Let_def get_pfn_def pfn_to_page_def word_le_nat_alt)
qed

lemma frame_of_inj:
  assumes "page_inv s" "in_ram s x" "in_ram s y" "frame_of s x = frame_of s y"
  shows "x = y"
proof -
  obtain a where a: "unat (mem_base_addr s) = 4096 * a" using assms(1) by (auto simp: page_inv_def mod_eq_0_iff_dvd elim!: dvdE)
  obtain b where b: "unat x = 4096 * b" using assms(2) by (auto simp: in_ram_def mod_eq_0_iff_dvd elim!: dvdE)
  obtain c where c: "unat y = 4096 * c" using assms(3) by (auto simp: in_ram_def mod_eq_0_iff_dvd elim!: dvdE)
  have "a \<le> b" "a \<le> c" using assms(2,3) a b c by (auto simp: in_ram_def)
  with assms(4) a b c have "b = c" by (simp add: frame_of_def flip: diff_mult_distrib2)
  with b c show "x = y" by (simp add: word_unat_eq_iff)
qed

lemma on_page_frame [simp]:
  "free_page_list (on_page f p s) = free_page_list s" "mem_base_addr (on_page f p s) = mem_base_addr s"
  "mem_size (on_page f p s) = mem_size s" "total_pages (on_page f p s) = total_pages s"
  "length (page_pool (on_page f p s)) = length (page_pool s)" "list_head_addr (on_page f p s) = list_head_addr s"
  by (simp_all add: on_page_def split: option.split)

lemma alloc_page_Cons:
  assumes inv: "page_inv s" and l: "free_page_list s = Linked (x # xs)"
  shows "\<exists>s'. alloc_page klookup s = (Some (frame_of s x), s') \<and> free_page_list s' = Linked xs \<and> zeroed s' = zeroed s @ [x] \<and>
    mem_base_addr s' = mem_base_addr s \<and> mem_size s' = mem_size s \<and> total_pages s' = total_pages s \<and>
    list_head_addr s' = list_head_addr s \<and>
    page_pool s' = (page_pool s)[frame_of s x := (init_page_struct (page_pool s ! frame_of s x))\<lparr>page_refcount := 1, paddr := x\<rparr>]"
proof -
  have x: "in_ram s x" using inv l by (simp add: page_inv_def)
  then have nz: "x \<noteq> NULL" using inv by (auto simp: page_inv_def in_ram_def)
  let ?s = "s\<lparr>free_page_list := Linked xs, free_page_counter := free_page_counter s - 1, zeroed := zeroed s @ [x]\<rparr>"
  have "addr_to_page klookup x ?s = addr_to_page klookup x s"
    by (simp add: addr_to_page_def get_pfn_def pfn_to_page_def Let_def)
  with addr_to_page_in_ram(1) [OF inv x] nz l show ?thesis
    by (simp add: alloc_page_def get_free_page_addr_def Let_def on_page_def)
qed

lemma alloc_page_Nil:
  assumes l: "free_page_list s = Linked []" and h: "list_head_addr s mod PAGE_SIZE \<noteq> 0" "list_head_addr s < mem_base_addr s + mem_size s"
  shows "alloc_page klookup s = (None, s\<lparr>free_page_list := Unlinked, free_page_counter := free_page_counter s - 1,
    zeroed := zeroed s @ [list_head_addr s]\<rparr>)"
proof -
  have "list_head_addr s \<noteq> NULL" "\<not> mem_base_addr s + mem_size s \<le> list_head_addr s" using h by auto
  with l h show ?thesis
    by (simp add: alloc_page_def get_free_page_addr_def Let_def addr_to_page_def on_page_def)
qed

lemma alloc_page_Unlinked: "free_page_list s = Unlinked \<Longrightarrow> alloc_page klookup s = (None, s)"
  by (simp add: alloc_page_def get_free_page_addr_def)

text \<open>A valid page pointer.\<close>

definition page_ptr :: "page_state \<Rightarrow> nat option \<Rightarrow> bool" where
  "page_ptr s p \<longleftrightarrow> (\<forall>i. p = Some i \<longrightarrow> i < length (page_pool s))"

lemma put_page_cases: "page_ptr s p \<Longrightarrow> put_page p s = Return s' \<Longrightarrow> s' = s"
  by (auto simp: page_ptr_def put_page_def Let_def on_page_def init_page_struct_def put_free_page_def nth_list_update split: option.splits if_splits)

section \<open>Runs\<close>

text \<open>
  What the kernel does with pages after the start in state \<open>s0\<close>: the page pointers that
  \<^verbatim>\<open>alloc_page\<close> has returned so far, in order.
\<close>

inductive page_run :: "(u64 \<Rightarrow> u64) \<Rightarrow> page_state \<Rightarrow> page_state \<Rightarrow> nat list \<Rightarrow> bool" for klookup s0 where
  start: "page_run klookup s0 s0 []"
| alloc: "page_run klookup s0 s ps \<Longrightarrow> alloc_page klookup s = (Some i, s') \<Longrightarrow> page_run klookup s0 s' (ps @ [i])"
| alloc_fails: "page_run klookup s0 s ps \<Longrightarrow> alloc_page klookup s = (None, s') \<Longrightarrow> page_run klookup s0 s' ps"
| put: "page_run klookup s0 s ps \<Longrightarrow> page_ptr s p \<Longrightarrow> put_page p s = Return s' \<Longrightarrow> page_run klookup s0 s' ps"
| get: "page_run klookup s0 s ps \<Longrightarrow> page_ptr s p \<Longrightarrow> page_run klookup s0 (get_page p s) ps"
| flags: "page_run klookup s0 s ps \<Longrightarrow> page_ptr s (Some i) \<Longrightarrow>
    s' \<in> {set_page_dirty (Some i) s, clear_page_dirty (Some i) s, set_page_uptodate i s, unlock_page (Some i) s,
          snd (trylock_page (Some i) s)} \<Longrightarrow> page_run klookup s0 s' ps"
| lock: "page_run klookup s0 s ps \<Longrightarrow> page_ptr s p \<Longrightarrow> lock_page p s = Some s' \<Longrightarrow> page_run klookup s0 s' ps"

text \<open>What does not change but for the free list and the page structures.\<close>

definition same_ram :: "page_state \<Rightarrow> page_state \<Rightarrow> bool" where
  "same_ram s s' \<longleftrightarrow> mem_base_addr s' = mem_base_addr s \<and> mem_size s' = mem_size s \<and> total_pages s' = total_pages s \<and>
     list_head_addr s' = list_head_addr s \<and> length (page_pool s') = length (page_pool s)"

text \<open>After \<open>n\<close> allocations from the free list \<open>xs\<close>.\<close>

definition taken :: "page_state \<Rightarrow> u64 list \<Rightarrow> page_state \<Rightarrow> nat list \<Rightarrow> bool" where
  "taken s0 xs s ps \<longleftrightarrow> same_ram s0 s \<and>
     (\<exists>n \<le> length xs. ps = map (frame_of s0) (take n xs) \<and>
       (free_page_list s = Linked (drop n xs) \<or> n = length xs \<and> free_page_list s = Unlinked))"

lemma taken_keep: "taken s0 xs s ps \<Longrightarrow> same_ram s s' \<Longrightarrow> free_page_list s' = free_page_list s \<Longrightarrow> taken s0 xs s' ps"
  by (simp add: taken_def same_ram_def)

lemma same_ram_on_page: "same_ram s (on_page f p s)"
  by (simp add: same_ram_def)

lemma taken_inv:
  assumes inv: "page_inv s0" and l: "free_page_list s0 = Linked xs" and t: "taken s0 xs s ps"
  shows "page_inv s" "frame_of s = frame_of s0"
proof -
  have s: "same_ram s0 s" using t by (simp add: taken_def)
  have fl: "distinct xs" "\<forall>x \<in> set xs. in_ram s0 x" using inv l by (simp_all add: page_inv_def)
  have ram: "in_ram s x \<longleftrightarrow> in_ram s0 x" for x using s by (simp add: same_ram_def in_ram_def)
  have "distinct ys \<and> (\<forall>x \<in> set ys. in_ram s x)" if "free_page_list s = Linked ys" for ys
    using that t fl ram by (auto simp: taken_def dest: in_set_dropD)
  then show "page_inv s" using inv s by (simp add: page_inv_def same_ram_def)
  show "frame_of s = frame_of s0" using s by (auto simp: frame_of_def same_ram_def)
qed

lemma taken_alloc:
  assumes inv: "page_inv s0" and l: "free_page_list s0 = Linked xs" and t: "taken s0 xs s ps"
    and h: "list_head_addr s0 mod PAGE_SIZE \<noteq> 0" "list_head_addr s0 < mem_base_addr s0 + mem_size s0"
    and a: "alloc_page klookup s = (r, s')"
  shows "taken s0 xs s' (case r of None \<Rightarrow> ps | Some i \<Rightarrow> ps @ [i])"
proof -
  note sinv = taken_inv [OF inv l t]
  have s: "same_ram s0 s" using t by (simp add: taken_def)
  from t obtain n where n: "n \<le> length xs" "ps = map (frame_of s0) (take n xs)"
    "free_page_list s = Linked (drop n xs) \<or> n = length xs \<and> free_page_list s = Unlinked" by (auto simp: taken_def)
  show ?thesis
  proof (cases "free_page_list s = Unlinked")
    case True
    with a t show ?thesis by (simp add: alloc_page_Unlinked)
  next
    case False
    with n(3) have fl: "free_page_list s = Linked (drop n xs)" by simp
    show ?thesis
    proof (cases "n = length xs")
      case True
      with fl h s have "alloc_page klookup s = (None, s\<lparr>free_page_list := Unlinked, free_page_counter := free_page_counter s - 1,
          zeroed := zeroed s @ [list_head_addr s]\<rparr>)"
        by (intro alloc_page_Nil) (simp_all add: same_ram_def)
      with a n(2) s True show ?thesis by (auto simp: taken_def same_ram_def)
    next
      case False
      with n(1) have d: "drop n xs = xs ! n # drop (Suc n) xs" by (simp add: Cons_nth_drop_Suc)
      from alloc_page_Cons [OF sinv(1) fl [unfolded d], of klookup] a
      have r: "r = Some (frame_of s0 (xs ! n))" "free_page_list s' = Linked (drop (Suc n) xs)" "same_ram s s'"
        by (auto simp: same_ram_def sinv(2))
      have "take (Suc n) xs = take n xs @ [xs ! n]" using n(1) False by (simp add: take_Suc_conv_app_nth)
      with r n s False show ?thesis unfolding taken_def
        by (auto simp: same_ram_def intro!: exI [of _ "Suc n"])
    qed
  qed
qed

section \<open>Start\<close>

lemma unat_ROUNDDOWN: "unat (ROUNDDOWN x PAGE_SIZE) = unat x div 4096 * 4096"
proof -
  have "unat x div 4096 * 4096 \<le> unat x" by simp
  moreover have "unat x < 2 ^ LENGTH(64)" by (rule unsigned_less)
  ultimately show ?thesis by (simp add: ROUNDDOWN_def unat_word_ariths unat_div)
qed

lemma unat_ROUNDUP:
  assumes "unat x + 4095 < 2 ^ 64"
  shows "unat (ROUNDUP x PAGE_SIZE) = (unat x + 4095) div 4096 * 4096"
proof (cases "x = 0")
  case True
  have "ROUNDUP 0 PAGE_SIZE = 0" by code_simp
  with True show ?thesis by simp
next
  case False
  then obtain n where n: "unat x = Suc n" by (metis unat_eq_0 not0_implies_Suc unsigned_eq_0_iff)
  then have "unat (x - 1) = n" using False by (simp add: unat_minus_one)
  then have d: "unat ((x - 1) div PAGE_SIZE) = n div 4096" by (simp add: unat_div)
  have "n div 4096 + 1 < 2 ^ 64" using assms n by simp
  then have d1: "unat ((x - 1) div PAGE_SIZE + 1) = n div 4096 + 1" using d by (simp add: unat_word_ariths)
  have "(n div 4096 + 1) * 4096 \<le> n + 4096" by simp
  then have "(n div 4096 + 1) * 4096 < 2 ^ 64" using assms n by simp
  then have "unat (ROUNDUP x PAGE_SIZE) = (n div 4096 + 1) * 4096"
    unfolding ROUNDUP_def unat_word_ariths(2) d1 by simp
  moreover have "(Suc n + 4095) div 4096 = n div 4096 + 1" using div_add_self2 [of 4096 n] by simp
  ultimately show ?thesis unfolding n by simp
qed

lemma next_multiple:
  assumes "(i :: nat) \<le> m" "m mod 4096 = i mod 4096"
  shows "m = i \<or> i + 4096 \<le> m"
proof -
  have "4096 dvd m - i" using assms by (metis mod_eq_dvd_iff_nat)
  then obtain q where "m - i = 4096 * q" by (auto elim: dvdE)
  with assms(1) show ?thesis by (cases q) auto
qed

lemma free_loop_spec:
  assumes "free_page_list s = Linked xs" "0 < i" "e < 2 ^ 64"
  shows "\<exists>ys s'. free_loop i e s = Return s' \<and> same_ram s s' \<and> page_pool s' = page_pool s \<and> free_page_list s' = Linked (ys @ xs) \<and>
    free_page_counter s' = free_page_counter s + of_nat (length ys) \<and> distinct ys \<and>
    set ys = {y. i \<le> unat y \<and> unat y < e \<and> unat y mod 4096 = i mod 4096}"
  using assms
proof (induction i e s arbitrary: xs rule: free_loop.induct)
  case (1 i e s)
  show ?case
  proof (cases "i < e")
    case False
    then have "{y :: u64. i \<le> unat y \<and> unat y < e \<and> unat y mod 4096 = i mod 4096} = {}" by auto
    with False 1(2) show ?thesis by (simp add: free_loop.simps same_ram_def)
  next
    case True
    then have u: "unat (of_nat i :: u64) = i" using 1(4) by (simp add: unat_of_nat)
    then have nz: "(of_nat i :: u64) \<noteq> NULL" using 1(3) by (metis unat_0 less_irrefl)
    let ?s = "s\<lparr>free_page_list := Linked (of_nat i # xs), free_page_counter := free_page_counter s + 1\<rparr>"
    have p: "put_free_page (of_nat i) s = Return ?s" using nz 1(2) by (simp add: put_free_page_def)
    from 1(1) [OF True, of ?s "of_nat i # xs"] 1(3,4) obtain ys s' where IH:
      "free_loop (i + 4096) e ?s = Return s'" "same_ram ?s s'" "page_pool s' = page_pool s" "free_page_list s' = Linked (ys @ of_nat i # xs)"
      "free_page_counter s' = free_page_counter s + 1 + of_nat (length ys)" "distinct ys"
      "set ys = {y. i + 4096 \<le> unat y \<and> unat y < e \<and> unat y mod 4096 = i mod 4096}" by auto
    have "free_loop i e s = Return s'" using True p IH(1) by (simp add: free_loop.simps [of i])
    moreover have "set (ys @ [of_nat i]) = {y. i \<le> unat y \<and> unat y < e \<and> unat y mod 4096 = i mod 4096}"
    proof (intro set_eqI iffI)
      fix y :: u64 assume y: "y \<in> {y. i \<le> unat y \<and> unat y < e \<and> unat y mod 4096 = i mod 4096}"
      then have "unat y = i \<or> i + 4096 \<le> unat y" using next_multiple [of i "unat y"] by simp
      then show "y \<in> set (ys @ [of_nat i])"
      proof
        assume "unat y = i"
        then have "y = of_nat i" by (intro word_unat_eq_iff [THEN iffD2]) (simp add: u)
        then show ?thesis by simp
      next
        assume "i + 4096 \<le> unat y"
        with y show ?thesis by (simp add: IH(7))
      qed
    next
      fix y assume "y \<in> set (ys @ [of_nat i])"
      then have "y \<in> set ys \<or> y = of_nat i" by auto
      then show "y \<in> {y. i \<le> unat y \<and> unat y < e \<and> unat y mod 4096 = i mod 4096}"
        using True u by (auto simp: IH(7))
    qed
    moreover have "distinct (ys @ [of_nat i])" using IH(6,7) u by auto
    ultimately show ?thesis using IH(2-5) by (intro exI [of _ "ys @ [of_nat i]"] exI [of _ s']) (simp add: same_ram_def algebra_simps)
  qed
qed

lemma init_sizes:
  fixes ram :: u64
  defines "sz \<equiv> ROUNDDOWN (if PKE_MAX_ALLOWABLE_RAM < ram then PKE_MAX_ALLOWABLE_RAM else ram) PAGE_SIZE"
  shows "unat sz \<le> 0x8000000" "unat sz mod 4096 = 0" "unat (sz div PAGE_SIZE) = unat sz div 4096"
    "unat (ROUNDUP (sz div PAGE_SIZE * sizeof_page) PAGE_SIZE) mod 4096 = 0"
    "unat (ROUNDUP (sz div PAGE_SIZE * sizeof_page) PAGE_SIZE) \<le> 0x300000"
proof -
  have "unat (if PKE_MAX_ALLOWABLE_RAM < ram then PKE_MAX_ALLOWABLE_RAM else ram) \<le> 0x8000000"
    by (simp add: word_less_nat_alt)
  then show sz: "unat sz \<le> 0x8000000" unfolding sz_def unat_ROUNDDOWN by (rule order_trans [rotated]) simp
  show "unat sz mod 4096 = 0" unfolding sz_def unat_ROUNDDOWN by simp
  show t: "unat (sz div PAGE_SIZE) = unat sz div 4096" by (simp add: unat_div)
  have "unat sz div 4096 \<le> 0x8000" using div_le_mono [OF sz, of 4096] by simp
  then have m: "unat (sz div PAGE_SIZE * sizeof_page) \<le> 0x240000"
    using t by (simp add: sizeof_page_def unat_word_ariths(2))
  then have r: "unat (ROUNDUP (sz div PAGE_SIZE * sizeof_page) PAGE_SIZE) =
      (unat (sz div PAGE_SIZE * sizeof_page) + 4095) div 4096 * 4096" by (intro unat_ROUNDUP) simp
  show "unat (ROUNDUP (sz div PAGE_SIZE * sizeof_page) PAGE_SIZE) mod 4096 = 0" unfolding r by simp
  show "unat (ROUNDUP (sz div PAGE_SIZE * sizeof_page) PAGE_SIZE) \<le> 0x300000"
    unfolding r by (rule order_trans [of _ "unat (sz div PAGE_SIZE * sizeof_page) + 4095"]) (use m in simp_all)
qed

lemma init_loop_ok:
  fixes sz mp ru head :: u64
  assumes sz: "unat sz \<le> 0x8000000" "unat sz mod 4096 = 0" and mp: "unat mp mod 4096 = 0" "unat mp \<le> 0x300000"
    and ru: "unat ru mod 4096 = 0" "0x80200000 \<le> unat ru" "unat ru \<le> 0x88001000" and pool: "length pool = unat sz div 4096"
  shows "\<exists>s xs. free_loop (unat (ru + mp)) (unat (DRAM_BASE + sz))
      \<lparr>page_pool = pool, total_pages = sz div PAGE_SIZE, mem_base_addr = KERN_BASE, mem_size = sz, free_page_list = Linked [],
       free_page_counter = 0, list_head_addr = head, zeroed = []\<rparr> = Return s \<and>
    page_inv s \<and> free_page_list s = Linked xs \<and> list_head_addr s = head \<and> mem_base_addr s = KERN_BASE \<and> mem_size s = sz \<and>
    total_pages s = sz div PAGE_SIZE \<and> free_page_counter s = of_nat (length xs) \<and>
    set xs = {x. unat ru + unat mp \<le> unat x \<and> unat x < unat DRAM_BASE + unat sz \<and> unat x mod 4096 = 0}"
proof -
  let ?s = "\<lparr>page_pool = pool, total_pages = sz div PAGE_SIZE, mem_base_addr = KERN_BASE, mem_size = sz, free_page_list = Linked [],
       free_page_counter = 0, list_head_addr = head, zeroed = []\<rparr>"
  let ?start = "unat ru + unat mp"
  have st: "unat (ru + mp) = ?start" using mp(2) ru(3) by (simp add: unat_plus_if')
  have e: "unat (DRAM_BASE + sz) = 0x80000000 + unat sz" using sz(1) by (simp add: unat_plus_if')
  have m0: "?start mod 4096 = 0" using ru(1) mp(1) by (simp add: mod_add_eq [symmetric])
  have pos: "0 < ?start" "0x80000000 + unat sz < 2 ^ 64" using ru(2) sz(1) by simp_all
  have "free_page_list ?s = Linked []" by simp
  from free_loop_spec [OF this pos] obtain ys s' where
    f: "free_loop ?start (0x80000000 + unat sz) ?s = Return s'" "same_ram ?s s'" "free_page_list s' = Linked (ys @ [])"
      "free_page_counter s' = free_page_counter ?s + of_nat (length ys)" "distinct ys"
      "set ys = {y. ?start \<le> unat y \<and> unat y < 0x80000000 + unat sz \<and> unat y mod 4096 = ?start mod 4096}" by blast
  have flds: "mem_base_addr s' = KERN_BASE" "mem_size s' = sz" "total_pages s' = sz div PAGE_SIZE" "list_head_addr s' = head"
    "length (page_pool s') = unat sz div 4096" using f(2) pool by (simp_all add: same_ram_def)
  have ram: "in_ram s' x" if "x \<in> set ys" for x
  proof -
    from that have "?start \<le> unat x" "unat x < 0x80000000 + unat sz" "unat x mod 4096 = 0" by (simp_all add: f(6) m0)
    with ru(2) show ?thesis by (simp add: in_ram_def flds)
  qed
  have "unat (sz div PAGE_SIZE) = unat sz div 4096" by (simp add: unat_div)
  with sz f(3,5) ram have inv: "page_inv s'" by (simp add: page_inv_def flds)
  have "set ys = {x. ?start \<le> unat x \<and> unat x < unat DRAM_BASE + unat sz \<and> unat x mod 4096 = 0}" by (simp add: f(6) m0)
  with f(1,3,4) flds inv show ?thesis unfolding st e by (intro exI [of _ s'] exI [of _ ys]) simp
qed

section \<open>Properties\<close>

text \<open>
  C40. For a kernel that ends between \<^verbatim>\<open>KERN_BASE\<close> and the end of the largest memory,
  \<^verbatim>\<open>init_page_manager\<close> puts exactly the page-aligned addresses from the end of the page array up
  to \<^verbatim>\<open>DRAM_BASE + mem_size\<close> on the free list, each once, all inside the managed memory, and the
  counter is their number.
\<close>

theorem init_page_manager_spec:
  assumes ke: "KERN_BASE \<le> ke" "ke \<le> DRAM_BASE + PKE_MAX_ALLOWABLE_RAM" and raw: "unat ram div 4096 \<le> length raw"
  shows "\<exists>s xs. init_page_manager ke ram head raw = Return s \<and> page_inv s \<and> free_page_list s = Linked xs \<and>
    free_page_counter s = of_nat (length xs) \<and> distinct xs \<and>
    set xs = {x. unat (ROUNDUP ke PAGE_SIZE) + unat (ROUNDUP (total_pages s * sizeof_page) PAGE_SIZE) \<le> unat x \<and>
                 unat x < unat DRAM_BASE + unat (mem_size s) \<and> unat x mod 4096 = 0}"
proof -
  define sz where "sz = ROUNDDOWN (if PKE_MAX_ALLOWABLE_RAM < ram then PKE_MAX_ALLOWABLE_RAM else ram) PAGE_SIZE"
  note z = init_sizes [of ram, folded sz_def]
  have k: "unat ke \<le> 0x88000000" "0x80200000 \<le> unat ke" using ke by (simp_all add: word_le_nat_alt)
  then have ru: "unat (ROUNDUP ke PAGE_SIZE) = (unat ke + 4095) div 4096 * 4096" by (intro unat_ROUNDUP) simp
  then have r: "unat (ROUNDUP ke PAGE_SIZE) mod 4096 = 0" "0x80200000 \<le> unat (ROUNDUP ke PAGE_SIZE)"
    "unat (ROUNDUP ke PAGE_SIZE) \<le> 0x88001000"
    using k div_le_mono [of "0x80200000 + 4095" "unat ke + 4095" 4096] div_le_mono [of "unat ke + 4095" "0x88000000 + 4095" 4096] by simp_all
  have "unat sz div 4096 \<le> unat ram div 4096"
    unfolding sz_def unat_ROUNDDOWN by (simp add: word_less_nat_alt div_le_mono)
  with raw z(3) have pool: "length (map init_page_struct (take (unat (sz div PAGE_SIZE)) raw)) = unat sz div 4096" by simp
  from init_loop_ok [OF z(1,2,4,5) r pool, of head] obtain s xs where
    s: "free_loop (unat (ROUNDUP ke PAGE_SIZE + ROUNDUP (sz div PAGE_SIZE * sizeof_page) PAGE_SIZE)) (unat (DRAM_BASE + sz))
      \<lparr>page_pool = map init_page_struct (take (unat (sz div PAGE_SIZE)) raw), total_pages = sz div PAGE_SIZE, mem_base_addr = KERN_BASE,
       mem_size = sz, free_page_list = Linked [], free_page_counter = 0, list_head_addr = head, zeroed = []\<rparr> = Return s"
    "page_inv s" "free_page_list s = Linked xs" "mem_size s = sz" "total_pages s = sz div PAGE_SIZE"
    "free_page_counter s = of_nat (length xs)"
    "set xs = {x. unat (ROUNDUP ke PAGE_SIZE) + unat (ROUNDUP (sz div PAGE_SIZE * sizeof_page) PAGE_SIZE) \<le> unat x \<and>
       unat x < unat DRAM_BASE + unat sz \<and> unat x mod 4096 = 0}" by blast
  have "init_page_manager ke ram head raw = Return s" unfolding init_page_manager_def Let_def sz_def [symmetric] by (rule s(1))
  moreover have "distinct xs" using s(2,3) by (simp add: page_inv_def)
  ultimately show ?thesis using s(2-7) by (intro exI [of _ s] exI [of _ xs] conjI) simp_all
qed

text \<open>
  C13. Whatever the kernel does with pages after the start (allocations, \<^verbatim>\<open>get_page\<close>, \<^verbatim>\<open>put_page\<close>,
  flags and locks), the pages \<^verbatim>\<open>alloc_page\<close> has returned are the first pages of the initial free
  list, in order: no page is handed out twice, and no page ever comes back, since a
  \<^verbatim>\<open>put_page\<close> that returns has changed nothing.
\<close>

theorem page_run_prefix:
  assumes "page_run klookup s0 s ps" "page_inv s0" "free_page_list s0 = Linked xs"
    "list_head_addr s0 mod PAGE_SIZE \<noteq> 0" "list_head_addr s0 < mem_base_addr s0 + mem_size s0"
  shows "\<exists>n \<le> length xs. ps = map (frame_of s0) (take n xs) \<and> distinct ps \<and>
    (free_page_list s = Linked (drop n xs) \<or> n = length xs \<and> free_page_list s = Unlinked)"
proof -
  from assms(1) have t: "taken s0 xs s ps"
  proof induction
    case start
    then show ?case using assms(3) by (auto simp: taken_def same_ram_def)
  next
    case (alloc s ps i s')
    from taken_alloc [OF assms(2,3) alloc.IH assms(4,5) alloc.hyps(2)] show ?case by simp
  next
    case (alloc_fails s ps s')
    from taken_alloc [OF assms(2,3) alloc_fails.IH assms(4,5) alloc_fails.hyps(2)] show ?case by simp
  next
    case (put s ps p s')
    from put_page_cases [OF put.hyps(2,3)] put.IH show ?case by simp
  next
    case (get s ps p)
    show ?case unfolding get_page_def by (rule taken_keep [OF get.IH same_ram_on_page]) simp
  next
    case (flags s ps i s')
    have "same_ram s s' \<and> free_page_list s' = free_page_list s" using flags.hyps(3)
      by (auto simp: set_page_dirty_def clear_page_dirty_def set_page_uptodate_def unlock_page_def trylock_page_def same_ram_on_page)
         (simp add: same_ram_def)
    then show ?case using taken_keep [OF flags.IH] by blast
  next
    case (lock s ps p s')
    have "same_ram s s' \<and> free_page_list s' = free_page_list s" using lock.hyps(3)
      by (auto simp: lock_page_def same_ram_on_page split: option.splits if_splits) (simp add: same_ram_def)
    then show ?case using taken_keep [OF lock.IH] by blast
  qed
  then obtain n where n: "n \<le> length xs" "ps = map (frame_of s0) (take n xs)"
    "free_page_list s = Linked (drop n xs) \<or> n = length xs \<and> free_page_list s = Unlinked" by (auto simp: taken_def)
  have xs: "distinct xs" "\<forall>x \<in> set xs. in_ram s0 x" using assms(2,3) by (simp_all add: page_inv_def)
  then have "inj_on (frame_of s0) (set (take n xs))"
    by (intro inj_onI frame_of_inj [OF assms(2)]) (auto dest: in_set_takeD)
  with xs(1) have "distinct (map (frame_of s0) (take n xs))" by (simp add: distinct_map)
  with n show ?thesis by blast
qed

text \<open>
  When the free pages have run out, \<^verbatim>\<open>alloc_page\<close> returns \<^verbatim>\<open>NULL\<close>, but not before it has
  unlinked the list head, let the counter wrap around to \<open>2 ^ 64 - 1\<close> and cleared \<^verbatim>\<open>PAGE_SIZE\<close>
  bytes of kernel data from the list head on.
\<close>

theorem alloc_page_exhausted:
  assumes "free_page_list s = Linked []" "free_page_counter s = 0"
    "list_head_addr s mod PAGE_SIZE \<noteq> 0" "list_head_addr s < mem_base_addr s + mem_size s"
  shows "\<exists>s'. alloc_page klookup s = (None, s') \<and> free_page_list s' = Unlinked \<and> free_page_counter s' = - 1 \<and>
    zeroed s' = zeroed s @ [list_head_addr s]"
  using alloc_page_Nil [OF assms(1,3,4)] assms(2) by simp

text \<open>A memory of two pages behind \<^verbatim>\<open>KERN_BASE\<close>, one of them free.\<close>

definition demo_page :: page where
  "demo_page = \<lparr>page_flags = 0, page_mapping = NULL, page_refcount = 0, page_index = 0, kmalloc_size = 0, paddr = 0, page_lock = False\<rparr>"

definition demo_pages :: page_state where
  "demo_pages = \<lparr>page_pool = [demo_page, demo_page], total_pages = 2, mem_base_addr = KERN_BASE, mem_size = 0x2000,
     free_page_list = Linked [0x80201000], free_page_counter = 1, list_head_addr = 0x80200010, zeroed = []\<rparr>"

lemma demo_pages_inv: "page_inv demo_pages"
  by (simp add: page_inv_def demo_pages_def in_ram_def)

theorem init_page_manager_spec_witness:
  "\<exists>s xs. init_page_manager 0x80201234 0x100000 0x80201000 (replicate 256 demo_page) = Return s \<and> page_inv s \<and>
     free_page_list s = Linked xs \<and> distinct xs"
  using init_page_manager_spec [of "0x80201234" "0x100000" "replicate 256 demo_page" "0x80201000"] by auto

theorem page_run_prefix_witness:
  "\<exists>s. alloc_page id demo_pages = (Some 1, s) \<and> free_page_list s = Linked []"
proof -
  have fl: "free_page_list demo_pages = Linked [0x80201000]" by (simp add: demo_pages_def)
  from alloc_page_Cons [OF demo_pages_inv fl] obtain s where
    s: "alloc_page id demo_pages = (Some (frame_of demo_pages 0x80201000), s)" "free_page_list s = Linked []" by blast
  have "page_run id demo_pages s [frame_of demo_pages 0x80201000]"
    using page_run.alloc [OF page_run.start s(1)] by simp
  from page_run_prefix [OF this demo_pages_inv fl] s show ?thesis
    by (auto simp: demo_pages_def frame_of_def)
qed

theorem alloc_page_exhausted_witness:
  "\<exists>s'. alloc_page id (demo_pages\<lparr>free_page_list := Linked [], free_page_counter := 0\<rparr>) = (None, s') \<and> zeroed s' = [0x80200010]"
  using alloc_page_exhausted [of "demo_pages\<lparr>free_page_list := Linked [], free_page_counter := 0\<rparr>" id]
  by (auto simp: demo_pages_def)

end
