(* ===== verification/PageTable.thy ===== *)
theory PageTable
  imports Page
begin

text \<open>
  The Sv39 page tables: \<^verbatim>\<open>kernel/mm/pagetable.c\<close> and \<^verbatim>\<open>include/kernel/mm/pagetable.h\<close>. The pages that
  hold tables are a store of arrays of 512 entries, and their memory comes from the page
  allocator of theory Page. A pointer to an entry is the address of its table and an index.
  The contents of data pages are not modelled: \<^verbatim>\<open>pagetable_copy\<close> records which page it has
  copied where. Locks and the TLB flush are left out. The loops over a range of addresses in
  steps of \<^verbatim>\<open>PAGE_SIZE\<close> count pages; their bounds are multiples of \<^verbatim>\<open>PAGE_SIZE\<close>, so the address
  does not wrap around before the bound.
\<close>

section \<open>Entries\<close>

abbreviation MAXVA :: u64 where "MAXVA \<equiv> 0x4000000000"
abbreviation PT_ENTRIES :: nat where "PT_ENTRIES \<equiv> 512"
abbreviation (input) PTE_V :: u64 where "PTE_V \<equiv> 0x1"
abbreviation (input) PTE_W :: u64 where "PTE_W \<equiv> 0x4"

definition PTE_FLAGS :: "u64 \<Rightarrow> u64" where
  "PTE_FLAGS pte = pte AND 0x3FF"

definition PA2PPN :: "u64 \<Rightarrow> u64" where
  "PA2PPN pa = push_bit 10 (drop_bit 12 pa)"

definition PTE2PA :: "u64 \<Rightarrow> u64" where
  "PTE2PA pte = push_bit 12 (drop_bit 10 pte)"

definition PX :: "nat \<Rightarrow> u64 \<Rightarrow> nat" where
  "PX level va = unat (drop_bit (12 + 9 * level) va AND 0x1FF)"

definition MAKE_SATP :: "u64 \<Rightarrow> u64" where
  "MAKE_SATP pagetable = push_bit 60 8 OR drop_bit 12 pagetable"

text \<open>\<^verbatim>\<open>pagetable_current\<close>, on the value of the register \<^verbatim>\<open>satp\<close>.\<close>

definition pagetable_current :: "u64 \<Rightarrow> u64" where
  "pagetable_current satp =
     (if drop_bit 60 satp \<noteq> 8 then NULL else push_bit 12 (satp AND (push_bit 44 1 - 1)))"

section \<open>State\<close>

record mmu =
  frames :: "ptr \<Rightarrow> u64 list option"
  pages :: page_state
  mapped_pages :: int
  page_tables :: int
  copies :: "(u64 \<times> u64) list"

definition pagetable_server_init :: "mmu \<Rightarrow> mmu" where
  "pagetable_server_init s = s\<lparr>mapped_pages := 0, page_tables := 0\<rparr>"

text \<open>\<^verbatim>\<open>alloc_page()->paddr\<close>: the result of \<^verbatim>\<open>alloc_page\<close> is not tested.\<close>

definition alloc_frame :: "(u64 \<Rightarrow> u64) \<Rightarrow> mmu \<Rightarrow> (u64 \<times> mmu) outcome" where
  "alloc_frame klookup s =
     (case alloc_page klookup (pages s) of
        (None, g) \<Rightarrow> Fault
      | (Some i, g) \<Rightarrow> Return (paddr (page_pool g ! i), s\<lparr>pages := g\<rparr>))"

text \<open>\<^verbatim>\<open>put_page(addr_to_page(pa))\<close>.\<close>

definition free_frame :: "(u64 \<Rightarrow> u64) \<Rightarrow> u64 \<Rightarrow> mmu \<Rightarrow> mmu outcome" where
  "free_frame klookup pa s =
     bind_outcome (put_page (addr_to_page klookup pa (pages s)) (pages s)) (\<lambda>g. Return (s\<lparr>pages := g\<rparr>))"

definition pte_read :: "mmu \<Rightarrow> ptr \<times> nat \<Rightarrow> u64 outcome" where
  "pte_read s e = (case frames s (fst e) of None \<Rightarrow> Fault | Some tbl \<Rightarrow> Return (tbl ! snd e))"

definition pte_write :: "ptr \<times> nat \<Rightarrow> u64 \<Rightarrow> mmu \<Rightarrow> mmu outcome" where
  "pte_write e v s =
     (case frames s (fst e) of
        None \<Rightarrow> Fault
      | Some tbl \<Rightarrow> Return (s\<lparr>frames := (frames s)(fst e \<mapsto> tbl[snd e := v])\<rparr>))"

section \<open>Operations\<close>

definition create_pagetable :: "(u64 \<Rightarrow> u64) \<Rightarrow> mmu \<Rightarrow> (ptr \<times> mmu) outcome" where
  "create_pagetable klookup s =
     bind_outcome (alloc_frame klookup s)
       (\<lambda>(pt, s1).
          if pt = NULL then Return (NULL, s1)
          else Return (pt, s1\<lparr>frames := (frames s1)(pt \<mapsto> replicate PT_ENTRIES 0), page_tables := int32_of (page_tables s1 + 1)\<rparr>))"

text \<open>
  \<^verbatim>\<open>_pagetable_free_level\<close>, with the number of levels below in place of the level: 2 for the
  root, 0 for a leaf table.
\<close>

fun free_level :: "(u64 \<Rightarrow> u64) \<Rightarrow> nat \<Rightarrow> ptr \<Rightarrow> mmu \<Rightarrow> mmu outcome" where
  "free_level klookup 0 pt s = Return s"
| "free_level klookup (Suc below) pt s =
     (case frames s pt of
        None \<Rightarrow> Fault
      | Some tbl \<Rightarrow>
          fold (\<lambda>i r. bind_outcome r
                 (\<lambda>s. bind_outcome (pte_read s (pt, i))
                   (\<lambda>pte. if pte AND PTE_V \<noteq> 0
                          then bind_outcome (free_level klookup below (PTE2PA pte) s)
                                 (\<lambda>s1. bind_outcome (free_frame klookup (PTE2PA pte) s1)
                                   (\<lambda>s2. Return (s2\<lparr>page_tables := int32_of (page_tables s2 - 1)\<rparr>)))
                          else Return s)))
               [0..<PT_ENTRIES] (Return s))"

definition free_pagetable :: "(u64 \<Rightarrow> u64) \<Rightarrow> ptr \<Rightarrow> mmu \<Rightarrow> mmu outcome" where
  "free_pagetable klookup pt s =
     (if pt = NULL then Return s
      else bind_outcome (free_level klookup 2 pt s)
        (\<lambda>s1. bind_outcome (free_frame klookup pt s1)
          (\<lambda>s2. Return (s2\<lparr>page_tables := int32_of (page_tables s2 - 1)\<rparr>))))"

text \<open>
  One round of the loop of \<^verbatim>\<open>page_walk\<close> at a level above 0: the table of the next level, or
  \<open>None\<close> when the walk ends there.
\<close>

definition walk_step :: "(u64 \<Rightarrow> u64) \<Rightarrow> bool \<Rightarrow> u64 \<Rightarrow> nat \<Rightarrow> ptr \<Rightarrow> mmu \<Rightarrow> (ptr option \<times> mmu) outcome" where
  "walk_step klookup alloc va level pt s =
     bind_outcome (pte_read s (pt, PX level va))
       (\<lambda>pte.
          if pte AND PTE_V \<noteq> 0 then Return (Some (PTE2PA pte), s)
          else if alloc then
            bind_outcome (alloc_frame klookup s)
              (\<lambda>(new, s1).
                 if new \<noteq> 0 then
                   bind_outcome (pte_write (pt, PX level va) (PA2PPN new OR PTE_V)
                                   (s1\<lparr>frames := (frames s1)(new \<mapsto> replicate PT_ENTRIES 0)\<rparr>))
                     (\<lambda>s2. Return (Some new, s2))
                 else Return (None, s1))
          else Return (None, s))"

fun walk_loop :: "(u64 \<Rightarrow> u64) \<Rightarrow> bool \<Rightarrow> u64 \<Rightarrow> nat \<Rightarrow> ptr \<Rightarrow> mmu \<Rightarrow> ((ptr \<times> nat) option \<times> mmu) outcome" where
  "walk_loop klookup alloc va 0 pt s = Return (Some (pt, PX 0 va), s)"
| "walk_loop klookup alloc va (Suc l) pt s =
     bind_outcome (walk_step klookup alloc va (Suc l) pt s)
       (\<lambda>(next, s1). case next of None \<Rightarrow> Return (None, s1) | Some pt' \<Rightarrow> walk_loop klookup alloc va l pt' s1)"

definition page_walk :: "(u64 \<Rightarrow> u64) \<Rightarrow> ptr \<Rightarrow> u64 \<Rightarrow> bool \<Rightarrow> mmu \<Rightarrow> ((ptr \<times> nat) option \<times> mmu) outcome" where
  "page_walk klookup pagetable va alloc s =
     (if pagetable = NULL then Return (None, s)
      else if va \<ge> MAXVA then Return (None, s)
      else walk_loop klookup alloc va 2 pagetable s)"

definition pgt_map_page :: "(u64 \<Rightarrow> u64) \<Rightarrow> ptr \<Rightarrow> u64 \<Rightarrow> u64 \<Rightarrow> 32 word \<Rightarrow> mmu \<Rightarrow> (int \<times> mmu) outcome" where
  "pgt_map_page klookup pagetable va pa perm s =
     (if pagetable = NULL then Return (- 1, s)
      else let aligned_va = ROUNDDOWN va PAGE_SIZE; aligned_pa = ROUNDDOWN pa PAGE_SIZE in
        if aligned_va \<ge> MAXVA then Return (- 1, s)
        else bind_outcome (page_walk klookup pagetable aligned_va True s)
          (\<lambda>(pte, s1). case pte of
             None \<Rightarrow> Return (- 1, s1)
           | Some e \<Rightarrow>
               bind_outcome (pte_read s1 e)
                 (\<lambda>v. if v AND PTE_V \<noteq> 0 then
                        if PTE2PA v = aligned_pa then
                          bind_outcome (pte_write e (PA2PPN aligned_pa OR scast perm OR PTE_V) s1) (\<lambda>s2. Return (0, s2))
                        else Return (- 1, s1)
                      else
                        bind_outcome (pte_write e (PA2PPN aligned_pa OR scast perm OR PTE_V) s1)
                          (\<lambda>s2. Return (0, s2\<lparr>mapped_pages := int32_of (mapped_pages s2 + 1)\<rparr>)))))"

text \<open>The alignment tests of \<^verbatim>\<open>pgt_map_pages\<close> have no effect; the results are ignored.\<close>

definition pgt_map_pages :: "(u64 \<Rightarrow> u64) \<Rightarrow> ptr \<Rightarrow> u64 \<Rightarrow> u64 \<Rightarrow> u64 \<Rightarrow> 32 word \<Rightarrow> mmu \<Rightarrow> (int \<times> mmu) outcome" where
  "pgt_map_pages klookup pagetable va pa sz perm s =
     bind_outcome
       (fold (\<lambda>k r. bind_outcome r
                (\<lambda>s. bind_outcome (pgt_map_page klookup pagetable (va + of_nat (4096 * k)) (pa + of_nat (4096 * k)) perm s)
                       (\<lambda>(ret, s1). Return s1)))
             [0..<unat (ROUNDUP sz PAGE_SIZE) div 4096] (Return s))
       (\<lambda>s1. Return (0, s1))"

definition unmap_page :: "(u64 \<Rightarrow> u64) \<Rightarrow> ptr \<Rightarrow> bool \<Rightarrow> u64 \<Rightarrow> mmu \<Rightarrow> mmu outcome" where
  "unmap_page klookup pagetable free_phys va s =
     bind_outcome (page_walk klookup pagetable va False s)
       (\<lambda>(pte, s1). case pte of
          None \<Rightarrow> Return s1
        | Some e \<Rightarrow>
            bind_outcome (pte_read s1 e)
              (\<lambda>v. if v AND PTE_V \<noteq> 0 then
                     bind_outcome (if free_phys then free_frame klookup (PTE2PA v) s1 else Return s1)
                       (\<lambda>s2. bind_outcome (pte_write e 0 s2)
                         (\<lambda>s3. Return (s3\<lparr>mapped_pages := int32_of (mapped_pages s3 - 1)\<rparr>)))
                   else Return s1))"

definition pgt_unmap :: "(u64 \<Rightarrow> u64) \<Rightarrow> ptr \<Rightarrow> u64 \<Rightarrow> u64 \<Rightarrow> bool \<Rightarrow> mmu \<Rightarrow> (int \<times> mmu) outcome" where
  "pgt_unmap klookup pagetable va sz free_phys s =
     (if pagetable = NULL then Return (- 1, s)
      else let start_va = ROUNDDOWN va PAGE_SIZE; end_va = ROUNDUP (va + sz) PAGE_SIZE in
        if start_va \<ge> MAXVA \<or> end_va > MAXVA \<or> end_va < start_va then Return (- 1, s)
        else bind_outcome
          (fold (\<lambda>k r. bind_outcome r (unmap_page klookup pagetable free_phys (start_va + of_nat (4096 * k))))
                [0..<(unat end_va - unat start_va) div 4096] (Return s))
          (\<lambda>s1. Return (0, s1)))"

definition lookup_pa :: "(u64 \<Rightarrow> u64) \<Rightarrow> ptr \<Rightarrow> u64 \<Rightarrow> mmu \<Rightarrow> u64 outcome" where
  "lookup_pa klookup pagetable va s =
     bind_outcome (page_walk klookup pagetable va False s)
       (\<lambda>(pte, s1). case pte of
          None \<Rightarrow> Return 0
        | Some e \<Rightarrow>
            bind_outcome (pte_read s1 e)
              (\<lambda>v. if v AND PTE_V = 0 then Return 0 else Return (PTE2PA v OR (va AND (PAGE_SIZE - 1)))))"

text \<open>
  One round of the loop of \<^verbatim>\<open>pagetable_copy\<close>; \<open>False\<close> when it gives up. The modes are 0 (copy the
  page), 1 (share it) and 2 (share it without write permission).
\<close>

definition install_pte :: "(u64 \<Rightarrow> u64) \<Rightarrow> ptr \<Rightarrow> u64 \<Rightarrow> u64 \<Rightarrow> mmu \<Rightarrow> (bool \<times> mmu) outcome" where
  "install_pte klookup dst va v s =
     bind_outcome (page_walk klookup dst va True s)
       (\<lambda>(pte, s1). case pte of
          None \<Rightarrow> Return (False, s1)
        | Some e \<Rightarrow>
            bind_outcome (pte_write e v s1)
              (\<lambda>s2. Return (True, s2\<lparr>mapped_pages := int32_of (mapped_pages s2 + 1)\<rparr>)))"

definition copy_page :: "(u64 \<Rightarrow> u64) \<Rightarrow> ptr \<Rightarrow> ptr \<Rightarrow> int \<Rightarrow> u64 \<Rightarrow> mmu \<Rightarrow> (bool \<times> mmu) outcome" where
  "copy_page klookup src dst share va s =
     bind_outcome (page_walk klookup src va False s)
       (\<lambda>(src_pte, s1). case src_pte of
          None \<Rightarrow> Return (True, s1)
        | Some e \<Rightarrow>
            bind_outcome (pte_read s1 e)
              (\<lambda>v. if v AND PTE_V = 0 then Return (True, s1)
                   else let pa = PTE2PA v; perm = PTE_FLAGS v in
                     if share = 0 then
                       bind_outcome (alloc_frame klookup s1)
                         (\<lambda>(new, s2).
                            if new = 0 then Return (False, s2)
                            else bind_outcome (install_pte klookup dst va (PA2PPN new OR perm OR PTE_V)
                                                (s2\<lparr>copies := copies s2 @ [(new, pa)]\<rparr>))
                              (\<lambda>(ok, s3). if ok then Return (True, s3)
                                          else bind_outcome (free_frame klookup new s3) (\<lambda>s4. Return (False, s4))))
                     else if share = 1 then install_pte klookup dst va (PA2PPN pa OR perm OR PTE_V) s1
                     else if share = 2 then
                       bind_outcome (install_pte klookup dst va (PA2PPN pa OR (perm AND NOT PTE_W) OR PTE_V) s1)
                         (\<lambda>(ok, s2).
                            if ok \<and> perm AND PTE_W \<noteq> 0
                            then bind_outcome (pte_write e (PA2PPN pa OR (perm AND NOT PTE_W) OR PTE_V) s2) (\<lambda>s3. Return (True, s3))
                            else Return (ok, s2))
                     else Return (True, s1)))"

definition pagetable_copy :: "(u64 \<Rightarrow> u64) \<Rightarrow> ptr \<Rightarrow> u64 \<Rightarrow> u64 \<Rightarrow> int \<Rightarrow> mmu \<Rightarrow> (ptr \<times> mmu) outcome" where
  "pagetable_copy klookup src start_va end_va share s =
     (if src = NULL then Return (NULL, s)
      else let first = ROUNDDOWN start_va PAGE_SIZE; last = ROUNDUP end_va PAGE_SIZE in
        bind_outcome (create_pagetable klookup s)
          (\<lambda>(dst, s1).
             if dst = NULL then Return (NULL, s1)
             else bind_outcome
               (fold (\<lambda>k r. bind_outcome r
                       (\<lambda>(ok, s). if ok then copy_page klookup src dst share (first + of_nat (4096 * k)) s else Return (False, s)))
                     [0..<(unat last - unat first) div 4096] (Return (True, s1)))
               (\<lambda>(ok, s2). if ok then Return (dst, s2)
                           else bind_outcome (free_pagetable klookup dst s2) (\<lambda>s3. Return (NULL, s3)))))"

section \<open>Words\<close>

lemma bit_PTE2PA: "bit (PTE2PA w) n \<longleftrightarrow> 12 \<le> n \<and> n < 64 \<and> bit w (n - 2)"
  by (auto simp: PTE2PA_def bit_simps not_le intro: arg_cong [of _ _ "bit w"])

lemma bit_PA2PPN: "bit (PA2PPN w) n \<longleftrightarrow> 10 \<le> n \<and> n < 62 \<and> bit w (n + 2)"
  by (auto simp: PA2PPN_def bit_simps not_le dest: bit_imp_le_length)

lemma ROUNDDOWN_bits: "bit (ROUNDDOWN w PAGE_SIZE) n \<longleftrightarrow> 12 \<le> n \<and> bit w n"
proof -
  have "ROUNDDOWN w PAGE_SIZE = push_bit 12 (drop_bit 12 w)"
    by (simp add: ROUNDDOWN_def push_bit_eq_mult drop_bit_eq_div)
  then show ?thesis by (auto simp: bit_simps dest: bit_imp_le_length)
qed

lemma PTE2PA_PA2PPN: "fl AND NOT 0x3FF = 0 \<Longrightarrow> PTE2PA (PA2PPN pa OR fl) = ROUNDDOWN pa PAGE_SIZE"
proof (rule bit_word_eqI)
  fix n assume fl: "fl AND NOT 0x3FF = 0" and n: "n < LENGTH(64)"
  have "\<not> bit fl m" if "10 \<le> m" for m
  proof
    assume b: "bit fl m"
    then have "m < 64" using bit_imp_le_length by force
    have "(0x3FF :: u64) = mask 10" by (simp add: mask_eq_exp_minus_1)
    with b that \<open>m < 64\<close> have "bit (fl AND NOT 0x3FF) m" by (simp only: bit_and_iff bit_not_iff bit_mask_iff) simp
    with fl show False by simp
  qed
  moreover have "Suc (Suc (n - 2)) = n" if "12 \<le> n" using that by simp
  ultimately show "bit (PTE2PA (PA2PPN pa OR fl)) n \<longleftrightarrow> bit (ROUNDDOWN pa PAGE_SIZE) n"
    using n by (auto simp: bit_PTE2PA bit_or_iff bit_PA2PPN ROUNDDOWN_bits dest: bit_imp_le_length)
qed

lemma ROUNDDOWN_aligned:
  assumes "unat x mod 4096 = 0"
  shows "ROUNDDOWN x PAGE_SIZE = x"
  using assms unat_ROUNDDOWN [of x] by (auto simp: word_unat_eq_iff mod_eq_0_iff_dvd)

lemma PX_less: "PX level va < PT_ENTRIES"
proof -
  have "(0x1FF :: u64) = mask 9" by (simp add: mask_eq_exp_minus_1)
  then have "PX level va = take_bit 9 (unat (drop_bit (12 + 9 * level) va))"
    by (simp only: PX_def flip: take_bit_eq_mask) (simp add: unsigned_take_bit_eq)
  then show ?thesis using take_bit_nat_less_exp [of 9] by simp
qed

section \<open>The tables as a tree\<close>

text \<open>
  Every table has one place: the root it belongs to, its level, and the index it has among
  the tables of this level. \<open>own\<close> says which. Since a table has one place only, no table is
  reached in two ways.
\<close>

type_synonym place = "ptr \<times> nat \<times> nat"

definition tables_ok :: "mmu \<Rightarrow> (ptr \<Rightarrow> place) \<Rightarrow> bool" where
  "tables_ok s own \<longleftrightarrow> (\<forall>a tbl. frames s a = Some tbl \<longrightarrow> length tbl = PT_ENTRIES \<and>
     (\<forall>r l pre i. own a = (r, Suc l, pre) \<and> i < PT_ENTRIES \<and> tbl ! i AND PTE_V \<noteq> 0 \<longrightarrow>
        frames s (PTE2PA (tbl ! i)) \<noteq> None \<and> own (PTE2PA (tbl ! i)) = (r, l, pre * PT_ENTRIES + i)))"

text \<open>No free page holds a table.\<close>

definition mmu_inv :: "mmu \<Rightarrow> (ptr \<Rightarrow> place) \<Rightarrow> bool" where
  "mmu_inv s own \<longleftrightarrow> tables_ok s own \<and> page_inv (pages s) \<and> frames s NULL = None \<and>
     (\<forall>xs. free_page_list (pages s) = Linked xs \<longrightarrow> (\<forall>x \<in> set xs. frames s x = None))"

definition is_root :: "mmu \<Rightarrow> (ptr \<Rightarrow> place) \<Rightarrow> ptr \<Rightarrow> bool" where
  "is_root s own r \<longleftrightarrow> frames s r \<noteq> None \<and> own r = (r, 2, 0)"

text \<open>The entry for an address below a table of level \<open>l\<close>, and what it holds if it is valid.\<close>

fun leaf_entry :: "mmu \<Rightarrow> nat \<Rightarrow> ptr \<Rightarrow> u64 \<Rightarrow> (ptr \<times> nat) option" where
  "leaf_entry s 0 a va = Some (a, PX 0 va)"
| "leaf_entry s (Suc l) a va =
     (case frames s a of
        None \<Rightarrow> None
      | Some tbl \<Rightarrow> if tbl ! PX (Suc l) va AND PTE_V \<noteq> 0 then leaf_entry s l (PTE2PA (tbl ! PX (Suc l) va)) va else None)"

definition translate_at :: "mmu \<Rightarrow> nat \<Rightarrow> ptr \<Rightarrow> u64 \<Rightarrow> u64 option" where
  "translate_at s l a va =
     (case leaf_entry s l a va of
        None \<Rightarrow> None
      | Some (b, i) \<Rightarrow>
          (case frames s b of None \<Rightarrow> None | Some tbl \<Rightarrow> if tbl ! i AND PTE_V \<noteq> 0 then Some (tbl ! i) else None))"

abbreviation translate :: "mmu \<Rightarrow> ptr \<Rightarrow> u64 \<Rightarrow> u64 option" where
  "translate s r va \<equiv> translate_at s 2 r va"

text \<open>The index of the leaf table of an address, counted from a table of level \<open>l\<close> with index \<open>pre\<close>.\<close>

fun leaf_index :: "nat \<Rightarrow> nat \<Rightarrow> u64 \<Rightarrow> nat" where
  "leaf_index 0 pre va = pre"
| "leaf_index (Suc l) pre va = leaf_index l (pre * PT_ENTRIES + PX (Suc l) va) va"

lemma tables_okD:
  assumes "tables_ok s own" "frames s a = Some tbl"
  shows "length tbl = PT_ENTRIES"
    "own a = (r, Suc l, pre) \<Longrightarrow> i < PT_ENTRIES \<Longrightarrow> tbl ! i AND PTE_V \<noteq> 0 \<Longrightarrow>
     frames s (PTE2PA (tbl ! i)) \<noteq> None \<and> own (PTE2PA (tbl ! i)) = (r, l, pre * PT_ENTRIES + i)"
  using assms by (auto simp: tables_ok_def)

lemma leaf_entry_place:
  assumes "tables_ok s own" "own a = (r, l, pre)" "frames s a \<noteq> None" "leaf_entry s l a va = Some (b, i)"
  shows "own b = (r, 0, leaf_index l pre va) \<and> i = PX 0 va \<and> frames s b \<noteq> None"
  using assms(2-)
proof (induction l arbitrary: a pre)
  case (Suc l)
  then obtain tbl where tbl: "frames s a = Some tbl" by auto
  with Suc.prems have v: "tbl ! PX (Suc l) va AND PTE_V \<noteq> 0" "leaf_entry s l (PTE2PA (tbl ! PX (Suc l) va)) va = Some (b, i)"
    by (simp_all split: if_splits)
  from tables_okD(2) [OF assms(1) tbl Suc.prems(1) PX_less v(1)] Suc.IH v(2) show ?case by auto
qed auto

section \<open>A new table\<close>

lemma zero_entry [simp]: "i < PT_ENTRIES \<Longrightarrow> replicate PT_ENTRIES (0 :: u64) ! i AND PTE_V = 0"
  by simp

text \<open>Linking the empty table \<open>n\<close> into the invalid entry \<open>i\<close> of the table \<open>pt\<close>.\<close>

definition link_table :: "ptr \<Rightarrow> ptr \<Rightarrow> nat \<Rightarrow> u64 list \<Rightarrow> mmu \<Rightarrow> mmu" where
  "link_table n pt i tbl s =
     s\<lparr>frames := (frames s)(n \<mapsto> replicate PT_ENTRIES 0, pt \<mapsto> tbl[i := PA2PPN n OR PTE_V])\<rparr>"

lemma link_entry:
  assumes "unat n mod 4096 = 0"
  shows "PTE2PA (PA2PPN n OR PTE_V) = n" "(PA2PPN n OR PTE_V) AND PTE_V \<noteq> 0"
proof -
  have "(1 :: u64) AND NOT 0x3FF = 0" by code_simp
  from PTE2PA_PA2PPN [OF this, of n] show "PTE2PA (PA2PPN n OR PTE_V) = n" using ROUNDDOWN_aligned [OF assms] by simp
  have b: "bit ((PA2PPN n OR PTE_V) AND PTE_V) 0" by (simp add: bit_simps)
  show "(PA2PPN n OR PTE_V) AND PTE_V \<noteq> 0"
  proof
    assume z: "(PA2PPN n OR PTE_V) AND PTE_V = 0"
    from b show False unfolding z by simp
  qed
qed

lemma tables_ok_link:
  assumes ok: "tables_ok s own" and pt: "frames s pt = Some tbl" "own pt = (r, Suc l, pre)"
    and i: "i < PT_ENTRIES" "tbl ! i AND PTE_V = 0" and n: "frames s n = None" "unat n mod 4096 = 0"
  shows "tables_ok (link_table n pt i tbl s) (own(n := (r, l, pre * PT_ENTRIES + i)))"
  unfolding tables_ok_def
proof (intro allI impI)
  let ?own = "own(n := (r, l, pre * PT_ENTRIES + i))" and ?s = "link_table n pt i tbl s"
  have npt: "n \<noteq> pt" using pt n by auto
  note len = tables_okD(1) [OF ok pt(1)]
  fix a t assume a: "frames ?s a = Some t"
  consider "a = n" "t = replicate PT_ENTRIES 0" | "a = pt" "t = tbl[i := PA2PPN n OR PTE_V]" | "a \<noteq> n" "a \<noteq> pt" "frames s a = Some t"
    using a npt by (auto simp: link_table_def split: if_splits)
  then show "length t = PT_ENTRIES \<and> (\<forall>r l pre i. ?own a = (r, Suc l, pre) \<and> i < PT_ENTRIES \<and> t ! i AND PTE_V \<noteq> 0 \<longrightarrow>
        frames ?s (PTE2PA (t ! i)) \<noteq> None \<and> ?own (PTE2PA (t ! i)) = (r, l, pre * PT_ENTRIES + i))"
  proof cases
    case 1
    then show ?thesis by auto
  next
    case 2
    have "frames ?s (PTE2PA (t ! j)) \<noteq> None \<and> ?own (PTE2PA (t ! j)) = (r', l', pre' * PT_ENTRIES + j)"
      if h: "?own a = (r', Suc l', pre')" "j < PT_ENTRIES" "t ! j AND PTE_V \<noteq> 0" for r' l' pre' j
    proof (cases "j = i")
      case True
      with h 2 npt pt i len link_entry [OF n(2)] show ?thesis by (auto simp: link_table_def)
    next
      case False
      with h 2 npt have "own pt = (r', Suc l', pre')" "tbl ! j AND PTE_V \<noteq> 0" "t ! j = tbl ! j" by auto
      with tables_okD(2) [OF ok pt(1), of r' l' pre' j] h(2) n(1) show ?thesis by (auto simp: link_table_def)
    qed
    with 2 len show ?thesis by auto
  next
    case 3
    from tables_okD [OF ok 3(3)] n(1) 3 show ?thesis by (fastforce simp: link_table_def)
  qed
qed

lemma translate_link:
  assumes ok: "tables_ok s own" and pt: "frames s pt = Some tbl" "own pt = (r, Suc l, pre)"
    and i: "i < PT_ENTRIES" "tbl ! i AND PTE_V = 0" and n: "frames s n = None" "unat n mod 4096 = 0"
    and a: "frames s a \<noteq> None" "own a = (ra, la, pa)"
  shows "translate_at (link_table n pt i tbl s) la a va = translate_at s la a va"
  using a
proof (induction la arbitrary: a pa)
  case 0
  then have "a \<noteq> pt" "a \<noteq> n" using pt n by auto
  then show ?case by (simp add: translate_at_def link_table_def)
next
  case (Suc la)
  let ?s = "link_table n pt i tbl s" let ?x = "PX (Suc la) va"
  from Suc.prems obtain t where t: "frames s a = Some t" by auto
  have an: "a \<noteq> n" using t n by auto
  have step: "translate_at s' (Suc la) a va = (if u ! ?x AND PTE_V \<noteq> 0 then translate_at s' la (PTE2PA (u ! ?x)) va else None)"
    if "frames s' a = Some u" for s' u using that by (simp add: translate_at_def)
  show ?case
  proof (cases "a = pt \<and> ?x = i")
    case True
    with t pt have tbl: "t = tbl" by auto
    have fs: "frames ?s a = Some (tbl[i := PA2PPN n OR PTE_V])" using True by (simp add: link_table_def)
    have "la = l" using True pt(2) Suc.prems(2) by simp
    have none: "translate_at ?s la n va = None"
    proof (cases la)
      case 0
      then show ?thesis using an True PX_less [of 0 va] by (simp add: translate_at_def link_table_def)
    next
      case (Suc k)
      then show ?thesis using an True PX_less [of "Suc k" va] by (simp add: translate_at_def link_table_def)
    qed
    have "(tbl[i := PA2PPN n OR PTE_V]) ! ?x = PA2PPN n OR PTE_V" using True i(1) tables_okD(1) [OF ok pt(1)] by simp
    with step [OF fs] link_entry [OF n(2)] none have "translate_at ?s (Suc la) a va = None" by simp
    moreover have "translate_at s (Suc la) a va = None" using step [OF t] True tbl i(2) by simp
    ultimately show ?thesis by simp
  next
    case False
    obtain u where u: "frames ?s a = Some u" "u ! ?x = t ! ?x"
      using False t an pt by (cases "a = pt") (auto simp: link_table_def)
    show ?thesis
    proof (cases "t ! ?x AND PTE_V = 0")
      case True
      with step [OF t] step [OF u(1)] u(2) show ?thesis by simp
    next
      case v: False
      from tables_okD(2) [OF ok t Suc.prems(2) PX_less v] have "translate_at ?s la (PTE2PA (t ! ?x)) va = translate_at s la (PTE2PA (t ! ?x)) va"
        by (intro Suc.IH) auto
      with step [OF t] step [OF u(1)] u(2) v show ?thesis by simp
    qed
  qed
qed

section \<open>Walking\<close>

lemma alloc_frame_Cons:
  assumes inv: "mmu_inv s own" and fl: "free_page_list (pages s) = Linked (x # xs)"
  shows "\<exists>g. alloc_frame klookup s = Return (x, s\<lparr>pages := g\<rparr>) \<and> page_inv g \<and> free_page_list g = Linked xs \<and>
    unat x mod 4096 = 0 \<and> x \<noteq> NULL \<and> frames s x = None"
proof -
  have pinv: "page_inv (pages s)" using inv by (simp add: mmu_inv_def)
  have x: "in_ram (pages s) x" using pinv fl by (simp add: page_inv_def)
  from alloc_page_Cons [OF pinv fl, of klookup] obtain g where
    g: "alloc_page klookup (pages s) = (Some (frame_of (pages s) x), g)" "free_page_list g = Linked xs"
      "mem_base_addr g = mem_base_addr (pages s)" "mem_size g = mem_size (pages s)" "total_pages g = total_pages (pages s)"
      "page_pool g = (page_pool (pages s))[frame_of (pages s) x :=
         (init_page_struct (page_pool (pages s) ! frame_of (pages s) x))\<lparr>page_refcount := 1, paddr := x\<rparr>]" by auto
  have "paddr (page_pool g ! frame_of (pages s) x) = x" using addr_to_page_in_ram(2) [OF pinv x] by (simp add: g(6))
  moreover have "page_inv g" using pinv fl g(2-6) by (auto simp: page_inv_def in_ram_def)
  moreover have "x \<noteq> NULL" using x pinv by (auto simp: in_ram_def page_inv_def)
  moreover have "unat x mod 4096 = 0" "frames s x = None" using x inv fl by (auto simp: in_ram_def mmu_inv_def)
  ultimately show ?thesis using g(1,2) by (intro exI [of _ g]) (simp add: alloc_frame_def)
qed

text \<open>
  What a walk that allocates may change: tables are added, valid entries and translations
  stay.
\<close>

definition grows :: "mmu \<Rightarrow> (ptr \<Rightarrow> place) \<Rightarrow> mmu \<Rightarrow> (ptr \<Rightarrow> place) \<Rightarrow> bool" where
  "grows s own s' own' \<longleftrightarrow>
     (\<forall>x tbl. frames s x = Some tbl \<longrightarrow> own' x = own x \<and>
        (\<exists>tbl'. frames s' x = Some tbl' \<and> (\<forall>i < PT_ENTRIES. tbl ! i AND PTE_V \<noteq> 0 \<longrightarrow> tbl' ! i = tbl ! i)) \<and>
        (\<forall>r l pre va. own x = (r, l, pre) \<longrightarrow> translate_at s' l x va = translate_at s l x va)) \<and>
     mapped_pages s' = mapped_pages s \<and> page_tables s' = page_tables s"

lemma grows_refl: "grows s own s own"
  by (auto simp: grows_def)

lemma grows_trans:
  assumes "grows s own s1 own1" "grows s1 own1 s2 own2"
  shows "grows s own s2 own2"
  unfolding grows_def
proof (intro conjI allI impI)
  fix x tbl assume x: "frames s x = Some tbl"
  with assms(1) obtain t1 where t1: "own1 x = own x" "frames s1 x = Some t1" "\<forall>i < PT_ENTRIES. tbl ! i AND PTE_V \<noteq> 0 \<longrightarrow> t1 ! i = tbl ! i"
    unfolding grows_def by blast
  with assms(2) obtain t2 where t2: "own2 x = own1 x" "frames s2 x = Some t2" "\<forall>i < PT_ENTRIES. t1 ! i AND PTE_V \<noteq> 0 \<longrightarrow> t2 ! i = t1 ! i"
    unfolding grows_def by blast
  show "own2 x = own x" using t1 t2 by simp
  show "\<exists>t'. frames s2 x = Some t' \<and> (\<forall>i < PT_ENTRIES. tbl ! i AND PTE_V \<noteq> 0 \<longrightarrow> t' ! i = tbl ! i)"
    using t1(3) t2(2,3) by (intro exI [of _ t2]) simp
  fix r l pre va assume "own x = (r, l, pre)"
  with x t1 assms show "translate_at s2 l x va = translate_at s l x va" unfolding grows_def by metis
qed (use assms in \<open>auto simp: grows_def\<close>)

lemma grows_frames: "grows s own s' own' \<Longrightarrow> frames s x \<noteq> None \<Longrightarrow> frames s' x \<noteq> None \<and> own' x = own x"
  unfolding grows_def by blast

lemma walk_loop_read:
  assumes "tables_ok s own" "own a = (r, l, pre)" "frames s a \<noteq> None"
  shows "walk_loop klookup False va l a s = Return (leaf_entry s l a va, s)"
  using assms(2-)
proof (induction l arbitrary: a pre)
  case (Suc l)
  then obtain tbl where tbl: "frames s a = Some tbl" by auto
  show ?case
  proof (cases "tbl ! PX (Suc l) va AND PTE_V = 0")
    case False
    from tables_okD(2) [OF assms(1) tbl Suc.prems(1) PX_less False] Suc.IH tbl False show ?thesis
      by (auto simp: walk_step_def pte_read_def)
  qed (use tbl in \<open>simp add: walk_step_def pte_read_def\<close>)
qed simp

lemma walk_step_new:
  assumes inv: "mmu_inv s own" and a: "own a = (r, Suc l, pre)" "frames s a = Some tbl"
    and i: "tbl ! PX (Suc l) va AND PTE_V = 0" and fl: "free_page_list (pages s) = Linked (x # xs)"
  shows "\<exists>s1. walk_step klookup True va (Suc l) a s = Return (Some x, s1) \<and>
    mmu_inv s1 (own(x := (r, l, pre * PT_ENTRIES + PX (Suc l) va))) \<and>
    grows s own s1 (own(x := (r, l, pre * PT_ENTRIES + PX (Suc l) va))) \<and>
    frames s1 x \<noteq> None \<and> free_page_list (pages s1) = Linked xs \<and>
    frames s1 a = Some (tbl[PX (Suc l) va := PA2PPN x OR PTE_V])"
proof -
  let ?own = "own(x := (r, l, pre * PT_ENTRIES + PX (Suc l) va))"
  have ok: "tables_ok s own" using inv by (simp add: mmu_inv_def)
  from alloc_frame_Cons [OF inv fl, of klookup] obtain g where
    g: "alloc_frame klookup s = Return (x, s\<lparr>pages := g\<rparr>)" "page_inv g" "free_page_list g = Linked xs"
      "unat x mod 4096 = 0" "x \<noteq> NULL" "frames s x = None" by (elim exE conjE)
  have xa: "x \<noteq> a" using a g(6) by auto
  let ?s = "(link_table x a (PX (Suc l) va) tbl s)\<lparr>pages := g\<rparr>"
  have step: "walk_step klookup True va (Suc l) a s = Return (Some x, ?s)"
    using a(2) i g(1,5) xa by (simp add: walk_step_def pte_read_def pte_write_def link_table_def)
  have tr: "translate_at (s'\<lparr>pages := g\<rparr>) k b v = translate_at s' k b v" for s' k b v
  proof -
    have "leaf_entry (s'\<lparr>pages := g\<rparr>) k b v = leaf_entry s' k b v" by (induction k arbitrary: b) (simp_all split: option.split)
    then show ?thesis by (simp add: translate_at_def split: option.split)
  qed
  have fr: "frames ?s = (frames s)(x \<mapsto> replicate PT_ENTRIES 0, a \<mapsto> tbl[PX (Suc l) va := PA2PPN x OR PTE_V])"
    by (simp add: link_table_def)
  have tok: "tables_ok ?s ?own"
    using tables_ok_link [OF ok a(2,1) PX_less i g(6,4)] by (simp add: tables_ok_def)
  have free: "frames s y = None \<and> y \<noteq> x \<and> y \<noteq> a" if "y \<in> set xs" for y
  proof -
    have "distinct (x # xs)" "\<forall>y \<in> set (x # xs). frames s y = None" using inv fl by (simp_all add: mmu_inv_def page_inv_def)
    with that a(2) show ?thesis by auto
  qed
  have "frames ?s y = None" if "y \<in> set xs" for y using free [OF that] unfolding fr by simp
  moreover have "frames ?s NULL = None" using inv g(5) a(2) unfolding fr by (auto simp: mmu_inv_def)
  ultimately have minv: "mmu_inv ?s ?own" using tok g(2,3) by (simp add: mmu_inv_def)
  have gr: "grows s own ?s ?own" unfolding grows_def
  proof (intro conjI allI impI)
    fix y t assume y: "frames s y = Some t"
    then have "y \<noteq> x" using g(6) by auto
    then show "?own y = own y" by simp
    show "\<exists>t'. frames ?s y = Some t' \<and> (\<forall>j < PT_ENTRIES. t ! j AND PTE_V \<noteq> 0 \<longrightarrow> t' ! j = t ! j)"
    proof (cases "y = a")
      case True
      then have t: "t = tbl" using y a(2) by simp
      have "tbl[PX (Suc l) va := PA2PPN x OR PTE_V] ! j = tbl ! j" if "tbl ! j AND PTE_V \<noteq> 0" for j
        using that i by (cases "j = PX (Suc l) va") simp_all
      then show ?thesis unfolding fr t True by simp
    qed (use y \<open>y \<noteq> x\<close> fr in simp)
    fix r' l' pre' v assume "own y = (r', l', pre')"
    then show "translate_at ?s l' y v = translate_at s l' y v"
      unfolding tr using translate_link [OF ok a(2,1) PX_less i g(6,4)] y by auto
  qed (simp_all add: link_table_def)
  have "frames ?s x \<noteq> None" "frames ?s a = Some (tbl[PX (Suc l) va := PA2PPN x OR PTE_V])" "free_page_list (pages ?s) = Linked xs"
    using xa g(3) unfolding fr by simp_all
  with step minv gr show ?thesis by blast
qed

lemma leaf_entry_grown:
  assumes "grows s own s' own'" "frames s a = Some tbl" "tbl ! PX (Suc l) va AND PTE_V \<noteq> 0"
  shows "leaf_entry s' (Suc l) a va = leaf_entry s' l (PTE2PA (tbl ! PX (Suc l) va)) va"
proof -
  from assms obtain tbl' where "frames s' a = Some tbl'" "tbl' ! PX (Suc l) va = tbl ! PX (Suc l) va"
    unfolding grows_def using PX_less by blast
  with assms(3) show ?thesis by simp
qed

lemma walk_loop_alloc:
  assumes "mmu_inv s own" "own a = (r, l, pre)" "frames s a \<noteq> None" "free_page_list (pages s) = Linked xs" "l \<le> length xs"
  shows "\<exists>e s' own' n. walk_loop klookup True va l a s = Return (Some e, s') \<and> mmu_inv s' own' \<and> grows s own s' own' \<and>
    leaf_entry s' l a va = Some e \<and> n \<le> l \<and> free_page_list (pages s') = Linked (drop n xs)"
  using assms
proof (induction l arbitrary: a pre s own xs)
  case 0
  then have "free_page_list (pages s) = Linked (drop 0 xs)" by simp
  with 0 grows_refl [of s own] show ?case by (intro exI [of _ "(a, PX 0 va)"] exI [of _ s] exI [of _ own] exI [of _ 0]) simp
next
  case (Suc l)
  from Suc.prems obtain tbl where tbl: "frames s a = Some tbl" by auto
  have ok: "tables_ok s own" using Suc.prems(1) by (simp add: mmu_inv_def)
  let ?x = "PX (Suc l) va"
  show ?case
  proof (cases "tbl ! ?x AND PTE_V = 0")
    case False
    let ?c = "PTE2PA (tbl ! ?x)"
    have c: "frames s ?c \<noteq> None" "own ?c = (r, l, pre * PT_ENTRIES + ?x)"
      using tables_okD(2) [OF ok tbl Suc.prems(2) PX_less False] by simp_all
    have len: "l \<le> length xs" using Suc.prems(5) by simp
    from Suc.IH [OF Suc.prems(1) c(2,1) Suc.prems(4) len] obtain e s' own' n where
      w: "walk_loop klookup True va l ?c s = Return (Some e, s')" "mmu_inv s' own'" "grows s own s' own'"
        "leaf_entry s' l ?c va = Some e" "n \<le> l" "free_page_list (pages s') = Linked (drop n xs)" by (elim exE conjE)
    have "walk_loop klookup True va (Suc l) a s = Return (Some e, s')"
      using tbl False w(1) by (simp add: walk_step_def pte_read_def)
    moreover have "leaf_entry s' (Suc l) a va = Some e" using leaf_entry_grown [OF w(3) tbl False] w(4) by simp
    ultimately show ?thesis using w(2,3,5,6) by (intro exI [of _ e] exI [of _ s'] exI [of _ own'] exI [of _ n]) simp
  next
    case True
    from Suc.prems(5) obtain x ys where xs: "xs = x # ys" "l \<le> length ys" by (cases xs) auto
    from walk_step_new [OF Suc.prems(1,2) tbl True Suc.prems(4) [unfolded xs(1)], of klookup] obtain s1 where
      s1: "walk_step klookup True va (Suc l) a s = Return (Some x, s1)" "mmu_inv s1 (own(x := (r, l, pre * PT_ENTRIES + ?x)))"
        "grows s own s1 (own(x := (r, l, pre * PT_ENTRIES + ?x)))" "frames s1 x \<noteq> None" "free_page_list (pages s1) = Linked ys"
        "frames s1 a = Some (tbl[?x := PA2PPN x OR PTE_V])" by (elim exE conjE)
    let ?own1 = "own(x := (r, l, pre * PT_ENTRIES + ?x))"
    have "?own1 x = (r, l, pre * PT_ENTRIES + ?x)" by simp
    from Suc.IH [OF s1(2) this s1(4,5) xs(2)] obtain e s' own' n where
      w: "walk_loop klookup True va l x s1 = Return (Some e, s')" "mmu_inv s' own'" "grows s1 ?own1 s' own'"
        "leaf_entry s' l x va = Some e" "n \<le> l" "free_page_list (pages s') = Linked (drop n ys)" by (elim exE conjE)
    have loop: "walk_loop klookup True va (Suc l) a s = Return (Some e, s')" using s1(1) w(1) by simp
    have al: "unat x mod 4096 = 0" using Suc.prems(1,4) xs(1) by (simp add: mmu_inv_def page_inv_def in_ram_def)
    have ent: "tbl[?x := PA2PPN x OR PTE_V] ! ?x = PA2PPN x OR PTE_V" using PX_less tables_okD(1) [OF ok tbl] by simp
    have "leaf_entry s' (Suc l) a va = Some e"
      using leaf_entry_grown [OF w(3) s1(6)] link_entry [OF al] w(4) by (simp add: ent)
    with loop w(2,5,6) grows_trans [OF s1(3) w(3)] show ?thesis
      by (intro exI [of _ e] exI [of _ s'] exI [of _ own'] exI [of _ "Suc n"]) (simp add: xs(1))
  qed
qed

section \<open>Writing an entry\<close>

lemma leaf_entry_frames:
  assumes "\<And>x. x \<noteq> b \<Longrightarrow> frames s' x = frames s x" "own b = (r, 0, p)" "tables_ok s own" "own a = (ra, l, pa)" "frames s a \<noteq> None"
  shows "leaf_entry s' l a va = leaf_entry s l a va"
  using assms(4,5)
proof (induction l arbitrary: a pa)
  case (Suc l)
  then have ab: "a \<noteq> b" using assms(2) by auto
  from Suc.prems obtain tbl where tbl: "frames s a = Some tbl" by auto
  show ?case
  proof (cases "tbl ! PX (Suc l) va AND PTE_V = 0")
    case False
    from tables_okD(2) [OF assms(3) tbl Suc.prems(1) PX_less False] Suc.IH assms(1) [OF ab] tbl False show ?thesis by auto
  qed (use assms(1) [OF ab] tbl in simp)
qed simp

lemma pte_write_leaf:
  assumes inv: "mmu_inv s own" and r: "is_root s own r" and e: "leaf_entry s 2 r va = Some e"
  shows "\<exists>s'. pte_write e v s = Return s' \<and> mmu_inv s' own \<and> pages s' = pages s \<and> mapped_pages s' = mapped_pages s \<and>
    page_tables s' = page_tables s \<and>
    (\<forall>r' va'. is_root s own r' \<longrightarrow> is_root s' own r' \<and>
       translate s' r' va' = (if leaf_entry s 2 r' va' = Some e then (if v AND PTE_V \<noteq> 0 then Some v else None) else translate s r' va'))"
proof -
  obtain b i where bi: "e = (b, i)" by (cases e)
  have ok: "tables_ok s own" using inv by (simp add: mmu_inv_def)
  have "own r = (r, 2, 0)" "frames s r \<noteq> None" using r by (simp_all add: is_root_def)
  from leaf_entry_place [OF ok this e [unfolded bi]] obtain tbl where
    b: "own b = (r, 0, leaf_index 2 0 va)" "i = PX 0 va" "frames s b = Some tbl" by auto
  let ?s = "s\<lparr>frames := (frames s)(b \<mapsto> tbl[i := v])\<rparr>"
  have w: "pte_write e v s = Return ?s" using b(3) by (simp add: pte_write_def bi)
  have len: "length tbl = PT_ENTRIES" by (rule tables_okD(1) [OF ok b(3)])
  have le: "leaf_entry ?s 2 r' va' = leaf_entry s 2 r' va'" if "is_root s own r'" for r' va'
    using that by (intro leaf_entry_frames [OF _ b(1) ok]) (auto simp: is_root_def)
  have "tables_ok ?s own" unfolding tables_ok_def
  proof (intro allI impI)
    fix a t assume a: "frames ?s a = Some t"
    show "length t = PT_ENTRIES \<and> (\<forall>r l pre i. own a = (r, Suc l, pre) \<and> i < PT_ENTRIES \<and> t ! i AND PTE_V \<noteq> 0 \<longrightarrow>
        frames ?s (PTE2PA (t ! i)) \<noteq> None \<and> own (PTE2PA (t ! i)) = (r, l, pre * PT_ENTRIES + i))"
    proof (cases "a = b")
      case True
      with a b len show ?thesis by auto
    next
      case False
      with a have "frames s a = Some t" by simp
      with tables_okD [OF ok this] show ?thesis by simp
    qed
  qed
  moreover have "frames ?s x = None" if "frames s x = None" for x using that b(3) by auto
  moreover have "b \<noteq> NULL" using inv b(3) by (auto simp: mmu_inv_def)
  ultimately have "mmu_inv ?s own" using inv by (simp add: mmu_inv_def)
  moreover have "is_root ?s own r'" if "is_root s own r'" for r' using that by (auto simp: is_root_def)
  moreover have "translate ?s r' va' = (if leaf_entry s 2 r' va' = Some e then (if v AND PTE_V \<noteq> 0 then Some v else None) else translate s r' va')"
    if "is_root s own r'" for r' va'
  proof (cases "leaf_entry s 2 r' va'")
    case None
    then show ?thesis using le [OF that] by (simp add: translate_at_def)
  next
    case (Some e')
    obtain c j where cj: "e' = (c, j)" by (cases e')
    have "own r' = (r', 2, 0)" "frames s r' \<noteq> None" using that by (simp_all add: is_root_def)
    from leaf_entry_place [OF ok this Some [unfolded cj]] have "j < PT_ENTRIES" using PX_less by simp
    then show ?thesis using le [OF that] Some cj bi b(3) len by (auto simp: translate_at_def nth_list_update)
  qed
  ultimately show ?thesis using w by (intro exI [of _ ?s]) simp
qed

section \<open>Addresses\<close>

lemma PX_div: "PX l va = unat va div 2 ^ (12 + 9 * l) mod 512"
proof -
  have "(0x1FF :: u64) = mask 9" by (simp add: mask_eq_exp_minus_1)
  then have "PX l va = take_bit 9 (unat (drop_bit (12 + 9 * l) va))"
    by (simp only: PX_def unsigned_take_bit_eq flip: take_bit_eq_mask)
  also have "\<dots> = unat (drop_bit (12 + 9 * l) va) mod 512" by (simp only: take_bit_eq_mod) simp
  also have "unat (drop_bit (12 + 9 * l) va) = unat va div 2 ^ (12 + 9 * l)"
    by (simp only: unat_drop_bit_eq drop_bit_eq_div [of _ "unat _"])
  finally show ?thesis .
qed

text \<open>The page of an address below \<^verbatim>\<open>MAXVA\<close> is determined by the three indices of the walk.\<close>

lemma page_of_index:
  assumes "va < MAXVA"
  shows "unat va div 4096 = leaf_index 2 0 va * 512 + PX 0 va"
proof -
  let ?n = "unat va"
  have "?n < 2 ^ 38" using assms by (simp add: word_less_nat_alt)
  then have "?n div 2 ^ 30 < 512" by (simp add: less_mult_imp_div_less)
  then have a: "PX 2 va = ?n div 2 ^ 30" by (simp add: PX_div)
  have b: "PX 1 va = ?n div 2 ^ 21 mod 512" "PX 0 va = ?n div 2 ^ 12 mod 512" by (simp_all add: PX_div)
  have c: "?n div 2 ^ 30 = ?n div 2 ^ 21 div 512" "?n div 2 ^ 21 = ?n div 2 ^ 12 div 512" by (simp_all add: div_mult2_eq [symmetric])
  have "leaf_index 2 0 va = PX 2 va * 512 + PX 1 va" by (simp add: numeral_2_eq_2)
  also have "\<dots> = ?n div 2 ^ 21" unfolding a b c(1) by (rule div_mult_mod_eq)
  finally show ?thesis unfolding b c(2) by (simp only: div_mult_mod_eq) simp
qed

lemma same_leaf_iff:
  assumes ok: "tables_ok s own" and r: "is_root s own r" "is_root s own r'" and va: "va < MAXVA" "va' < MAXVA"
    and e: "leaf_entry s 2 r va = Some e"
  shows "leaf_entry s 2 r' va' = Some e \<longleftrightarrow> r' = r \<and> unat va' div 4096 = unat va div 4096"
proof -
  obtain b i where bi: "e = (b, i)" by (cases e)
  have rr: "own r = (r, 2, 0)" "frames s r \<noteq> None" "own r' = (r', 2, 0)" "frames s r' \<noteq> None" using r by (simp_all add: is_root_def)
  note p = leaf_entry_place [OF ok rr(1,2) e [unfolded bi]]
  show ?thesis
  proof
    assume "leaf_entry s 2 r' va' = Some e"
    from leaf_entry_place [OF ok rr(3,4) this [unfolded bi]] p
    show "r' = r \<and> unat va' div 4096 = unat va div 4096" using page_of_index [OF va(1)] page_of_index [OF va(2)] by simp
  next
    assume eq: "r' = r \<and> unat va' div 4096 = unat va div 4096"
    then have m: "unat va' div 2 ^ (12 + 9 * l) = unat va div 2 ^ (12 + 9 * l)" for l
      by (simp add: power_add div_mult2_eq)
    have "PX l va' = PX l va" for l unfolding PX_div m ..
    then have "leaf_entry s l a va' = leaf_entry s l a va" for l a by (induction l arbitrary: a) (simp_all split: option.split)
    with e eq show "leaf_entry s 2 r' va' = Some e" by simp
  qed
qed

lemma page_walk_read:
  assumes "mmu_inv s own" "is_root s own r" "va < MAXVA"
  shows "page_walk klookup r va False s = Return (leaf_entry s 2 r va, s)"
proof -
  have "r \<noteq> NULL" using assms(1,2) by (auto simp: mmu_inv_def is_root_def)
  moreover have "walk_loop klookup False va 2 r s = Return (leaf_entry s 2 r va, s)"
    using assms(1,2) by (intro walk_loop_read [of s own r r 2 0]) (simp_all add: mmu_inv_def is_root_def)
  ultimately show ?thesis using assms(3) by (simp add: page_walk_def not_le [symmetric])
qed

lemma lookup_pa_eq:
  assumes "mmu_inv s own" "is_root s own r" "va < MAXVA"
  shows "lookup_pa klookup r va s =
    Return (case translate s r va of None \<Rightarrow> 0 | Some v \<Rightarrow> PTE2PA v OR (va AND (PAGE_SIZE - 1)))"
proof (cases "leaf_entry s 2 r va")
  case None
  then show ?thesis using page_walk_read [OF assms, of klookup] by (simp add: lookup_pa_def translate_at_def)
next
  case (Some e)
  obtain b i where bi: "e = (b, i)" by (cases e)
  have ok: "tables_ok s own" using assms(1) by (simp add: mmu_inv_def)
  have "own r = (r, 2, 0)" "frames s r \<noteq> None" using assms(2) by (simp_all add: is_root_def)
  from leaf_entry_place [OF ok this Some [unfolded bi]] obtain tbl where "frames s b = Some tbl" by auto
  with Some bi page_walk_read [OF assms, of klookup] show ?thesis
    by (simp add: lookup_pa_def translate_at_def pte_read_def)
qed

section \<open>Mapping\<close>

lemma scast_perm:
  fixes perm :: "32 word"
  assumes "unat perm < 1024"
  shows "(scast perm OR PTE_V) AND NOT 0x3FF = (0 :: u64)"
proof -
  have m: "(0x3FF :: u64) = mask 10" by (simp add: mask_eq_exp_minus_1)
  have "\<not> bit perm n" if "10 \<le> n" for n
  proof -
    have "unat perm < 2 ^ n" using assms power_increasing [OF that, of "2 :: nat"] by simp
    then have "\<not> bit (unat perm) n" by (simp add: bit_nat_def)
    then show ?thesis by (simp add: bit_unsigned_iff)
  qed
  then have "\<not> bit (scast perm :: u64) n" if "10 \<le> n" for n
    using that by (auto simp: bit_signed_iff min_def)
  note hi = this
  show ?thesis unfolding m
  proof (rule bit_word_eqI)
    fix n assume "n < LENGTH(64)"
    then show "bit ((scast perm OR PTE_V) AND NOT (mask 10)) n \<longleftrightarrow> bit (0 :: u64) n"
      using hi [of n] by (simp only: bit_and_iff bit_or_iff bit_not_iff bit_mask_iff bit_0_eq bot_apply bit_1_iff) auto
  qed
qed

lemma valid_entry: "(x OR y OR PTE_V) AND PTE_V \<noteq> (0 :: u64)"
proof
  assume z: "(x OR y OR PTE_V) AND PTE_V = 0"
  have "bit ((x OR y OR PTE_V) AND PTE_V) 0" by (simp add: bit_simps)
  then show False unfolding z by simp
qed

lemma ROUNDDOWN_idem: "ROUNDDOWN (ROUNDDOWN x PAGE_SIZE) PAGE_SIZE = ROUNDDOWN x PAGE_SIZE"
  by (rule ROUNDDOWN_aligned) (simp add: unat_ROUNDDOWN)

lemma ROUNDDOWN_page:
  assumes "va < MAXVA"
  shows "ROUNDDOWN va PAGE_SIZE < MAXVA" "unat (ROUNDDOWN va PAGE_SIZE) div 4096 = unat va div 4096"
proof -
  have "unat va div 4096 * 4096 \<le> unat va" by simp
  with assms show "ROUNDDOWN va PAGE_SIZE < MAXVA" by (simp add: word_less_nat_alt unat_ROUNDDOWN)
qed (simp add: unat_ROUNDDOWN)

lemma translate_same_page:
  assumes "unat va' div 4096 = unat va div 4096"
  shows "leaf_entry s l a va' = leaf_entry s l a va" "translate_at s l a va' = translate_at s l a va"
proof -
  have m: "unat va' div 2 ^ (12 + 9 * l) = unat va div 2 ^ (12 + 9 * l)" for l
    using assms by (simp add: power_add div_mult2_eq)
  have "PX l va' = PX l va" for l unfolding PX_div m ..
  then show "leaf_entry s l a va' = leaf_entry s l a va" by (induction l arbitrary: a) (simp_all split: option.split)
  then show "translate_at s l a va' = translate_at s l a va" by (simp add: translate_at_def)
qed

text \<open>The walk that allocates, from a root.\<close>

lemma page_walk_alloc:
  assumes inv: "mmu_inv s own" and r: "is_root s own r" and va: "va < MAXVA"
    and fl: "free_page_list (pages s) = Linked xs" "2 \<le> length xs"
  shows "\<exists>b i tbl s' own' n. page_walk klookup r va True s = Return (Some (b, i), s') \<and> mmu_inv s' own' \<and> grows s own s' own' \<and>
    leaf_entry s' 2 r va = Some (b, i) \<and> frames s' b = Some tbl \<and> n \<le> 2 \<and> free_page_list (pages s') = Linked (drop n xs) \<and>
    translate s r va = (if tbl ! i AND PTE_V \<noteq> 0 then Some (tbl ! i) else None)"
proof -
  have rr: "own r = (r, 2, 0)" "frames s r \<noteq> None" "r \<noteq> NULL" using inv r by (auto simp: mmu_inv_def is_root_def)
  from walk_loop_alloc [OF inv rr(1,2) fl, of klookup va] obtain e s' own' n where
    w: "walk_loop klookup True va 2 r s = Return (Some e, s')" "mmu_inv s' own'" "grows s own s' own'" "leaf_entry s' 2 r va = Some e"
      "n \<le> 2" "free_page_list (pages s') = Linked (drop n xs)" by (elim exE conjE)
  obtain b i where bi: "e = (b, i)" by (cases e)
  have ok: "tables_ok s' own'" using w(2) by (simp add: mmu_inv_def)
  have rr': "own' r = (r, 2, 0)" "frames s' r \<noteq> None" using grows_frames [OF w(3) rr(2)] rr(1) by simp_all
  from leaf_entry_place [OF ok rr' w(4) [unfolded bi]] obtain tbl where tbl: "frames s' b = Some tbl" by auto
  have "translate s' r va = translate s r va" using w(3) rr unfolding grows_def by blast
  then have "translate s r va = (if tbl ! i AND PTE_V \<noteq> 0 then Some (tbl ! i) else None)"
    using w(4) tbl by (simp add: translate_at_def bi)
  moreover have "page_walk klookup r va True s = Return (Some (b, i), s')"
    using w(1) va rr(3) bi by (simp add: page_walk_def not_le [symmetric])
  ultimately show ?thesis using w tbl bi by (intro exI conjI) auto
qed

lemma pgt_map_page_ok:
  fixes pa :: u64
  assumes inv: "mmu_inv s own" and r: "is_root s own r" and va: "va < MAXVA" and perm: "unat perm < 1024"
    and fl: "free_page_list (pages s) = Linked xs" "2 \<le> length xs"
  defines "v \<equiv> PA2PPN (ROUNDDOWN pa PAGE_SIZE) OR scast perm OR PTE_V"
  defines "fits \<equiv> (case translate s r va of None \<Rightarrow> True | Some w \<Rightarrow> PTE2PA w = ROUNDDOWN pa PAGE_SIZE)"
  shows "\<exists>s' own'. pgt_map_page klookup r va pa perm s = Return (if fits then 0 else - 1, s') \<and> mmu_inv s' own' \<and>
    (\<forall>r' va'. is_root s own r' \<and> va' < MAXVA \<longrightarrow> is_root s' own' r' \<and>
       translate s' r' va' = (if fits \<and> r' = r \<and> unat va' div 4096 = unat va div 4096 then Some v else translate s r' va'))"
proof -
  let ?va = "ROUNDDOWN va PAGE_SIZE"
  note va' = ROUNDDOWN_page [OF va]
  have rn: "r \<noteq> NULL" using inv r by (auto simp: mmu_inv_def is_root_def)
  from page_walk_alloc [OF inv r va'(1) fl, of klookup] obtain b i tbl s1 own1 n where
    w: "page_walk klookup r ?va True s = Return (Some (b, i), s1)" "mmu_inv s1 own1" "grows s own s1 own1"
      "leaf_entry s1 2 r ?va = Some (b, i)" "frames s1 b = Some tbl"
      "translate s r ?va = (if tbl ! i AND PTE_V \<noteq> 0 then Some (tbl ! i) else None)" by (elim exE conjE)
  have root: "is_root s1 own1 r'" if "is_root s own r'" for r' using that grows_frames [OF w(3)] by (auto simp: is_root_def)
  have same: "translate s1 r' v = translate s r' v" if "is_root s own r'" for r' v
    using that w(3) unfolding grows_def is_root_def by blast
  have fits: "fits \<longleftrightarrow> tbl ! i AND PTE_V = 0 \<or> PTE2PA (tbl ! i) = ROUNDDOWN pa PAGE_SIZE"
    using w(6) translate_same_page(2) [OF va'(2), of s 2 r] by (simp add: fits_def)
  have ok1: "tables_ok s1 own1" using w(2) by (simp add: mmu_inv_def)
  from pte_write_leaf [OF w(2) root [OF r] w(4), of v] obtain s2 where
    s2: "pte_write (b, i) v s1 = Return s2" "mmu_inv s2 own1"
      "\<forall>r' va'. is_root s1 own1 r' \<longrightarrow> is_root s2 own1 r' \<and> translate s2 r' va' =
         (if leaf_entry s1 2 r' va' = Some (b, i) then (if v AND PTE_V \<noteq> 0 then Some v else None) else translate s1 r' va')"
    by (elim exE conjE)
  have vv: "v AND PTE_V \<noteq> 0" unfolding v_def by (rule valid_entry)
  have map: "pgt_map_page klookup r va pa perm s =
      (if fits then Return (0, if tbl ! i AND PTE_V \<noteq> 0 then s2 else s2\<lparr>mapped_pages := int32_of (mapped_pages s2 + 1)\<rparr>) else Return (- 1, s1))"
    using w(1,5) s2(1) rn va'(1) fits
    by (simp add: pgt_map_page_def Let_def pte_read_def v_def not_le [symmetric])
  have upd: "mmu_inv (s2\<lparr>mapped_pages := k\<rparr>) own1" "is_root (s2\<lparr>mapped_pages := k\<rparr>) own1 r' \<longleftrightarrow> is_root s2 own1 r'"
    "translate (s2\<lparr>mapped_pages := k\<rparr>) r' x = translate s2 r' x" for k r' x
  proof -
    have "leaf_entry (s2\<lparr>mapped_pages := k\<rparr>) l a x = leaf_entry s2 l a x" for l a
      by (induction l arbitrary: a) (simp_all split: option.split)
    then show "translate (s2\<lparr>mapped_pages := k\<rparr>) r' x = translate s2 r' x"
      by (simp add: translate_at_def split: option.split)
  qed (use s2(2) in \<open>simp_all add: mmu_inv_def tables_ok_def is_root_def\<close>)
  show ?thesis
  proof (cases fits)
    case False
    with map w(2) root same show ?thesis by (intro exI [of _ s1] exI [of _ own1]) simp
  next
    case True
    let ?s = "if tbl ! i AND PTE_V \<noteq> 0 then s2 else s2\<lparr>mapped_pages := int32_of (mapped_pages s2 + 1)\<rparr>"
    have s': "is_root ?s own1 r' \<longleftrightarrow> is_root s2 own1 r'" "translate ?s r' x = translate s2 r' x" "mmu_inv ?s own1" for r' x
      using upd s2(2) by simp_all
    have s3: "is_root s2 own1 r'" "translate s2 r' x = (if r' = r \<and> unat x div 4096 = unat va div 4096 then Some v else translate s r' x)"
      if h: "is_root s own r'" "x < MAXVA" for r' x
    proof -
      note t = s2(3) [rule_format, OF root [OF h(1)]]
      note l = same_leaf_iff [OF ok1 root [OF r] root [OF h(1)] va'(1) h(2) w(4)]
      show "is_root s2 own1 r'" using t by blast
      show "translate s2 r' x = (if r' = r \<and> unat x div 4096 = unat va div 4096 then Some v else translate s r' x)"
        using t [of x] same [OF h(1), of x] vv unfolding l va'(2) by simp
    qed
    have "is_root ?s own1 r' \<and> translate ?s r' x = (if fits \<and> r' = r \<and> unat x div 4096 = unat va div 4096 then Some v else translate s r' x)"
      if h: "is_root s own r' \<and> x < MAXVA" for r' x
      using s3 [of r' x] h True unfolding s' by simp
    with s'(3) map True show ?thesis by (intro exI [of _ ?s] exI [of _ own1] conjI allI impI) (simp only: if_True, blast+)
  qed
qed

section \<open>Unmapping\<close>

lemma unmap_page_ok:
  assumes inv: "mmu_inv s own" and r: "is_root s own r" and va: "va < MAXVA"
  shows "\<exists>s'. unmap_page klookup r False va s = Return s' \<and> mmu_inv s' own \<and>
    (\<forall>r'. is_root s own r' \<longrightarrow> is_root s' own r' \<and>
      (\<forall>va' < MAXVA. translate s' r' va' = (if r' = r \<and> unat va' div 4096 = unat va div 4096 then None else translate s r' va')))"
proof (cases "translate s r va")
  case None
  have "unmap_page klookup r False va s = Return s"
  proof (cases "leaf_entry s 2 r va")
    case (Some e)
    obtain b i where bi: "e = (b, i)" by (cases e)
    have "own r = (r, 2, 0)" "frames s r \<noteq> None" "tables_ok s own" using r inv by (simp_all add: is_root_def mmu_inv_def)
    from leaf_entry_place [OF this(3,1,2) Some [unfolded bi]] obtain tbl where "frames s b = Some tbl" by auto
    with None Some bi page_walk_read [OF inv r va, of klookup] show ?thesis
      by (simp add: unmap_page_def pte_read_def translate_at_def split: if_splits)
  qed (simp add: unmap_page_def page_walk_read [OF inv r va])
  moreover have "translate s r' x = (if r' = r \<and> unat x div 4096 = unat va div 4096 then None else translate s r' x)" for r' x
    using None translate_same_page(2) [of x va s 2 r] by (cases "r' = r \<and> unat x div 4096 = unat va div 4096") simp_all
  ultimately show ?thesis using inv by blast
next
  case (Some v)
  then obtain b i where e: "leaf_entry s 2 r va = Some (b, i)" by (auto simp: translate_at_def split: option.splits)
  have ok: "tables_ok s own" using inv by (simp add: mmu_inv_def)
  have rd: "pte_read s (b, i) = Return v" "v AND PTE_V \<noteq> 0"
    using Some e by (auto simp: translate_at_def pte_read_def split: option.splits if_splits)
  from pte_write_leaf [OF inv r e, of 0] obtain s2 where
    s2: "pte_write (b, i) 0 s = Return s2" "mmu_inv s2 own"
      "\<forall>r' va'. is_root s own r' \<longrightarrow> is_root s2 own r' \<and> translate s2 r' va' =
         (if leaf_entry s 2 r' va' = Some (b, i) then (if (0 :: u64) AND PTE_V \<noteq> 0 then Some 0 else None) else translate s r' va')"
    by (elim exE conjE)
  let ?s = "s2\<lparr>mapped_pages := int32_of (mapped_pages s2 - 1)\<rparr>"
  have run: "unmap_page klookup r False va s = Return ?s"
    using page_walk_read [OF inv r va, of klookup] e rd s2(1) by (simp add: unmap_page_def)
  have "leaf_entry ?s l a x = leaf_entry s2 l a x" for l a x by (induction l arbitrary: a) (simp_all split: option.split)
  then have tr: "translate ?s r' x = translate s2 r' x" for r' x by (simp add: translate_at_def split: option.split)
  have "is_root ?s own r' \<and> (\<forall>va' < MAXVA. translate ?s r' va' =
      (if r' = r \<and> unat va' div 4096 = unat va div 4096 then None else translate s r' va'))" if h: "is_root s own r'" for r'
  proof (intro conjI allI impI)
    show "is_root ?s own r'" using s2(3) h by (simp add: is_root_def)
    fix x assume x: "x < MAXVA"
    show "translate ?s r' x = (if r' = r \<and> unat x div 4096 = unat va div 4096 then None else translate s r' x)"
      using s2(3) h same_leaf_iff [OF ok r h va x e] unfolding tr by simp
  qed
  moreover have "mmu_inv ?s own" using s2(2) by (simp add: mmu_inv_def tables_ok_def)
  ultimately show ?thesis using run by blast
qed

text \<open>The loop of \<^verbatim>\<open>pgt_unmap\<close> over \<open>n\<close> pages from page \<open>p\<close> on.\<close>

lemma unmap_loop_ok:
  assumes inv: "mmu_inv s own" and r: "is_root s own r" and start: "unat first = 4096 * p" and n: "p + n \<le> 2 ^ 26"
  shows "\<exists>s'. fold (\<lambda>k m. bind_outcome m (unmap_page klookup r False (first + of_nat (4096 * k)))) [0..<n] (Return s) = Return s' \<and>
    mmu_inv s' own \<and>
    (\<forall>r'. is_root s own r' \<longrightarrow> is_root s' own r' \<and>
      (\<forall>va < MAXVA. translate s' r' va = (if r' = r \<and> p \<le> unat va div 4096 \<and> unat va div 4096 < p + n then None else translate s r' va)))"
  using n
proof (induction n)
  case 0
  then show ?case using inv by auto
next
  case (Suc n)
  let ?va = "first + of_nat (4096 * n) :: u64"
  have "unat (of_nat (4096 * n) :: u64) = 4096 * n" using Suc.prems by (simp only: unat_of_nat) simp
  then have u: "unat ?va = 4096 * (p + n)" using start Suc.prems by (simp only: unat_word_ariths(1)) simp
  then have va: "?va < MAXVA" "unat ?va div 4096 = p + n" using Suc.prems by (simp_all add: word_less_nat_alt)
  have "p + n \<le> 2 ^ 26" using Suc.prems by simp
  from Suc.IH [OF this] obtain s1 where
    s1: "fold (\<lambda>k m. bind_outcome m (unmap_page klookup r False (first + of_nat (4096 * k)))) [0..<n] (Return s) = Return s1"
      "mmu_inv s1 own" "\<forall>r'. is_root s own r' \<longrightarrow> is_root s1 own r' \<and>
      (\<forall>va < MAXVA. translate s1 r' va = (if r' = r \<and> p \<le> unat va div 4096 \<and> unat va div 4096 < p + n then None else translate s r' va))"
    by (elim exE conjE)
  have r1: "is_root s1 own r" using s1(3) r by blast
  from unmap_page_ok [OF s1(2) r1 va(1), of klookup] obtain s2 where
    s2: "unmap_page klookup r False ?va s1 = Return s2" "mmu_inv s2 own"
      "\<forall>r'. is_root s1 own r' \<longrightarrow> is_root s2 own r' \<and>
        (\<forall>va' < MAXVA. translate s2 r' va' = (if r' = r \<and> unat va' div 4096 = unat ?va div 4096 then None else translate s1 r' va'))"
    by (elim exE conjE)
  have "is_root s2 own r' \<and> (\<forall>x < MAXVA. translate s2 r' x =
      (if r' = r \<and> p \<le> unat x div 4096 \<and> unat x div 4096 < p + Suc n then None else translate s r' x))" if h: "is_root s own r'" for r'
  proof (intro conjI allI impI)
    have h1: "is_root s1 own r'" using s1(3) h by blast
    then show "is_root s2 own r'" using s2(3) by blast
    fix x assume x: "x < MAXVA"
    have "translate s2 r' x = (if r' = r \<and> unat x div 4096 = p + n then None else translate s1 r' x)"
      using s2(3) h1 x va(2) by simp
    moreover have "translate s1 r' x = (if r' = r \<and> p \<le> unat x div 4096 \<and> unat x div 4096 < p + n then None else translate s r' x)"
      using s1(3) h x by blast
    ultimately show "translate s2 r' x = (if r' = r \<and> p \<le> unat x div 4096 \<and> unat x div 4096 < p + Suc n then None else translate s r' x)"
      by (auto simp: less_Suc_eq)
  qed
  moreover have "fold (\<lambda>k m. bind_outcome m (unmap_page klookup r False (first + of_nat (4096 * k)))) [0..<Suc n] (Return s) = Return s2"
    using s1(1) s2(1) by simp
  ultimately show ?case using s2(2) by blast
qed

section \<open>Properties\<close>

text \<open>
  C3. Mapping and lookup. With two free pages left, \<^verbatim>\<open>pgt_map_page\<close> succeeds unless the page of
  \<open>va\<close> is mapped to another frame. After a success, \<^verbatim>\<open>lookup_pa\<close> translates every address of the
  page to the frame of \<open>pa\<close> with the offset of the address, and gives the same result as
  before for all other addresses and all other page tables, although tables may have been
  added on the way; after a failure it gives the same result everywhere. The tables stay a tree.
\<close>

theorem pgt_map_page_lookup:
  assumes inv: "mmu_inv s own" and r: "is_root s own r" and va: "va < MAXVA" and perm: "unat perm < 1024"
    and fl: "free_page_list (pages s) = Linked xs" "2 \<le> length xs"
  shows "\<exists>ret s' own'. pgt_map_page klookup r va pa perm s = Return (ret, s') \<and> mmu_inv s' own' \<and>
    ret = (if translate s r va = None \<or> map_option PTE2PA (translate s r va) = Some (ROUNDDOWN pa PAGE_SIZE) then 0 else - 1) \<and>
    (\<forall>r' va'. is_root s own r' \<and> va' < MAXVA \<longrightarrow> is_root s' own' r' \<and>
       lookup_pa klookup r' va' s' =
         (if ret = 0 \<and> r' = r \<and> unat va' div 4096 = unat va div 4096
          then Return (ROUNDDOWN pa PAGE_SIZE OR (va' AND (PAGE_SIZE - 1)))
          else lookup_pa klookup r' va' s))"
proof -
  let ?f = "PTE2PA (PA2PPN (ROUNDDOWN pa PAGE_SIZE) OR scast perm OR PTE_V)"
  define fits where "fits \<longleftrightarrow> (case translate s r va of None \<Rightarrow> True | Some w \<Rightarrow> PTE2PA w = ROUNDDOWN pa PAGE_SIZE)"
  have fits: "(translate s r va = None \<or> map_option PTE2PA (translate s r va) = Some (ROUNDDOWN pa PAGE_SIZE)) \<longleftrightarrow> fits"
    by (simp add: fits_def split: option.split)
  have f: "?f = ROUNDDOWN pa PAGE_SIZE" using PTE2PA_PA2PPN [OF scast_perm [OF perm]] by (simp add: ROUNDDOWN_idem)
  from pgt_map_page_ok [OF inv r va perm fl, of klookup pa, folded fits_def] obtain s' own' where
    m: "pgt_map_page klookup r va pa perm s = Return (if fits then 0 else - 1, s')" "mmu_inv s' own'"
      "\<forall>r' va'. is_root s own r' \<and> va' < MAXVA \<longrightarrow> is_root s' own' r' \<and>
       translate s' r' va' = (if fits \<and> r' = r \<and> unat va' div 4096 = unat va div 4096
         then Some (PA2PPN (ROUNDDOWN pa PAGE_SIZE) OR scast perm OR PTE_V) else translate s r' va')" by (elim exE conjE)
  have "is_root s' own' r' \<and> lookup_pa klookup r' x s' =
      (if (if fits then 0 else - 1) = (0 :: int) \<and> r' = r \<and> unat x div 4096 = unat va div 4096
       then Return (ROUNDDOWN pa PAGE_SIZE OR (x AND (PAGE_SIZE - 1)))
       else lookup_pa klookup r' x s)" if h: "is_root s own r' \<and> x < MAXVA" for r' x
  proof -
    from m(3) h have t: "is_root s' own' r'" "translate s' r' x = (if fits \<and> r' = r \<and> unat x div 4096 = unat va div 4096
         then Some (PA2PPN (ROUNDDOWN pa PAGE_SIZE) OR scast perm OR PTE_V) else translate s r' x)" by blast+
    have l: "lookup_pa klookup r' x s = Return (case translate s r' x of None \<Rightarrow> 0 | Some v \<Rightarrow> PTE2PA v OR (x AND (PAGE_SIZE - 1)))"
      "lookup_pa klookup r' x s' = Return (case translate s' r' x of None \<Rightarrow> 0 | Some v \<Rightarrow> PTE2PA v OR (x AND (PAGE_SIZE - 1)))"
      using lookup_pa_eq [OF inv, of r' x klookup] lookup_pa_eq [OF m(2) t(1), of x klookup] h by blast+
    show ?thesis
    proof (cases "fits \<and> r' = r \<and> unat x div 4096 = unat va div 4096")
      case True
      with t(1) l(2) f show ?thesis unfolding t(2) by simp
    next
      case False
      with t(1) l show ?thesis unfolding t(2) by auto
    qed
  qed
  with m(1,2) show ?thesis unfolding fits by (intro exI [of _ "if fits then 0 else - 1"] exI [of _ s'] exI [of _ own']) blast
qed

text \<open>A state with an empty page table and two free pages.\<close>

definition demo_mmu :: mmu where
  "demo_mmu = \<lparr>frames = [0x80201000 \<mapsto> replicate PT_ENTRIES 0],
     pages = \<lparr>page_pool = replicate 4 demo_page, total_pages = 4, mem_base_addr = KERN_BASE, mem_size = 0x4000,
       free_page_list = Linked [0x80202000, 0x80203000], free_page_counter = 2, list_head_addr = 0x80200010, zeroed = []\<rparr>,
     mapped_pages = 0, page_tables = 1, copies = []\<rparr>"

definition demo_own :: "ptr \<Rightarrow> place" where
  "demo_own a = (0x80201000, 2, 0)"

lemma demo_mmu_inv: "mmu_inv demo_mmu demo_own" "is_root demo_mmu demo_own 0x80201000"
  by (auto simp: mmu_inv_def tables_ok_def page_inv_def in_ram_def is_root_def demo_mmu_def demo_own_def)

lemma demo_translate: "translate demo_mmu 0x80201000 va = None"
  using PX_less [of "Suc (Suc 0)" va]
  by (simp only: translate_at_def numeral_2_eq_2 leaf_entry.simps) (simp add: demo_mmu_def)

theorem pgt_map_page_lookup_witness:
  "\<exists>s'. pgt_map_page id 0x80201000 0x10000123 0x80300000 7 demo_mmu = Return (0, s') \<and>
     lookup_pa id 0x80201000 0x10000456 s' = Return 0x80300456"
proof -
  have h: "free_page_list (pages demo_mmu) = Linked [0x80202000, 0x80203000]" "2 \<le> length [0x80202000, 0x80203000 :: u64]"
    "(0x10000123 :: u64) < MAXVA" "unat (7 :: 32 word) < 1024" by (simp_all add: demo_mmu_def)
  from pgt_map_page_lookup [OF demo_mmu_inv h(3,4,1,2), of id "0x80300000"] obtain ret s' own' where
    t: "pgt_map_page id 0x80201000 0x10000123 0x80300000 7 demo_mmu = Return (ret, s')"
      "ret = (if translate demo_mmu 0x80201000 0x10000123 = None \<or>
         map_option PTE2PA (translate demo_mmu 0x80201000 0x10000123) = Some (ROUNDDOWN 0x80300000 PAGE_SIZE) then 0 else - 1)"
      "\<forall>r' va'. is_root demo_mmu demo_own r' \<and> va' < MAXVA \<longrightarrow> is_root s' own' r' \<and>
       lookup_pa id r' va' s' =
         (if ret = 0 \<and> r' = 0x80201000 \<and> unat va' div 4096 = unat (0x10000123 :: u64) div 4096
          then Return (ROUNDDOWN 0x80300000 PAGE_SIZE OR (va' AND (PAGE_SIZE - 1)))
          else lookup_pa id r' va' demo_mmu)" by (elim exE conjE)
  have ret: "ret = 0" using t(2) by (simp add: demo_translate)
  have "lookup_pa id 0x80201000 0x10000456 s' = Return (ROUNDDOWN 0x80300000 PAGE_SIZE OR (0x10000456 AND (PAGE_SIZE - 1)))"
    using t(3) [rule_format, of "0x80201000" "0x10000456"] demo_mmu_inv(2) ret by simp
  also have "ROUNDDOWN 0x80300000 PAGE_SIZE OR (0x10000456 AND (PAGE_SIZE - 1)) = 0x80300456" by code_simp
  finally have l: "lookup_pa id 0x80201000 0x10000456 s' = Return 0x80300456" .
  from t(1) l show ?thesis unfolding ret by (intro exI [of _ s'] conjI)
qed



text \<open>
  Activating a page table and reading it back: for a page-aligned table below \<open>2 ^ 56\<close>,
  \<^verbatim>\<open>pagetable_current\<close> finds in the \<^verbatim>\<open>satp\<close> value that \<^verbatim>\<open>MAKE_SATP\<close> builds exactly this table.
\<close>

theorem satp_roundtrip:
  assumes "pt mod PAGE_SIZE = 0" "pt < 0x100000000000000"
  shows "pagetable_current (MAKE_SATP pt) = pt"
proof -
  have low: "\<not> bit pt n" if "n < 12" for n
  proof -
    have "take_bit 12 pt = 0" using assms(1) by (simp add: take_bit_eq_mod)
    then have "bit (take_bit 12 pt) n = False" by simp
    with that show ?thesis by (simp add: bit_take_bit_iff)
  qed
  have high: "\<not> bit pt n" if "56 \<le> n" for n
  proof
    assume b: "bit pt n"
    have "unat pt < 2 ^ 56" using assms(2) by (simp add: word_less_nat_alt)
    then have "unat pt < 2 ^ n" using power_increasing [OF that, of "2 :: nat"] by simp
    then have "\<not> bit (unat pt) n" by (simp add: bit_nat_def)
    with b show False by (simp add: bit_unsigned_iff)
  qed
  have m: "push_bit 44 1 - 1 = (mask 44 :: u64)" by (simp add: mask_eq_exp_minus_1)
  have c: "push_bit 60 8 = (push_bit 63 1 :: u64)" by simp
  have sat: "bit (MAKE_SATP pt) n \<longleftrightarrow> n = 63 \<or> bit pt (12 + n)" if "n < 64" for n
    using that by (simp only: MAKE_SATP_def c bit_or_iff bit_push_bit_iff bit_drop_bit_eq bit_1_iff) auto
  have "drop_bit 60 (MAKE_SATP pt) = drop_bit 60 (push_bit 63 1)"
  proof (rule bit_word_eqI)
    fix n assume "n < LENGTH(64)"
    have "bit (MAKE_SATP pt) (60 + n) \<longleftrightarrow> n = 3"
    proof (cases "60 + n < 64")
      case True
      with high [of "12 + (60 + n)"] show ?thesis by (auto simp: sat)
    next
      case False
      then show ?thesis using bit_imp_le_length [of "MAKE_SATP pt" "60 + n"] by auto
    qed
    then show "bit (drop_bit 60 (MAKE_SATP pt)) n \<longleftrightarrow> bit (drop_bit 60 (push_bit 63 1) :: u64) n"
      by (simp only: bit_drop_bit_eq comp_apply bit_push_bit_iff bit_1_iff) auto
  qed
  moreover have "drop_bit 60 (push_bit 63 1) = (8 :: u64)" by code_simp
  moreover have "push_bit 12 (MAKE_SATP pt AND mask 44) = pt"
  proof (rule bit_word_eqI)
    fix n assume n: "n < LENGTH(64)"
    have "bit (push_bit 12 (MAKE_SATP pt AND mask 44)) n \<longleftrightarrow> 12 \<le> n \<and> n - 12 < 44 \<and> bit (MAKE_SATP pt) (n - 12)"
      using n by (simp only: bit_push_bit_iff bit_and_iff bit_mask_iff) auto
    also have "\<dots> \<longleftrightarrow> bit pt n"
    proof (cases "12 \<le> n \<and> n < 56")
      case True
      then have "12 + (n - 12) = n" "n - 12 < 44" by linarith+
      with True sat [of "n - 12"] show ?thesis by simp
    qed (use low [of n] high [of n] in auto)
    finally show "bit (push_bit 12 (MAKE_SATP pt AND mask 44)) n \<longleftrightarrow> bit pt n" .
  qed
  ultimately show ?thesis unfolding pagetable_current_def m by simp
qed

theorem satp_roundtrip_witness: "pagetable_current (MAKE_SATP 0x80201000) = 0x80201000"
  by (rule satp_roundtrip) simp_all

end
