(* ===== verification/Vma.thy ===== *)
theory Vma
  imports PageTable
begin

text \<open>
  Address spaces: \<^verbatim>\<open>kernel/mm/vma.c\<close>, the searches of \<^verbatim>\<open>kernel/mm/mm_struct.c\<close> and the structures
  of \<^verbatim>\<open>include/kernel/mm/vma.h\<close> and \<^verbatim>\<open>mm_struct.h\<close>. Address spaces and their areas are objects
  in stores, found by their addresses; a freed object is taken out of its store. The list of
  the areas of an address space is the sequence of its nodes (theory Klist shows that the
  intrusive lists behave so). \<^verbatim>\<open>kmalloc\<close> is a sequence of answers, one for each call, with
  \<^verbatim>\<open>NULL\<close> where it fails. Page structures are positions in the page pool of theory Page, and
  the page tables are those of theory PageTable. Locks are left out.
\<close>

section \<open>Structures\<close>

datatype vma_type = VMA_ANONYMOUS | VMA_PRIVATE | VMA_SHARED | VMA_FILE | VMA_STACK | VMA_HEAP
  | VMA_TEXT | VMA_DATA | VMA_BSS | VMA_VDSO

abbreviation (input) VM_READ :: u64 where "VM_READ \<equiv> 0x1"
abbreviation (input) VM_WRITE :: u64 where "VM_WRITE \<equiv> 0x2"
abbreviation (input) VM_EXEC :: u64 where "VM_EXEC \<equiv> 0x4"
abbreviation (input) VM_PRIVATE :: u64 where "VM_PRIVATE \<equiv> 0x10"
abbreviation (input) VM_MAYREAD :: u64 where "VM_MAYREAD \<equiv> 0x20"
abbreviation (input) VM_MAYWRITE :: u64 where "VM_MAYWRITE \<equiv> 0x40"
abbreviation (input) VM_MAYEXEC :: u64 where "VM_MAYEXEC \<equiv> 0x80"
abbreviation (input) VM_GROWSDOWN :: u64 where "VM_GROWSDOWN \<equiv> 0x200"
abbreviation (input) VM_GROWSUP :: u64 where "VM_GROWSUP \<equiv> 0x400"
abbreviation (input) VM_USER :: u64 where "VM_USER \<equiv> 0x800"
abbreviation (input) VM_USERSTACK :: u64 where
  "VM_USERSTACK \<equiv> VM_READ OR VM_WRITE OR VM_MAYREAD OR VM_MAYWRITE OR VM_GROWSDOWN OR VM_USER OR VM_PRIVATE"

abbreviation (input) PROT_READ :: u32 where "PROT_READ \<equiv> 0x1"
abbreviation (input) PROT_WRITE :: u32 where "PROT_WRITE \<equiv> 0x2"
abbreviation (input) PROT_EXEC :: u32 where "PROT_EXEC \<equiv> 0x4"

text \<open>The array of pages of an area, if it has been allocated; an entry may be \<^verbatim>\<open>NULL\<close>.\<close>

record vm_area_struct =
  vm_start :: u64
  vm_end :: u64
  vm_prot :: u32
  vm_type :: vma_type
  vm_flags :: u64
  vm_mm :: ptr
  vma_pages :: "nat option list option"
  page_count :: int

record mm_struct =
  is_kernel_mm :: bool
  pagetable :: ptr
  vma_list :: "ptr list"
  map_count :: int
  start_code :: u64
  end_code :: u64
  start_data :: u64
  end_data :: u64
  start_brk :: u64
  brk :: u64
  start_stack :: u64
  end_stack :: u64
  mm_users :: int
  mm_count :: int

text \<open>\<open>page_data\<close> holds the bytes of the pages that back user memory.\<close>

record vm_state =
  mms :: "ptr \<Rightarrow> mm_struct option"
  vmas :: "ptr \<Rightarrow> vm_area_struct option"
  mmu_state :: mmu
  page_data :: "nat \<Rightarrow> u8 list"
  kmallocs :: "ptr list"

definition kmalloc :: "vm_state \<Rightarrow> ptr \<times> vm_state" where
  "kmalloc s = (case kmallocs s of [] \<Rightarrow> (NULL, s) | p # ps \<Rightarrow> (p, s\<lparr>kmallocs := ps\<rparr>))"

definition get_mm :: "vm_state \<Rightarrow> ptr \<Rightarrow> mm_struct outcome" where
  "get_mm s p = (case mms s p of None \<Rightarrow> Fault | Some m \<Rightarrow> Return m)"

definition put_mm :: "ptr \<Rightarrow> mm_struct \<Rightarrow> vm_state \<Rightarrow> vm_state" where
  "put_mm p m s = s\<lparr>mms := (mms s)(p \<mapsto> m)\<rparr>"

definition get_vma :: "vm_state \<Rightarrow> ptr \<Rightarrow> vm_area_struct outcome" where
  "get_vma s v = (case vmas s v of None \<Rightarrow> Fault | Some a \<Rightarrow> Return a)"

definition put_vma :: "ptr \<Rightarrow> vm_area_struct \<Rightarrow> vm_state \<Rightarrow> vm_state" where
  "put_vma v a s = s\<lparr>vmas := (vmas s)(v \<mapsto> a)\<rparr>"

definition kfree_vma :: "ptr \<Rightarrow> vm_state \<Rightarrow> vm_state" where
  "kfree_vma v s = s\<lparr>vmas := (vmas s)(v := None)\<rparr>"

text \<open>\<^verbatim>\<open>vma->pages[i]\<close>, read and written.\<close>

definition get_slot :: "vm_state \<Rightarrow> ptr \<Rightarrow> int \<Rightarrow> nat option outcome" where
  "get_slot s v i =
     bind_outcome (get_vma s v)
       (\<lambda>a. case vma_pages a of
          None \<Rightarrow> Fault
        | Some ps \<Rightarrow> if 0 \<le> i \<and> i < int (length ps) then Return (ps ! nat i) else Fault)"

definition set_slot :: "ptr \<Rightarrow> int \<Rightarrow> nat option \<Rightarrow> vm_state \<Rightarrow> vm_state outcome" where
  "set_slot v i x s =
     bind_outcome (get_vma s v)
       (\<lambda>a. case vma_pages a of
          None \<Rightarrow> Fault
        | Some ps \<Rightarrow> if 0 \<le> i \<and> i < int (length ps)
                     then Return (put_vma v (a\<lparr>vma_pages := Some (ps[nat i := x])\<rparr>) s) else Fault)"

text \<open>\<^verbatim>\<open>put_page\<close> on the page allocator inside the state.\<close>

definition vm_put_page :: "nat option \<Rightarrow> vm_state \<Rightarrow> vm_state outcome" where
  "vm_put_page p s =
     bind_outcome (put_page p (pages (mmu_state s)))
       (\<lambda>g. Return (s\<lparr>mmu_state := (mmu_state s)\<lparr>pages := g\<rparr>\<rparr>))"

text \<open>\<^verbatim>\<open>list_del(&vma->vm_list)\<close>.\<close>

definition unlink_vma :: "ptr \<Rightarrow> vm_state \<Rightarrow> vm_state outcome" where
  "unlink_vma v s =
     bind_outcome (get_vma s v)
       (\<lambda>a. bind_outcome (get_mm s (vm_mm a))
         (\<lambda>m. Return (put_mm (vm_mm a) (m\<lparr>vma_list := remove1 v (vma_list m)\<rparr>) s)))"

section \<open>Searches\<close>

fun find_first :: "(vm_area_struct \<Rightarrow> bool) \<Rightarrow> vm_state \<Rightarrow> ptr list \<Rightarrow> ptr outcome" where
  "find_first P s [] = Return NULL"
| "find_first P s (v # vs) = bind_outcome (get_vma s v) (\<lambda>a. if P a then Return v else find_first P s vs)"

definition find_vma :: "vm_state \<Rightarrow> ptr \<Rightarrow> u64 \<Rightarrow> ptr outcome" where
  "find_vma s mm addr =
     (if mm = NULL then Return NULL
      else bind_outcome (get_mm s mm) (\<lambda>m. find_first (\<lambda>a. addr \<ge> vm_start a \<and> addr < vm_end a) s (vma_list m)))"

definition find_vma_intersection :: "vm_state \<Rightarrow> ptr \<Rightarrow> u64 \<Rightarrow> u64 \<Rightarrow> ptr outcome" where
  "find_vma_intersection s mm first lim =
     (if mm = NULL \<or> first \<ge> lim then Return NULL
      else bind_outcome (get_mm s mm) (\<lambda>m. find_first (\<lambda>a. first < vm_end a \<and> lim > vm_start a) s (vma_list m)))"

section \<open>Creation and release of areas\<close>

text \<open>\<^verbatim>\<open>free_vma\<close>. The areas' page arrays are part of the area and go with it.\<close>

definition put_slots :: "ptr \<Rightarrow> int \<Rightarrow> vm_state \<Rightarrow> vm_state outcome" where
  "put_slots v n s =
     for_range 0 (nat n)
       (\<lambda>i s. bind_outcome (get_slot s v (int i)) (\<lambda>x. if x = None then Return s else vm_put_page x s)) s"

definition free_vma :: "ptr \<Rightarrow> vm_state \<Rightarrow> vm_state outcome" where
  "free_vma v s =
     bind_outcome (get_vma s v)
       (\<lambda>a. bind_outcome (if vma_pages a = None then Return s else put_slots v (page_count a) s)
         (\<lambda>s1. bind_outcome (unlink_vma v s1)
           (\<lambda>s2. Return (kfree_vma v s2))))"

definition alloc_vma :: "vm_state \<Rightarrow> ptr \<times> vm_state" where
  "alloc_vma s =
     (case kmalloc s of
        (v, s1) \<Rightarrow>
          if v = NULL then (NULL, s1)
          else (v, put_vma v \<lparr>vm_start = 0, vm_end = 0, vm_prot = 0, vm_type = VMA_ANONYMOUS, vm_flags = 0,
                              vm_mm = NULL, vma_pages = None, page_count = 0\<rparr> s1))"

definition prot_vm_flags :: "u32 \<Rightarrow> u64 \<Rightarrow> u64" where
  "prot_vm_flags prot flags =
     (let flags = if prot AND PROT_READ \<noteq> 0 then flags OR (VM_READ OR VM_MAYREAD) else flags;
          flags = if prot AND PROT_WRITE \<noteq> 0 then flags OR (VM_WRITE OR VM_MAYWRITE) else flags
      in if prot AND PROT_EXEC \<noteq> 0 then flags OR (VM_EXEC OR VM_MAYEXEC) else flags)"

text \<open>\<^verbatim>\<open>vma_init\<close> does not set \<^verbatim>\<open>vm_prot\<close>.\<close>

definition vma_init :: "ptr \<Rightarrow> ptr \<Rightarrow> u64 \<Rightarrow> u64 \<Rightarrow> vma_type \<Rightarrow> u32 \<Rightarrow> u64 \<Rightarrow> vm_state \<Rightarrow> vm_state outcome" where
  "vma_init v mm first lim type prot flags s =
     bind_outcome (get_vma s v)
       (\<lambda>a. Return (put_vma v (a\<lparr>vm_start := first, vm_end := lim, vm_flags := prot_vm_flags prot flags, vm_mm := mm,
                       page_count := int32_of (uint ((lim - first + PAGE_SIZE - 1) div PAGE_SIZE)), vm_type := type\<rparr>) s))"

definition vma_alloc_page_array :: "ptr \<Rightarrow> vm_state \<Rightarrow> (int \<times> vm_state) outcome" where
  "vma_alloc_page_array v s =
     bind_outcome (get_vma s v)
       (\<lambda>a. if page_count a > 0 then
              (case kmalloc s of
                 (p, s1) \<Rightarrow> if p = NULL then Return (- ENOMEM, s1)
                            else Return (0, put_vma v (a\<lparr>vma_pages := Some (replicate (nat (page_count a)) None)\<rparr>) s1))
            else Return (0, s))"

definition insert_vm_struct :: "ptr \<Rightarrow> ptr \<Rightarrow> vm_state \<Rightarrow> (int \<times> vm_state) outcome" where
  "insert_vm_struct mm v s =
     bind_outcome (get_vma s v)
       (\<lambda>a. bind_outcome (find_vma_intersection s mm (vm_start a) (vm_end a))
         (\<lambda>w. if w \<noteq> NULL then Return (- ENOMEM, s)
              else bind_outcome (get_mm s mm)
                (\<lambda>m. Return (0, put_mm mm (m\<lparr>vma_list := v # vma_list m, map_count := int32_of (map_count m + 1)\<rparr>) s))))"

text \<open>The bounds of the code and data segments (also \<^verbatim>\<open>update_mm_boundaries\<close> of \<^verbatim>\<open>mmap.c\<close>).\<close>

definition segment_bounds :: "vma_type \<Rightarrow> u64 \<Rightarrow> u64 \<Rightarrow> mm_struct \<Rightarrow> mm_struct" where
  "segment_bounds type first lim m =
     (if type = VMA_TEXT then
        m\<lparr>start_code := if start_code m = 0 \<or> first < start_code m then first else start_code m,
          end_code := if lim > end_code m then lim else end_code m\<rparr>
      else if type = VMA_DATA then
        m\<lparr>start_data := if start_data m = 0 \<or> first < start_data m then first else start_data m,
          end_data := if lim > end_data m then lim else end_data m\<rparr>
      else m)"

definition vm_area_setup :: "ptr \<Rightarrow> u64 \<Rightarrow> u64 \<Rightarrow> vma_type \<Rightarrow> u32 \<Rightarrow> u64 \<Rightarrow> vm_state \<Rightarrow> (ptr \<times> vm_state) outcome" where
  "vm_area_setup mm addr len type prot flags s =
     (if mm = NULL \<or> addr \<ge> addr + len then Return (NULL, s)
      else case alloc_vma s of
        (v, s1) \<Rightarrow>
          if v = NULL then Return (NULL, s1)
          else bind_outcome (vma_init v mm addr (addr + len) type prot flags s1)
            (\<lambda>s2. bind_outcome (vma_alloc_page_array v s2)
              (\<lambda>(ret, s3).
                 if ret \<noteq> 0 then Return (NULL, kfree_vma v s3)
                 else bind_outcome (insert_vm_struct mm v s3)
                   (\<lambda>(ret, s4).
                      if ret \<noteq> 0 then Return (NULL, kfree_vma v s4)
                      else bind_outcome (get_mm s4 mm)
                        (\<lambda>m. Return (v, put_mm mm (segment_bounds type addr (addr + len) m) s4))))))"

section \<open>Invariant\<close>

text \<open>
  The areas of an address space are linked once, are not empty, belong to it and do not
  overlap; the page array of an area is large enough for its page count. The addresses
  \<^verbatim>\<open>kmalloc\<close> will return are fresh.
\<close>

definition area_ok :: "vm_area_struct \<Rightarrow> bool" where
  "area_ok a \<longleftrightarrow> vm_start a < vm_end a \<and> - (2 ^ 31) \<le> page_count a \<and>
     (case vma_pages a of None \<Rightarrow> page_count a \<le> 0 | Some ps \<Rightarrow> page_count a \<le> int (length ps))"

definition disjoint_areas :: "vm_area_struct \<Rightarrow> vm_area_struct \<Rightarrow> bool" where
  "disjoint_areas a b \<longleftrightarrow> vm_end a \<le> vm_start b \<or> vm_end b \<le> vm_start a"

abbreviation area :: "vm_state \<Rightarrow> ptr \<Rightarrow> vm_area_struct" where
  "area s v \<equiv> the (vmas s v)"

definition mm_ok :: "(ptr \<Rightarrow> vm_area_struct option) \<Rightarrow> ptr \<Rightarrow> ptr list \<Rightarrow> bool" where
  "mm_ok vs mm l \<longleftrightarrow> distinct l \<and> (\<forall>v\<in>set l. \<exists>a. vs v = Some a \<and> vm_mm a = mm \<and> area_ok a) \<and>
     (\<forall>v\<in>set l. \<forall>w\<in>set l. v \<noteq> w \<longrightarrow> disjoint_areas (the (vs v)) (the (vs w)))"

definition fresh_heap :: "vm_state \<Rightarrow> bool" where
  "fresh_heap s \<longleftrightarrow> distinct (filter (\<lambda>p. p \<noteq> NULL) (kmallocs s)) \<and>
     (\<forall>p\<in>set (kmallocs s). vmas s p = None \<and> mms s p = None)"

definition vm_inv :: "vm_state \<Rightarrow> bool" where
  "vm_inv s \<longleftrightarrow> (\<forall>mm m. mms s mm = Some m \<longrightarrow> mm_ok (vmas s) mm (vma_list m)) \<and> fresh_heap s \<and> vmas s NULL = None \<and> mms s NULL = None"

text \<open>The area of an address space that contains an address, and whether one meets a range.\<close>

definition within :: "u64 \<Rightarrow> vm_area_struct \<Rightarrow> bool" where
  "within addr a \<longleftrightarrow> vm_start a \<le> addr \<and> addr < vm_end a"

definition overlaps :: "vm_state \<Rightarrow> mm_struct \<Rightarrow> u64 \<Rightarrow> u64 \<Rightarrow> bool" where
  "overlaps s m first lim \<longleftrightarrow> (\<exists>v\<in>set (vma_list m). first < vm_end (area s v) \<and> vm_start (area s v) < lim)"

lemma vm_invD:
  assumes "vm_inv s" "mms s mm = Some m"
  shows "mm \<noteq> NULL" "distinct (vma_list m)" "NULL \<notin> set (vma_list m)"
    and "v \<in> set (vma_list m) \<Longrightarrow> vmas s v = Some (area s v)"
    and "v \<in> set (vma_list m) \<Longrightarrow> vm_mm (area s v) = mm"
    and "v \<in> set (vma_list m) \<Longrightarrow> area_ok (area s v)"
    and "v \<in> set (vma_list m) \<Longrightarrow> w \<in> set (vma_list m) \<Longrightarrow> v \<noteq> w \<Longrightarrow> disjoint_areas (area s v) (area s w)"
proof -
  have ok: "mm_ok (vmas s) mm (vma_list m)" "vmas s NULL = None" "mms s NULL = None" using assms by (auto simp: vm_inv_def)
  from ok assms show "mm \<noteq> NULL" "distinct (vma_list m)" "NULL \<notin> set (vma_list m)" by (auto simp: mm_ok_def)
qed (use assms in \<open>fastforce simp: vm_inv_def mm_ok_def\<close>)+

lemma mm_ok_fun_upd [simp]: "v \<notin> set l \<Longrightarrow> mm_ok (vs(v := x)) mm l \<longleftrightarrow> mm_ok vs mm l"
proof -
  assume "v \<notin> set l"
  then have "\<forall>w\<in>set l. (vs(v := x)) w = vs w" by auto
  then show ?thesis by (simp add: mm_ok_def)
qed

lemma mm_ok_update:
  assumes "mm_ok vs mm l" "area_ok b" "vm_mm b = mm" "\<And>w. w \<in> set l \<Longrightarrow> w \<noteq> v \<Longrightarrow> disjoint_areas b (the (vs w))"
  shows "mm_ok (vs(v \<mapsto> b)) mm l"
  using assms by (auto simp: mm_ok_def disjoint_areas_def)

lemma mm_ok_Cons:
  assumes "mm_ok vs mm l" "v \<notin> set l" "vs v = Some b" "area_ok b" "vm_mm b = mm" "\<And>w. w \<in> set l \<Longrightarrow> disjoint_areas b (the (vs w))"
  shows "mm_ok vs mm (v # l)"
  using assms by (auto simp: mm_ok_def disjoint_areas_def)

lemma vm_inv_other [simp]:
  "vm_inv (s\<lparr>mmu_state := x\<rparr>) = vm_inv s" "vm_inv (s\<lparr>page_data := d\<rparr>) = vm_inv s"
  by (simp_all add: vm_inv_def mm_ok_def fresh_heap_def)

lemma find_first_eq:
  assumes "\<forall>v\<in>set l. vmas s v \<noteq> None"
  shows "find_first P s l = Return (case find (\<lambda>v. P (area s v)) l of None \<Rightarrow> NULL | Some v \<Rightarrow> v)"
  using assms by (induction l) (auto simp: get_vma_def)

lemma find_first_cases:
  assumes "\<forall>v\<in>set l. vmas s v \<noteq> None" "NULL \<notin> set l"
  obtains "find_first P s l = Return NULL" "\<forall>v\<in>set l. \<not> P (area s v)"
  | v where "find_first P s l = Return v" "v \<noteq> NULL" "v \<in> set l" "P (area s v)"
proof (cases "find (\<lambda>v. P (area s v)) l")
  case None
  then have "find_first P s l = Return NULL" by (simp add: find_first_eq [OF assms(1)])
  moreover have "\<forall>v\<in>set l. \<not> P (area s v)" using None by (auto simp: find_None_iff)
  ultimately show ?thesis by (rule that(1))
next
  case (Some v)
  then have "v \<in> set l" "P (area s v)" by (auto simp: find_Some_iff)
  moreover from this have "v \<noteq> NULL" using assms(2) by metis
  ultimately show ?thesis using that(2) find_first_eq [OF assms(1), of P] Some by simp
qed

lemma find_vma_cases:
  assumes "vm_inv s" "mms s mm = Some m"
  obtains "find_vma s mm addr = Return NULL" "\<forall>v\<in>set (vma_list m). \<not> within addr (area s v)"
  | v where "find_vma s mm addr = Return v" "v \<noteq> NULL" "v \<in> set (vma_list m)" "within addr (area s v)"
proof -
  have l: "\<forall>v\<in>set (vma_list m). vmas s v \<noteq> None" "NULL \<notin> set (vma_list m)"
    using vm_invD [OF assms] by auto
  have eq: "find_vma s mm addr = find_first (within addr) s (vma_list m)"
    using assms vm_invD(1) [OF assms] by (simp add: find_vma_def get_mm_def within_def [abs_def])
  show ?thesis
  proof (rule find_first_cases [OF l, of "within addr"], goal_cases)
    case 1
    then show ?case by (intro that(1)) (simp_all only: eq)
  next
    case (2 v)
    then show ?case by (intro that(2) [of v]) (simp_all only: eq not_False_eq_True)
  qed
qed

lemma find_vma_intersection_cases:
  assumes "vm_inv s" "mms s mm = Some m" "first < lim"
  obtains "find_vma_intersection s mm first lim = Return NULL" "\<not> overlaps s m first lim"
  | v where "find_vma_intersection s mm first lim = Return v" "v \<noteq> NULL" "overlaps s m first lim"
proof -
  let ?P = "\<lambda>a. first < vm_end a \<and> lim > vm_start a"
  have l: "\<forall>v\<in>set (vma_list m). vmas s v \<noteq> None" "NULL \<notin> set (vma_list m)"
    using vm_invD [OF assms(1,2)] by auto
  have nl: "\<not> first \<ge> lim" using assms(3) by simp
  have eq: "find_vma_intersection s mm first lim = find_first ?P s (vma_list m)"
    using assms(2) vm_invD(1) [OF assms(1,2)] nl by (simp add: find_vma_intersection_def get_mm_def)
  show ?thesis
  proof (rule find_first_cases [OF l, of ?P], goal_cases)
    case 1
    then show ?case by (intro that(1)) (auto simp only: eq overlaps_def)
  next
    case (2 v)
    then show ?case by (intro that(2) [of v]) (auto simp only: eq overlaps_def)
  qed
qed

section \<open>What the operations do\<close>

text \<open>The area that \<^verbatim>\<open>vm_area_setup\<close> creates, with its page array when it has pages.\<close>

definition new_area :: "ptr \<Rightarrow> u64 \<Rightarrow> u64 \<Rightarrow> vma_type \<Rightarrow> u32 \<Rightarrow> u64 \<Rightarrow> vm_area_struct" where
  "new_area mm first lim type prot flags =
     (let n = int32_of (uint ((lim - first + PAGE_SIZE - 1) div PAGE_SIZE))
      in \<lparr>vm_start = first, vm_end = lim, vm_prot = 0, vm_type = type, vm_flags = prot_vm_flags prot flags,
          vm_mm = mm, vma_pages = if n > 0 then Some (replicate (nat n) None) else None, page_count = n\<rparr>)"

definition kmalloc_ok :: "nat \<Rightarrow> vm_state \<Rightarrow> bool" where
  "kmalloc_ok n s \<longleftrightarrow> n \<le> length (kmallocs s) \<and> NULL \<notin> set (take n (kmallocs s))"

lemma new_area_sel [simp]:
  "vm_start (new_area mm first lim type prot flags) = first" "vm_end (new_area mm first lim type prot flags) = lim"
  "vm_mm (new_area mm first lim type prot flags) = mm" "vm_prot (new_area mm first lim type prot flags) = 0"
  "vm_type (new_area mm first lim type prot flags) = type"
  by (simp_all add: new_area_def Let_def)

lemma area_ok_new [simp]: "area_ok (new_area mm first lim type prot flags) \<longleftrightarrow> first < lim"
  using int32_of_bounds(1) by (simp add: area_ok_def new_area_def Let_def)

lemma vm_inv_put_vma:
  assumes inv: "vm_inv s" and v: "vmas s v = Some a" and b: "area_ok b" "vm_mm b = vm_mm a"
    and dis: "\<And>m w. mms s (vm_mm a) = Some m \<Longrightarrow> v \<in> set (vma_list m) \<Longrightarrow> w \<in> set (vma_list m) \<Longrightarrow> w \<noteq> v
      \<Longrightarrow> disjoint_areas b (area s w)"
  shows "vm_inv (put_vma v b s)"
proof -
  have "mm_ok ((vmas s)(v \<mapsto> b)) mm (vma_list m)" if m: "mms s mm = Some m" for mm m
  proof -
    have ok: "mm_ok (vmas s) mm (vma_list m)" using inv m by (simp add: vm_inv_def)
    show ?thesis
    proof (cases "v \<in> set (vma_list m)")
      case True
      then have "vm_mm a = mm" using vm_invD(5) [OF inv m True] v by simp
      then show ?thesis using mm_ok_update [OF ok b(1)] b(2) dis [of m] m True by simp
    qed (use ok in simp)
  qed
  then show ?thesis using inv v by (auto simp: vm_inv_def fresh_heap_def put_vma_def)
qed

lemma vm_inv_put_vma_inside:
  assumes "vm_inv s" "vmas s v = Some a" "area_ok b" "vm_mm b = vm_mm a" "vm_start a \<le> vm_start b" "vm_end b \<le> vm_end a"
  shows "vm_inv (put_vma v b s)"
proof (rule vm_inv_put_vma [OF assms(1-4)])
  fix m w
  assume "mms s (vm_mm a) = Some m" "v \<in> set (vma_list m)" "w \<in> set (vma_list m)" "w \<noteq> v"
  then have "disjoint_areas a (area s w)" using vm_invD(7) [OF assms(1)] assms(2) by fastforce
  then show "disjoint_areas b (area s w)" using assms(5,6) by (auto simp: disjoint_areas_def)
qed

lemma vm_inv_put_mm:
  assumes "vm_inv s" "mms s mm = Some m" "vma_list m' = vma_list m"
  shows "vm_inv (put_mm mm m' s)"
  using assms by (auto simp: vm_inv_def mm_ok_def fresh_heap_def put_mm_def)

lemma vm_inv_drop: "vm_inv s \<Longrightarrow> vm_inv (s\<lparr>kmallocs := drop n (kmallocs s)\<rparr>)"
proof -
  assume inv: "vm_inv s"
  have "distinct (filter P (drop n xs))" if "distinct (filter P xs)" for P and xs :: "ptr list"
    using that by (metis append_take_drop_id distinct_append filter_append)
  with inv show ?thesis by (auto simp: vm_inv_def mm_ok_def fresh_heap_def dest: in_set_dropD)
qed

lemma vm_inv_insert:
  assumes inv: "vm_inv s" and m: "mms s mm = Some m" and v: "v \<noteq> NULL" "vmas s v = None" "v \<notin> set (kmallocs s)"
    and a: "area_ok a" "vm_mm a = mm" and no: "\<not> overlaps s m (vm_start a) (vm_end a)"
    and m': "vma_list m' = v # vma_list m"
  shows "vm_inv (put_mm mm m' (put_vma v a s))"
proof -
  have ok: "mm_ok ((vmas s)(v \<mapsto> a)) p (vma_list n)" "v \<notin> set (vma_list n)" if "mms s p = Some n" for p n
  proof -
    have "mm_ok (vmas s) p (vma_list n)" using inv that by (simp add: vm_inv_def)
    moreover show "v \<notin> set (vma_list n)" using vm_invD(4) [OF inv that, of v] v by auto
    ultimately show "mm_ok ((vmas s)(v \<mapsto> a)) p (vma_list n)" by simp
  qed
  have "mm_ok ((vmas s)(v \<mapsto> a)) mm (v # vma_list m)"
  proof (rule mm_ok_Cons [OF ok [OF m], of a])
    fix w assume "w \<in> set (vma_list m)"
    then show "disjoint_areas a (the (((vmas s)(v \<mapsto> a)) w))"
      using no ok(2) [OF m] by (auto simp: overlaps_def disjoint_areas_def not_less)
  qed (use a in simp_all)
  then have "\<forall>p n. ((mms s)(mm \<mapsto> m')) p = Some n \<longrightarrow> mm_ok ((vmas s)(v \<mapsto> a)) p (vma_list n)"
    using ok(1) m' by simp
  moreover have "mm \<notin> set (kmallocs s)" using inv m by (auto simp: vm_inv_def fresh_heap_def)
  ultimately show ?thesis using inv v vm_invD(1) [OF inv m]
    by (auto simp: vm_inv_def fresh_heap_def put_mm_def put_vma_def)
qed

lemma vm_inv_remove:
  assumes inv: "vm_inv s" and v: "vmas s v = Some a" and m: "mms s (vm_mm a) = Some m"
    and m': "vma_list m' = remove1 v (vma_list m)"
  shows "vm_inv (kfree_vma v (put_mm (vm_mm a) m' s))"
proof -
  have "mm_ok ((vmas s)(v := None)) p (vma_list n)" if n: "((mms s)(vm_mm a \<mapsto> m')) p = Some n" for p n
  proof (cases "p = vm_mm a")
    case True
    have "mm_ok (vmas s) (vm_mm a) (vma_list m)" "distinct (vma_list m)"
      using inv m by (auto simp: vm_inv_def mm_ok_def)
    then have "mm_ok (vmas s) (vm_mm a) (remove1 v (vma_list m))" "v \<notin> set (remove1 v (vma_list m))"
      by (auto simp: mm_ok_def set_remove1_eq)
    then show ?thesis using n True m' by simp
  next
    case False
    then have n: "mms s p = Some n" using that by simp
    then have "v \<notin> set (vma_list n)" using vm_invD(5) [OF inv n, of v] v False by auto
    then show ?thesis using inv n by (simp add: vm_inv_def)
  qed
  moreover have "vm_mm a \<notin> set (kmallocs s)" using inv m by (auto simp: vm_inv_def fresh_heap_def)
  ultimately show ?thesis using inv vm_invD(1) [OF inv m]
    by (auto simp: vm_inv_def fresh_heap_def put_mm_def kfree_vma_def)
qed

text \<open>
  Every branch of \<^verbatim>\<open>vm_area_setup\<close>: either only answers of \<^verbatim>\<open>kmalloc\<close> are used up, or the new
  area is first in the list.
\<close>

definition inserted :: "ptr \<Rightarrow> mm_struct \<Rightarrow> ptr \<Rightarrow> vm_area_struct \<Rightarrow> vm_state \<Rightarrow> vm_state" where
  "inserted mm m v a s =
     put_mm mm (segment_bounds (vm_type a) (vm_start a) (vm_end a)
                  (m\<lparr>vma_list := v # vma_list m, map_count := int32_of (map_count m + 1)\<rparr>)) (put_vma v a s)"

lemma vma_list_segment_bounds [simp]: "vma_list (segment_bounds t f l m) = vma_list m"
  by (simp add: segment_bounds_def)

lemma kmalloc_eq: "kmalloc s = (if kmallocs s = [] then NULL else hd (kmallocs s), s\<lparr>kmallocs := drop 1 (kmallocs s)\<rparr>)"
  by (cases "kmallocs s") (simp_all add: kmalloc_def)

lemma overlaps_put_vma:
  assumes "v \<notin> set (vma_list m)"
  shows "overlaps (put_vma v a s) m x y \<longleftrightarrow> overlaps s m x y"
proof -
  have "vmas (put_vma v a s) w = vmas s w" if "w \<in> set (vma_list m)" for w using that assms by (auto simp: put_vma_def)
  then show ?thesis by (simp add: overlaps_def)
qed

lemma find_first_cong: "(\<And>w. w \<in> set l \<Longrightarrow> vmas t w = vmas s w) \<Longrightarrow> find_first P t l = find_first P s l"
  by (induction l) (auto simp: get_vma_def split: option.split)

lemma insert_vm_struct_eq:
  assumes inv: "vm_inv s" and m: "mms s mm = Some m" and t: "mms t = mms s" "vmas t = (vmas s)(v \<mapsto> a)"
    and v: "vmas s v = None" and lt: "vm_start a < vm_end a"
  shows "insert_vm_struct mm v t =
    (if overlaps s m (vm_start a) (vm_end a) then Return (- ENOMEM, t)
     else Return (0, put_mm mm (m\<lparr>vma_list := v # vma_list m, map_count := int32_of (map_count m + 1)\<rparr>) t))"
proof -
  have "v \<notin> set (vma_list m)" using vm_invD(4) [OF inv m, of v] v by auto
  then have "find_first P t (vma_list m) = find_first P s (vma_list m)" for P
    by (intro find_first_cong) (auto simp: t(2))
  then have "find_vma_intersection t mm (vm_start a) (vm_end a) = find_vma_intersection s mm (vm_start a) (vm_end a)"
    using t(1) by (simp add: find_vma_intersection_def get_mm_def m)
  then show ?thesis using t m
    by (cases rule: find_vma_intersection_cases [OF inv m lt]) (simp_all add: insert_vm_struct_def get_vma_def get_mm_def)
qed

lemma vm_area_setup_run:
  fixes type prot flags
  assumes inv: "vm_inv s" and m: "mms s mm = Some m" and lt: "addr < addr + len" and k: "kmallocs s = v # ps" "v \<noteq> NULL"
  defines "a \<equiv> new_area mm addr (addr + len) type prot flags"
  defines "n \<equiv> if page_count a > 0 then 2 else 1 :: nat"
  shows "vm_area_setup mm addr len type prot flags s =
    (if page_count a > 0 \<and> (ps = [] \<or> hd ps = NULL) then Return (NULL, s\<lparr>kmallocs := drop 2 (kmallocs s)\<rparr>)
     else if overlaps s m addr (addr + len) then Return (NULL, s\<lparr>kmallocs := drop n (kmallocs s)\<rparr>)
     else Return (v, inserted mm m v a (s\<lparr>kmallocs := drop n (kmallocs s)\<rparr>)))"
proof -
  have v: "vmas s v = None" using inv k by (auto simp: vm_inv_def fresh_heap_def)
  define t where "t b j = put_vma v b (s\<lparr>kmallocs := drop j (kmallocs s)\<rparr>)" for b j
  have free: "kfree_vma v (t b j) = s\<lparr>kmallocs := drop j (kmallocs s)\<rparr>" for b j
    using v by (simp add: t_def kfree_vma_def put_vma_def fun_upd_idem)
  have t: "get_vma (t b j) v = Return b" "kmallocs (t b 1) = ps" for b j
    using k(1) by (simp_all add: t_def get_vma_def put_vma_def)
  define rest :: "int \<times> vm_state \<Rightarrow> (ptr \<times> vm_state) outcome" where "rest = (\<lambda>(ret, s3).
     if ret \<noteq> 0 then Return (NULL, kfree_vma v s3)
     else bind_outcome (insert_vm_struct mm v s3)
       (\<lambda>(ret, s4).
          if ret \<noteq> 0 then Return (NULL, kfree_vma v s4)
          else bind_outcome (get_mm s4 mm)
            (\<lambda>m. Return (v, put_mm mm (segment_bounds type addr (addr + len) m) s4))))"
  have start: "vm_area_setup mm addr len type prot flags s = bind_outcome (vma_alloc_page_array v (t (a\<lparr>vma_pages := None\<rparr>) 1)) rest"
    using k lt [unfolded not_le [symmetric]] vm_invD(1) [OF inv m] unfolding rest_def a_def
    by (simp add: vm_area_setup_def alloc_vma_def kmalloc_eq vma_init_def get_vma_def put_vma_def t_def new_area_def Let_def)
  have arr: "vma_alloc_page_array v (t (a\<lparr>vma_pages := None\<rparr>) 1) =
      (if page_count a > 0 \<and> (ps = [] \<or> hd ps = NULL) then Return (- ENOMEM, t (a\<lparr>vma_pages := None\<rparr>) 2) else Return (0, t a n))"
    unfolding vma_alloc_page_array_def t(1) kmalloc_eq t(2) using k(1) unfolding n_def a_def
    by (auto simp: t_def put_vma_def new_area_def Let_def numeral_2_eq_2)
  have "insert_vm_struct mm v (t a n) = (if overlaps s m addr (addr + len) then Return (- ENOMEM, t a n)
      else Return (0, put_mm mm (m\<lparr>vma_list := v # vma_list m, map_count := int32_of (map_count m + 1)\<rparr>) (t a n)))"
    using insert_vm_struct_eq [OF inv m, of "t a n" v a] v lt by (simp add: t_def put_vma_def a_def)
  moreover have "type = vm_type a" "addr = vm_start a" "addr + len = vm_end a" by (simp_all add: a_def)
  ultimately have "rest (0, t a n) = (if overlaps s m addr (addr + len) then Return (NULL, s\<lparr>kmallocs := drop n (kmallocs s)\<rparr>)
     else Return (v, inserted mm m v a (s\<lparr>kmallocs := drop n (kmallocs s)\<rparr>)))"
    by (cases "overlaps s m addr (addr + len)")
       (simp_all add: rest_def free, simp add: inserted_def put_mm_def get_mm_def t_def put_vma_def)
  moreover have "rest (- ENOMEM, t b j) = Return (NULL, s\<lparr>kmallocs := drop j (kmallocs s)\<rparr>)" for b j
    by (simp add: rest_def free)
  ultimately show ?thesis unfolding start arr
    by (cases "page_count a > 0 \<and> (ps = [] \<or> hd ps = NULL)") (simp_all only: if_True if_False bind_outcome.simps simp_thms)
qed

lemma vm_area_setup_cases:
  assumes inv: "vm_inv s" and m: "mms s mm = Some m"
  obtains n where "vm_area_setup mm addr len type prot flags s = Return (NULL, s\<lparr>kmallocs := drop n (kmallocs s)\<rparr>)"
      "\<not> (kmalloc_ok 2 s \<and> addr < addr + len \<and> \<not> overlaps s m addr (addr + len))"
  | v n where "vm_area_setup mm addr len type prot flags s =
      Return (v, inserted mm m v (new_area mm addr (addr + len) type prot flags) (s\<lparr>kmallocs := drop n (kmallocs s)\<rparr>))"
      "v \<noteq> NULL" "vmas s v = None" "v \<notin> set (drop n (kmallocs s))" "addr < addr + len" "\<not> overlaps s m addr (addr + len)"
proof -
  consider "addr + len \<le> addr" | "addr < addr + len" "kmallocs s = [] \<or> hd (kmallocs s) = NULL"
    | v ps where "addr < addr + len" "kmallocs s = v # ps" "v \<noteq> NULL"
    by (metis list.collapse not_le)
  then show ?thesis
  proof cases
    case 1
    show ?thesis using 1 by (intro that(1) [of 0]) (auto simp: vm_area_setup_def)
  next
    case 2
    then have "\<not> kmalloc_ok 2 s" by (cases "kmallocs s") (auto simp: kmalloc_ok_def)
    then show ?thesis using 2 vm_invD(1) [OF inv m]
      by (intro that(1) [of 1]) (auto simp: vm_area_setup_def alloc_vma_def kmalloc_eq)
  next
    case (3 v ps)
    define pc where "pc = page_count (new_area mm addr (addr + len) type prot flags)"
    note run = vm_area_setup_run [OF inv m 3, of type prot flags, folded pc_def]
    have v: "vmas s v = None" "v \<notin> set ps" using inv 3 by (auto simp: vm_inv_def fresh_heap_def)
    have vn: "v \<notin> set (drop j (kmallocs s))" if "0 < j" for j
      using v(2) 3(2) that by (cases j) (auto dest: in_set_dropD)
    have nok: "\<not> kmalloc_ok 2 s" if "ps = [] \<or> hd ps = NULL"
      using that 3(2) by (cases ps) (auto simp: kmalloc_ok_def numeral_2_eq_2)
    show ?thesis
    proof (cases "(pc > 0 \<and> (ps = [] \<or> hd ps = NULL)) \<or> overlaps s m addr (addr + len)")
      case True
      then show ?thesis
        using run nok by (intro that(1) [of "if pc > 0 \<and> (ps = [] \<or> hd ps = NULL) \<or> pc > 0 then 2 else 1"]) auto
    next
      case False
      have "v \<notin> set (drop (if pc > 0 then 2 else 1) (kmallocs s))" by (rule vn) simp
      then show ?thesis using run False 3(1,3) v(1) by (intro that(2) [of v "if pc > 0 then 2 else 1"]) simp_all
    qed
  qed
qed

lemma vm_inv_inserted:
  assumes "vm_inv s" "mms s mm = Some m" "v \<noteq> NULL" "vmas s v = None" "v \<notin> set (kmallocs s)"
    "area_ok a" "vm_mm a = mm" "\<not> overlaps s m (vm_start a) (vm_end a)"
  shows "vm_inv (inserted mm m v a s)"
  unfolding inserted_def by (rule vm_inv_insert [OF assms]) simp

lemma overlaps_kmallocs [simp]: "overlaps (s\<lparr>kmallocs := ks\<rparr>) m x y \<longleftrightarrow> overlaps s m x y"
  by (simp add: overlaps_def)

lemma vm_inv_setup:
  assumes inv: "vm_inv s" and m: "mms s mm = Some m" and r: "vm_area_setup mm addr len type prot flags s = Return (v, s')"
  shows "vm_inv s'"
proof (rule vm_area_setup_cases [OF inv m, of addr len type prot flags], goal_cases)
  case (1 n)
  then show ?case using r vm_inv_drop [OF inv, of n] by simp
next
  case (2 w n)
  then show ?case using r vm_inv_drop [OF inv, of n] m
    by (auto intro!: vm_inv_inserted)
qed

lemma find_vma_inserted:
  assumes inv: "vm_inv s" and m: "mms s mm = Some m" and v: "vmas s v = None"
  shows "find_vma (inserted mm m v a (s\<lparr>kmallocs := ks\<rparr>)) mm' x = (if mm' = mm \<and> within x a then Return v else find_vma s mm' x)"
proof (cases "mm' = NULL \<or> mms s mm' = None")
  case True
  then have "mm' \<noteq> mm" using vm_invD(1) [OF inv m] m by auto
  then show ?thesis using True by (auto simp: find_vma_def inserted_def put_mm_def put_vma_def get_mm_def)
next
  case False
  then obtain m' where m': "mms s mm' = Some m'" by auto
  have "v \<notin> set (vma_list m')" using vm_invD(4) [OF inv m', of v] v by auto
  then have "find_first P (inserted mm m v a (s\<lparr>kmallocs := ks\<rparr>)) (vma_list m') = find_first P s (vma_list m')" for P
    by (intro find_first_cong) (auto simp: inserted_def put_mm_def put_vma_def)
  then show ?thesis using False m m'
    by (auto simp: find_vma_def get_mm_def get_vma_def within_def inserted_def put_mm_def put_vma_def)
qed

section \<open>Correctness\<close>


definition demo_mm :: mm_struct where
  "demo_mm = \<lparr>is_kernel_mm = False, pagetable = 0x80201000, vma_list = [], map_count = 0, start_code = 0, end_code = 0,
     start_data = 0, end_data = 0, start_brk = 0x400000, brk = 0x400000, start_stack = 0, end_stack = 0, mm_users = 1, mm_count = 1\<rparr>"

definition demo_vm :: vm_state where
  "demo_vm = \<lparr>mms = [0x1000 \<mapsto> demo_mm], vmas = Map.empty, mmu_state = demo_mmu, page_data = (\<lambda>_. replicate 4096 0),
     kmallocs = [0x2000, 0x3000, 0x4000, 0x5000]\<rparr>"

lemma demo_vm_inv: "vm_inv demo_vm" "mms demo_vm 0x1000 = Some demo_mm" "kmalloc_ok 2 demo_vm"
  by (auto simp: vm_inv_def mm_ok_def fresh_heap_def kmalloc_ok_def demo_vm_def demo_mm_def)


end
