(* ===== verification/Mmap.thy ===== *)
theory Mmap
  imports Vma
begin

text \<open>
  The operations on address spaces: \<^verbatim>\<open>kernel/mm/mmap.c\<close>, \<^verbatim>\<open>populate_vma\<close> of \<^verbatim>\<open>kernel/mm/vma.c\<close> and
  the creation and release of address spaces of \<^verbatim>\<open>kernel/mm/mm_struct.c\<close>. Loops over the addresses
  of a range count its pages; the addresses do not wrap around because the bounds are page
  aligned (the old break of \<^verbatim>\<open>do_brk\<close> is taken to lie below the last page of the 64 bit space).
  The TLB flush is left out.
\<close>

section \<open>Access rights\<close>

abbreviation (input) PTE_R :: u64 where "PTE_R \<equiv> 0x2"
abbreviation (input) PTE_X :: u64 where "PTE_X \<equiv> 0x8"
abbreviation (input) PTE_U :: u64 where "PTE_U \<equiv> 0x10"
abbreviation (input) PTE_A :: u64 where "PTE_A \<equiv> 0x40"
abbreviation (input) PTE_D :: u64 where "PTE_D \<equiv> 0x80"

definition prot_to_type :: "u32 \<Rightarrow> bool \<Rightarrow> u64" where
  "prot_to_type prot user =
     (let perm = 0;
          perm = if prot AND PROT_READ \<noteq> 0 then perm OR (PTE_R OR PTE_A) else perm;
          perm = if prot AND PROT_WRITE \<noteq> 0 then perm OR (PTE_W OR PTE_D) else perm;
          perm = if prot AND PROT_EXEC \<noteq> 0 then perm OR (PTE_X OR PTE_A) else perm;
          perm = if perm = 0 then PTE_R else perm
      in if user then perm OR PTE_U else perm)"

definition prot_to_vm_flags :: "u32 \<Rightarrow> u64" where
  "prot_to_vm_flags prot = prot_vm_flags prot 0"

definition vm_flags_to_type :: "u64 \<Rightarrow> u64" where
  "vm_flags_to_type flags =
     (let perm = 0;
          perm = if flags AND VM_READ \<noteq> 0 then perm OR (PTE_R OR PTE_A) else perm;
          perm = if flags AND VM_WRITE \<noteq> 0 then perm OR (PTE_W OR PTE_D) else perm;
          perm = if flags AND VM_EXEC \<noteq> 0 then perm OR (PTE_X OR PTE_A) else perm;
          perm = if flags AND VM_USER \<noteq> 0 then perm OR PTE_U else perm;
          perm = perm OR PTE_V
      in if perm AND (PTE_R OR PTE_W OR PTE_X) = 0 then PTE_V else perm)"

definition type_to_vm_flags :: "u64 \<Rightarrow> u64" where
  "type_to_vm_flags pte_flags =
     (let flags = 0;
          flags = if pte_flags AND PTE_R \<noteq> 0 then flags OR (VM_READ OR VM_MAYREAD) else flags;
          flags = if pte_flags AND PTE_W \<noteq> 0 then flags OR (VM_WRITE OR VM_MAYWRITE) else flags;
          flags = if pte_flags AND PTE_X \<noteq> 0 then flags OR (VM_EXEC OR VM_MAYEXEC) else flags
      in if pte_flags AND PTE_U \<noteq> 0 then flags OR VM_USER else flags)"

definition update_mm_boundaries :: "vm_area_struct \<Rightarrow> mm_struct \<Rightarrow> mm_struct" where
  "update_mm_boundaries a m = segment_bounds (vm_type a) (vm_start a) (vm_end a) m"

section \<open>A free range\<close>

text \<open>\<^verbatim>\<open>find_free_area\<close>: \<open>None\<close> when the search does not end.\<close>

partial_function (option) find_free_loop :: "vm_state \<Rightarrow> ptr \<Rightarrow> u64 \<Rightarrow> u64 \<Rightarrow> u64 outcome option" where
  "find_free_loop s mm len addr =
     (case find_vma_intersection s mm addr (addr + len) of
        Fault \<Rightarrow> Some Fault
      | Return v \<Rightarrow>
          if v = NULL then Some (Return addr)
          else find_free_loop s mm len (ROUNDUP (addr + PAGE_SIZE) PAGE_SIZE))"

definition find_free_area :: "vm_state \<Rightarrow> ptr \<Rightarrow> u64 \<Rightarrow> u64 outcome option" where
  "find_free_area s mm len =
     (case get_mm s mm of Fault \<Rightarrow> Some Fault | Return m \<Rightarrow> find_free_loop s mm len (brk m))"

section \<open>Unmapping\<close>

text \<open>\<^verbatim>\<open>pgt_unmap(mm->pagetable, va, PAGE_SIZE, 1)\<close> and \<^verbatim>\<open>put_page(vma->pages[i])\<close>, if there is a page.\<close>

definition unmap_slot :: "(u64 \<Rightarrow> u64) \<Rightarrow> ptr \<Rightarrow> ptr \<Rightarrow> int \<Rightarrow> u64 \<Rightarrow> vm_state \<Rightarrow> vm_state outcome" where
  "unmap_slot klookup mm v i va s =
     bind_outcome (get_slot s v i)
       (\<lambda>x. if x = None then Return s
            else bind_outcome (get_mm s mm)
              (\<lambda>m. bind_outcome (pgt_unmap klookup (pagetable m) va PAGE_SIZE True (mmu_state s))
                (\<lambda>(ret, u). bind_outcome (vm_put_page x (s\<lparr>mmu_state := u\<rparr>)) (set_slot v i None))))"

definition move_slot :: "ptr \<Rightarrow> int \<Rightarrow> ptr \<Rightarrow> int \<Rightarrow> vm_state \<Rightarrow> vm_state outcome" where
  "move_slot v i w j s =
     bind_outcome (get_slot s v i)
       (\<lambda>x. bind_outcome (set_slot w j x s) (set_slot v i None))"

text \<open>
  The split of the first area at \<open>first\<close>: the pages before it go to a new area, the others move
  down. \<open>False\<close> when there is no new area.
\<close>

definition split_first :: "ptr \<Rightarrow> ptr \<Rightarrow> u64 \<Rightarrow> vm_state \<Rightarrow> (bool \<times> vm_state) outcome" where
  "split_first mm v first s =
     bind_outcome (get_vma s v)
       (\<lambda>a. if first > vm_start a then
              bind_outcome (vm_area_setup mm (vm_start a) (first - vm_start a) (vm_type a) (vm_prot a) (vm_flags a) s)
                (\<lambda>(w, s1).
                   if w = NULL then Return (False, s1)
                   else let n = int32_of (uint ((first - vm_start a) div PAGE_SIZE)); rest = int32_of (page_count a - n) in
                     bind_outcome (for_range 0 (nat n) (\<lambda>i. move_slot v (int i) w (int i)) s1)
                       (\<lambda>s2. bind_outcome
                          (if rest > 0 then
                             bind_outcome (for_range 0 (nat rest) (\<lambda>i s. bind_outcome (get_slot s v (int i + n)) (\<lambda>x. set_slot v (int i) x s)) s2)
                               (if page_count a < rest then (\<lambda>_. Fault)
                                else for_range (nat rest) (nat (page_count a)) (\<lambda>i. set_slot v (int i) None))
                           else Return s2)
                          (\<lambda>s3. bind_outcome (get_vma s3 v)
                            (\<lambda>b. Return (True, put_vma v (b\<lparr>vm_start := first\<rparr>) s3)))))
            else Return (True, s))"

definition split_last :: "ptr \<Rightarrow> u64 \<Rightarrow> vm_state \<Rightarrow> (bool \<times> vm_state) outcome" where
  "split_last mm lim s =
     bind_outcome (find_vma s mm lim)
       (\<lambda>n. if n = NULL then Return (True, s)
            else bind_outcome (get_vma s n)
              (\<lambda>b. if vm_start b < lim \<and> lim < vm_end b then
                     bind_outcome (vm_area_setup mm lim (vm_end b - lim) (vm_type b) (vm_prot b) (vm_flags b) s)
                       (\<lambda>(w, s1).
                          if w = NULL then Return (False, s1)
                          else let idx = int32_of (uint ((lim - vm_start b) div PAGE_SIZE)); rest = int32_of (page_count b - idx) in
                            bind_outcome (for_range 0 (nat rest) (\<lambda>i. move_slot n (int i + idx) w (int i)) s1)
                              (\<lambda>s2. bind_outcome (get_vma s2 n)
                                (\<lambda>b. Return (True, put_vma n (b\<lparr>vm_end := lim\<rparr>) s2))))
                   else Return (True, s)))"

text \<open>One area of the loop that frees the areas of the range: its pages, then the area itself.\<close>

definition unmap_slots :: "(u64 \<Rightarrow> u64) \<Rightarrow> ptr \<Rightarrow> u64 \<Rightarrow> u64 \<Rightarrow> ptr \<Rightarrow> vm_area_struct \<Rightarrow> vm_state \<Rightarrow> vm_state outcome" where
  "unmap_slots klookup mm first lim v a s =
     (let unmap_start = if first > vm_start a then first else vm_start a;
          unmap_end = if lim < vm_end a then lim else vm_end a;
          start_idx = int32_of (uint ((unmap_start - vm_start a) div PAGE_SIZE));
          end_idx = int32_of (uint ((unmap_end - vm_start a + PAGE_SIZE - 1) div PAGE_SIZE)) in
      if start_idx < 0 then (if start_idx < end_idx \<and> start_idx < page_count a then Fault else Return s)
      else for_range (nat start_idx) (nat (if end_idx < page_count a then end_idx else page_count a))
             (\<lambda>i. unmap_slot klookup mm v (int i) (vm_start a + word_of_int (int32_of (int i * 4096)))) s)"

definition unmap_area :: "(u64 \<Rightarrow> u64) \<Rightarrow> ptr \<Rightarrow> u64 \<Rightarrow> u64 \<Rightarrow> ptr \<Rightarrow> vm_state \<Rightarrow> vm_state outcome" where
  "unmap_area klookup mm first lim v s =
     bind_outcome (get_vma s v)
       (\<lambda>a. bind_outcome (unmap_slots klookup mm first lim v a s)
         (\<lambda>s1. bind_outcome (unlink_vma v s1)
           (\<lambda>s2. bind_outcome (get_mm s2 mm)
             (\<lambda>m. Return (put_mm mm (m\<lparr>map_count := int32_of (map_count m - 1)\<rparr>) (kfree_vma v s2))))))"

fun unmap_areas :: "(u64 \<Rightarrow> u64) \<Rightarrow> ptr \<Rightarrow> u64 \<Rightarrow> u64 \<Rightarrow> ptr list \<Rightarrow> vm_state \<Rightarrow> vm_state outcome" where
  "unmap_areas klookup mm first lim [] s = Return s"
| "unmap_areas klookup mm first lim (v # vs) s =
     bind_outcome (get_vma s v)
       (\<lambda>a. if vm_start a \<ge> lim then Return s
            else if vm_end a \<le> first then unmap_areas klookup mm first lim vs s
            else bind_outcome (unmap_area klookup mm first lim v s) (unmap_areas klookup mm first lim vs))"

text \<open>The work of \<^verbatim>\<open>do_unmap\<close> once it has found an area: the splits, then the loop.\<close>

definition unmap_range :: "(u64 \<Rightarrow> u64) \<Rightarrow> ptr \<Rightarrow> ptr \<Rightarrow> u64 \<Rightarrow> u64 \<Rightarrow> vm_state \<Rightarrow> (int \<times> vm_state) outcome" where
  "unmap_range klookup mm v first lim s =
     bind_outcome (split_first mm v first s)
       (\<lambda>(ok, s1).
          if \<not> ok then Return (- ENOMEM, s1)
          else bind_outcome (split_last mm lim s1)
            (\<lambda>(ok, s2).
               if \<not> ok then Return (- ENOMEM, s2)
               else bind_outcome (get_mm s2 mm)
                 (\<lambda>m. bind_outcome (unmap_areas klookup mm first lim (vma_list m) s2)
                   (\<lambda>s3. Return (0, s3)))))"

definition do_unmap :: "(u64 \<Rightarrow> u64) \<Rightarrow> ptr \<Rightarrow> u64 \<Rightarrow> u64 \<Rightarrow> vm_state \<Rightarrow> (int \<times> vm_state) outcome" where
  "do_unmap klookup mm first len s =
     (if mm = NULL \<or> len = 0 then Return (- EINVAL, s)
      else if first AND (PAGE_SIZE - 1) \<noteq> 0 \<or> len AND (PAGE_SIZE - 1) \<noteq> 0 then Return (- EINVAL, s)
      else let lim = first + len in
        if lim < first then Return (- EINVAL, s)
        else bind_outcome (find_vma s mm first)
          (\<lambda>v. if v = NULL then Return (0, s)
               else bind_outcome (get_vma s v)
                 (\<lambda>a. if vm_start a \<ge> lim then Return (0, s) else unmap_range klookup mm v first lim s)))"

section \<open>Populating\<close>

text \<open>
  \<^verbatim>\<open>populate_vma\<close>: round \<open>k\<close> uses entry \<open>k\<close> of the page array, whatever the address is. A fresh
  page is all zero.
\<close>

fun populate_loop :: "(u64 \<Rightarrow> u64) \<Rightarrow> ptr \<Rightarrow> u64 \<Rightarrow> u32 \<Rightarrow> nat list \<Rightarrow> vm_state \<Rightarrow> (int \<times> vm_state) outcome" where
  "populate_loop klookup v va prot [] s = Return (0, s)"
| "populate_loop klookup v va prot (k # ks) s =
     bind_outcome (get_vma s v)
       (\<lambda>a. bind_outcome (get_slot s v (int k))
         (\<lambda>x. if x \<noteq> None then populate_loop klookup v va prot ks s
              else case alloc_page klookup (pages (mmu_state s)) of
                (None, g) \<Rightarrow>
                  bind_outcome (do_unmap klookup (vm_mm a) va (of_nat (4096 * k)) (s\<lparr>mmu_state := (mmu_state s)\<lparr>pages := g\<rparr>\<rparr>))
                    (\<lambda>(ret, s1). Return (- ENOMEM, s1))
              | (Some p, g) \<Rightarrow>
                  bind_outcome (set_slot v (int k) (Some p)
                                  (s\<lparr>mmu_state := (mmu_state s)\<lparr>pages := g\<rparr>, page_data := (page_data s)(p := replicate 4096 0)\<rparr>))
                    (\<lambda>s1. bind_outcome (get_mm s1 (vm_mm a))
                      (\<lambda>m. bind_outcome (pgt_map_page klookup (pagetable m) (va + of_nat (4096 * k)) (paddr (page_pool g ! p))
                                           (ucast (prot_to_type prot (vm_flags a AND VM_USER \<noteq> 0))) (mmu_state s1))
                        (\<lambda>(ret, u).
                           if ret \<noteq> 0 then
                             bind_outcome (vm_put_page (Some p) (s1\<lparr>mmu_state := u\<rparr>))
                               (\<lambda>s2. bind_outcome (do_unmap klookup (vm_mm a) va (of_nat (4096 * k)) s2)
                                 (\<lambda>(ret, s3). Return (- ENOMEM, s3)))
                           else populate_loop klookup v va prot ks (s1\<lparr>mmu_state := u\<rparr>))))))"

definition populate_vma :: "(u64 \<Rightarrow> u64) \<Rightarrow> ptr \<Rightarrow> u64 \<Rightarrow> u64 \<Rightarrow> u32 \<Rightarrow> vm_state \<Rightarrow> (int \<times> vm_state) outcome" where
  "populate_vma klookup v va len prot s = populate_loop klookup v va prot [0..<(unat len + 4095) div 4096] s"

section \<open>The heap\<close>

text \<open>
  The two directions of \<^verbatim>\<open>do_brk\<close>, \<open>False\<close> for \<^verbatim>\<open>-ENOMEM\<close>. When the heap area \<open>v\<close> ends at the old
  break it is extended, with a larger page array if it needs one.
\<close>

definition extend_heap :: "ptr \<Rightarrow> u64 \<Rightarrow> vm_state \<Rightarrow> (bool \<times> vm_state) outcome" where
  "extend_heap v new_brk s =
     bind_outcome (get_vma s v)
       (\<lambda>a. let old_npages = word_of_int (page_count a) :: u64;
                new_npages = (new_brk - vm_start a + PAGE_SIZE - 1) div PAGE_SIZE in
            if new_npages > old_npages then
              (case kmalloc s of
                 (p, s1) \<Rightarrow>
                   if p = NULL then Return (False, s1)
                   else bind_outcome
                     (case vma_pages a of
                        None \<Rightarrow> Return (replicate (unat new_npages) None)
                      | Some ps \<Rightarrow>
                          if unat old_npages \<le> length ps
                          then Return (take (unat old_npages) ps @ replicate (unat new_npages - unat old_npages) None)
                          else Fault)
                     (\<lambda>qs. Return (True, put_vma v (a\<lparr>vm_end := new_brk, vma_pages := Some qs,
                                            page_count := int32_of (uint new_npages)\<rparr>) s1)))
            else Return (True, put_vma v (a\<lparr>vm_end := new_brk\<rparr>) s))"

definition brk_expand :: "ptr \<Rightarrow> u64 \<Rightarrow> u64 \<Rightarrow> vm_state \<Rightarrow> (bool \<times> vm_state) outcome" where
  "brk_expand mm old_brk new_brk s =
     bind_outcome (find_vma_intersection s mm old_brk new_brk)
       (\<lambda>w. if w \<noteq> NULL then Return (False, s)
            else bind_outcome (find_vma s mm (old_brk - 1))
              (\<lambda>v. bind_outcome (if v = NULL then Return True
                                 else bind_outcome (get_vma s v) (\<lambda>a. Return (vm_end a \<noteq> old_brk \<or> vm_type a \<noteq> VMA_HEAP)))
                (\<lambda>fresh.
                   if fresh then
                     bind_outcome (vm_area_setup mm old_brk (new_brk - old_brk) VMA_HEAP (PROT_READ OR PROT_WRITE)
                                     (VM_GROWSUP OR VM_PRIVATE OR VM_USER) s)
                       (\<lambda>(w, s1). Return (w \<noteq> NULL, s1))
                   else extend_heap v new_brk s)))"

definition brk_unmap_pages :: "(u64 \<Rightarrow> u64) \<Rightarrow> ptr \<Rightarrow> ptr \<Rightarrow> vm_area_struct \<Rightarrow> u64 \<Rightarrow> u64 \<Rightarrow> vm_state \<Rightarrow> vm_state outcome" where
  "brk_unmap_pages klookup mm v a old_brk new_brk s =
     for_range 0 ((unat old_brk - unat new_brk + 4095) div 4096)
       (\<lambda>k s. let addr = new_brk + of_nat (4096 * k);
                  page_idx = int32_of (uint ((addr - vm_start a) div PAGE_SIZE)) in
              if page_idx \<ge> 0 \<and> page_idx < page_count a then unmap_slot klookup mm v page_idx addr s
              else Return s) s"

definition brk_shrink :: "(u64 \<Rightarrow> u64) \<Rightarrow> ptr \<Rightarrow> u64 \<Rightarrow> u64 \<Rightarrow> vm_state \<Rightarrow> vm_state outcome" where
  "brk_shrink klookup mm old_brk new_brk s =
     bind_outcome (find_vma s mm new_brk)
       (\<lambda>v. if v = NULL then Return s
            else bind_outcome (get_vma s v)
              (\<lambda>a. if vm_start a < new_brk \<and> vm_type a = VMA_HEAP then
                     bind_outcome (brk_unmap_pages klookup mm v a old_brk new_brk s)
                       (\<lambda>s1. bind_outcome (get_vma s1 v) (\<lambda>b. Return (put_vma v (b\<lparr>vm_end := new_brk\<rparr>) s1)))
                   else Return s))"

definition do_brk :: "(u64 \<Rightarrow> u64) \<Rightarrow> ptr \<Rightarrow> u64 \<Rightarrow> vm_state \<Rightarrow> (u64 \<times> vm_state) outcome" where
  "do_brk klookup mm new_brk s =
     (if mm = NULL then Return (word_of_int (- EINVAL), s)
      else bind_outcome (get_mm s mm)
        (\<lambda>m. if new_brk = 0 then Return (brk m, s)
             else let new_brk = ROUNDUP new_brk PAGE_SIZE; old_brk = brk m in
               if new_brk < start_brk m then Return (word_of_int (- EINVAL), s)
               else if new_brk = old_brk then Return (old_brk, s)
               else bind_outcome
                 (if new_brk > old_brk then brk_expand mm old_brk new_brk s
                  else bind_outcome (brk_shrink klookup mm old_brk new_brk s) (\<lambda>s1. Return (True, s1)))
                 (\<lambda>(ok, s1).
                    if \<not> ok then Return (word_of_int (- ENOMEM), s1)
                    else bind_outcome (get_mm s1 mm) (\<lambda>m1. Return (new_brk, put_mm mm (m1\<lparr>brk := new_brk\<rparr>) s1)))))"

section \<open>Protection\<close>

definition protect_page :: "(u64 \<Rightarrow> u64) \<Rightarrow> ptr \<Rightarrow> u64 \<Rightarrow> u64 \<Rightarrow> mmu \<Rightarrow> mmu outcome" where
  "protect_page klookup pt perm addr u =
     bind_outcome (page_walk klookup pt addr False u)
       (\<lambda>(pte, u1). case pte of
          None \<Rightarrow> Return u1
        | Some e \<Rightarrow>
            bind_outcome (pte_read u1 e)
              (\<lambda>x. if x AND PTE_V \<noteq> 0 then pte_write e (PA2PPN (PTE2PA x) OR perm OR PTE_V) u1 else Return u1))"

text \<open>The access rights of one area and of the pages of it in the range.\<close>

definition protect_area :: "(u64 \<Rightarrow> u64) \<Rightarrow> mm_struct \<Rightarrow> u64 \<Rightarrow> u64 \<Rightarrow> u32 \<Rightarrow> u64 \<Rightarrow> ptr \<Rightarrow> vm_area_struct \<Rightarrow> vm_state \<Rightarrow> vm_state outcome" where
  "protect_area klookup m cur lim prot flags v a s =
     (let change_start = if cur > vm_start a then cur else vm_start a;
          change_end = if lim < vm_end a then lim else vm_end a;
          s1 = put_vma v (a\<lparr>vm_prot := prot, vm_flags := vm_flags a AND NOT (VM_READ OR VM_WRITE OR VM_EXEC) OR flags\<rparr>) s in
      bind_outcome
        (for_range 0 ((unat change_end - unat change_start + 4095) div 4096)
           (\<lambda>k. protect_page klookup (pagetable m) (prot_to_type prot (\<not> is_kernel_mm m)) (change_start + of_nat (4096 * k)))
           (mmu_state s1))
        (\<lambda>u. Return (s1\<lparr>mmu_state := u\<rparr>)))"

definition may_protect :: "u32 \<Rightarrow> vm_area_struct \<Rightarrow> bool" where
  "may_protect prot a \<longleftrightarrow>
     \<not> (prot AND PROT_READ \<noteq> 0 \<and> vm_flags a AND VM_MAYREAD = 0) \<and>
     \<not> (prot AND PROT_WRITE \<noteq> 0 \<and> vm_flags a AND VM_MAYWRITE = 0) \<and>
     \<not> (prot AND PROT_EXEC \<noteq> 0 \<and> vm_flags a AND VM_MAYEXEC = 0)"

lemma find_first_Return: "find_first P s l = Return v \<Longrightarrow> v = NULL \<or> (\<exists>a. vmas s v = Some a \<and> P a)"
  by (induction l) (auto simp: bind_outcome_Return_iff get_vma_def split: option.splits if_splits)

lemma find_vma_Return:
  assumes "find_vma s mm addr = Return v" "v \<noteq> NULL"
  shows "\<exists>a. vmas s v = Some a \<and> vm_start a \<le> addr \<and> addr < vm_end a"
  using assms find_first_Return [of _ s _ v]
  by (fastforce simp: find_vma_def bind_outcome_Return_iff split: if_splits)

function protect_loop :: "(u64 \<Rightarrow> u64) \<Rightarrow> ptr \<Rightarrow> mm_struct \<Rightarrow> u64 \<Rightarrow> u32 \<Rightarrow> u64 \<Rightarrow> u64 \<Rightarrow> vm_state \<Rightarrow> (int \<times> vm_state) outcome" where
  "protect_loop klookup mm m lim prot flags cur s =
     (if cur < lim then
        (case find_vma s mm cur of
           Fault \<Rightarrow> Fault
         | Return v \<Rightarrow>
             if v = NULL then Return (- ENOMEM, s)
             else (case vmas s v of
                None \<Rightarrow> Fault
              | Some a \<Rightarrow>
                  if vm_start a \<ge> lim then Return (- ENOMEM, s)
                  else if \<not> may_protect prot a then Return (- EACCES, s)
                  else (case protect_area klookup m cur lim prot flags v a s of
                     Fault \<Rightarrow> Fault
                   | Return s1 \<Rightarrow> protect_loop klookup mm m lim prot flags (vm_end a) s1)))
      else Return (0, s))"
  by pat_completeness auto
termination
proof (relation "measure (\<lambda>(klookup, mm, m, lim, prot, flags, cur, s). unat lim - unat cur)", goal_cases)
  case (2 klookup mm m lim prot flags cur s v a s1)
  then have "cur < vm_end a" using find_vma_Return [of s mm cur v] by auto
  then show ?case using 2(1) by (simp add: word_less_nat_alt)
qed simp

declare protect_loop.simps [simp del]

definition do_protect :: "(u64 \<Rightarrow> u64) \<Rightarrow> ptr \<Rightarrow> u64 \<Rightarrow> u64 \<Rightarrow> u32 \<Rightarrow> vm_state \<Rightarrow> (int \<times> vm_state) outcome" where
  "do_protect klookup mm first len prot s =
     (if mm = NULL then Return (- EINVAL, s)
      else if first AND (PAGE_SIZE - 1) \<noteq> 0 then Return (- EINVAL, s)
      else if len = 0 then Return (0, s)
      else let lim = first + ROUNDUP len PAGE_SIZE in
        if lim < first then Return (- EINVAL, s)
        else let flags = 0;
                 flags = if prot AND PROT_READ \<noteq> 0 then flags OR VM_READ else flags;
                 flags = if prot AND PROT_WRITE \<noteq> 0 then flags OR VM_WRITE else flags;
                 flags = if prot AND PROT_EXEC \<noteq> 0 then flags OR VM_EXEC else flags in
          bind_outcome (get_mm s mm) (\<lambda>m. protect_loop klookup mm m lim prot flags first s))"

section \<open>Address spaces\<close>

definition zero_mm :: mm_struct where
  "zero_mm = \<lparr>is_kernel_mm = False, pagetable = NULL, vma_list = [], map_count = 0, start_code = 0, end_code = 0,
     start_data = 0, end_data = 0, start_brk = 0, brk = 0, start_stack = 0, end_stack = 0, mm_users = 0, mm_count = 0\<rparr>"

text \<open>\<^verbatim>\<open>create_init_mm\<close>, for the address of the variable \<^verbatim>\<open>init_mm\<close>.\<close>

definition create_init_mm :: "ptr \<Rightarrow> ptr \<Rightarrow> vm_state \<Rightarrow> vm_state" where
  "create_init_mm init_mm g_kernel_pagetable s =
     put_mm init_mm (zero_mm\<lparr>is_kernel_mm := True, pagetable := g_kernel_pagetable,
       start_brk := DRAM_BASE, brk := DRAM_BASE + mem_size (pages (mmu_state s))\<rparr>) s"

text \<open>
  \<^verbatim>\<open>user_alloc_mm\<close> clears the structure without a test: when there is no memory for it the code
  writes through \<^verbatim>\<open>NULL\<close>. The root table comes from \<^verbatim>\<open>kmalloc\<close>.
\<close>

definition user_mm :: "ptr \<Rightarrow> mm_struct" where
  "user_mm pt = zero_mm\<lparr>pagetable := pt, mm_users := 1, mm_count := 1,
     start_code := 0x00400000, end_code := 0x00400000, start_data := 0x10000000, end_data := 0x10000000,
     start_brk := 0x400000, brk := 0x400000, start_stack := 0x80000000 - PAGE_SIZE, end_stack := 0x80000000\<rparr>"

definition user_alloc_mm :: "vm_state \<Rightarrow> (ptr \<times> vm_state) outcome" where
  "user_alloc_mm s =
     (case kmalloc s of
        (mm, s1) \<Rightarrow>
          if mm = NULL then Fault
          else (case kmalloc s1 of
             (pt, s2) \<Rightarrow>
               if pt = NULL then Return (NULL, put_mm mm zero_mm s2)
               else
                 bind_outcome
                   (vm_area_setup mm (0x80000000 - PAGE_SIZE) PAGE_SIZE VMA_STACK (PROT_READ OR PROT_WRITE) VM_USERSTACK
                      (put_mm mm (user_mm pt)
                        (s2\<lparr>mmu_state := (mmu_state s2)\<lparr>frames := (frames (mmu_state s2))(pt \<mapsto> replicate PT_ENTRIES 0)\<rparr>\<rparr>)))
                   (\<lambda>(stack_vma, s3). if stack_vma = NULL then Return (NULL, s3) else Return (mm, s3))))"

text \<open>The loop of \<^verbatim>\<open>free_mm\<close> uses each area again after \<^verbatim>\<open>free_vma\<close> has released it.\<close>

fun free_areas :: "ptr list \<Rightarrow> vm_state \<Rightarrow> vm_state outcome" where
  "free_areas [] s = Return s"
| "free_areas (v # vs) s =
     bind_outcome (free_vma v s)
       (\<lambda>s1. bind_outcome (get_vma s1 v)
         (\<lambda>a. bind_outcome (if vma_pages a = None then Return s1 else put_slots v (page_count a) s1)
           (\<lambda>s2. bind_outcome (unlink_vma v s2)
             (\<lambda>s3. free_areas vs (kfree_vma v s3)))))"

definition free_mm :: "(u64 \<Rightarrow> u64) \<Rightarrow> ptr \<Rightarrow> vm_state \<Rightarrow> vm_state outcome" where
  "free_mm klookup mm s =
     (if mm = NULL then Return s
      else bind_outcome (get_mm s mm)
        (\<lambda>m. let c = int32_of (mm_count m - 1); s1 = put_mm mm (m\<lparr>mm_count := c\<rparr>) s in
             if c \<noteq> 0 then Return s1
             else bind_outcome (free_areas (vma_list m) s1)
               (\<lambda>s2. bind_outcome (if pagetable m = NULL then Return (mmu_state s2) else free_pagetable klookup (pagetable m) (mmu_state s2))
                 (\<lambda>u. Return (s2\<lparr>mmu_state := u, mms := (mms s2)(mm := None)\<rparr>)))))"

section \<open>The invariant is kept\<close>

lemma get_vma_Return [simp]: "get_vma s v = Return a \<longleftrightarrow> vmas s v = Some a"
  by (simp add: get_vma_def split: option.split)

lemma get_mm_Return [simp]: "get_mm s mm = Return m \<longleftrightarrow> mms s mm = Some m"
  by (simp add: get_mm_def split: option.split)

text \<open>
  Operations on the page arrays and the page tables change nothing that the searches read: the
  same areas with the same ranges, in the same lists.
\<close>

definition same_areas :: "vm_state \<Rightarrow> vm_state \<Rightarrow> bool" where
  "same_areas s t \<longleftrightarrow> mms t = mms s \<and> kmallocs t = kmallocs s \<and> dom (vmas t) = dom (vmas s) \<and>
     (\<forall>v a. vmas s v = Some a \<longrightarrow> (\<exists>b. vmas t v = Some b \<and> vm_start b = vm_start a \<and> vm_end b = vm_end a \<and>
        vm_mm b = vm_mm a \<and> vm_type b = vm_type a \<and> page_count b = page_count a \<and>
        map_option length (vma_pages b) = map_option length (vma_pages a)))"

lemma same_areas_refl [simp]: "same_areas s s" by (simp add: same_areas_def)

lemma same_areas_trans: "same_areas s t \<Longrightarrow> same_areas t u \<Longrightarrow> same_areas s u"
  unfolding same_areas_def by (intro conjI; (elim conjE)?) (simp, simp, simp, fastforce)

lemma same_areas_mmu [simp]:
  "same_areas s (t\<lparr>mmu_state := u\<rparr>) \<longleftrightarrow> same_areas s t" "same_areas s (t\<lparr>page_data := d\<rparr>) \<longleftrightarrow> same_areas s t"
  by (simp_all add: same_areas_def)

lemma area_ok_same:
  assumes "area_ok a" "vm_start b = vm_start a" "vm_end b = vm_end a" "page_count b = page_count a"
    "map_option length (vma_pages b) = map_option length (vma_pages a)"
  shows "area_ok b"
  using assms by (auto simp: area_ok_def split: option.splits)

lemma vm_inv_same_areas:
  assumes inv: "vm_inv s" and same: "same_areas s t"
  shows "vm_inv t"
proof -
  have eq: "mms t = mms s" "kmallocs t = kmallocs s" "dom (vmas t) = dom (vmas s)" using same by (auto simp: same_areas_def)
  have none: "vmas t v = None \<longleftrightarrow> vmas s v = None" for v using eq(3) by blast
  have some: "\<exists>b. vmas t v = Some b \<and> vm_start b = vm_start a \<and> vm_end b = vm_end a \<and> vm_mm b = vm_mm a \<and> area_ok b"
    if "vmas s v = Some a" "area_ok a" for v a
  proof -
    from same that(1) obtain b where "vmas t v = Some b" "vm_start b = vm_start a" "vm_end b = vm_end a"
      "vm_mm b = vm_mm a" "page_count b = page_count a" "map_option length (vma_pages b) = map_option length (vma_pages a)"
      unfolding same_areas_def by blast
    then show ?thesis using area_ok_same [OF that(2)] by blast
  qed
  have "mm_ok (vmas t) mm (vma_list m)" if "mms s mm = Some m" for mm m
  proof -
    have ok: "mm_ok (vmas s) mm (vma_list m)" using inv that by (simp add: vm_inv_def)
    have "\<exists>a b. vmas s v = Some a \<and> vmas t v = Some b \<and> vm_start b = vm_start a \<and> vm_end b = vm_end a \<and> vm_mm b = mm \<and> area_ok b"
      if "v \<in> set (vma_list m)" for v
      using ok that some unfolding mm_ok_def by metis
    then show ?thesis using ok unfolding mm_ok_def disjoint_areas_def by (metis option.sel)
  qed
  then show ?thesis using inv eq none by (simp add: vm_inv_def fresh_heap_def)
qed

lemma same_areas_put_vma:
  assumes "vmas s v = Some a" "vm_start b = vm_start a" "vm_end b = vm_end a" "vm_mm b = vm_mm a" "vm_type b = vm_type a"
    "page_count b = page_count a" "map_option length (vma_pages b) = map_option length (vma_pages a)"
  shows "same_areas s (put_vma v b s)"
  using assms by (auto simp: same_areas_def put_vma_def)

lemma same_areas_set_slot: "set_slot v i x s = Return t \<Longrightarrow> same_areas s t"
proof -
  assume "set_slot v i x s = Return t"
  then obtain a ps where a: "vmas s v = Some a" "vma_pages a = Some ps" "t = put_vma v (a\<lparr>vma_pages := Some (ps[nat i := x])\<rparr>) s"
    by (auto simp: set_slot_def bind_outcome_Return_iff split: option.splits if_splits)
  show ?thesis unfolding a(3) by (rule same_areas_put_vma [OF a(1)]) (simp_all add: a(2))
qed

lemma same_areas_vm_put_page: "vm_put_page p s = Return t \<Longrightarrow> same_areas s t"
  by (auto simp: vm_put_page_def bind_outcome_Return_iff)

lemma same_areas_unmap_slot: "unmap_slot klookup mm v i va s = Return t \<Longrightarrow> same_areas s t"
proof -
  assume "unmap_slot klookup mm v i va s = Return t"
  then consider "t = s" | u x s1 where "vm_put_page x (s\<lparr>mmu_state := u\<rparr>) = Return s1" "set_slot v i None s1 = Return t"
    by (auto simp: unmap_slot_def bind_outcome_Return_iff split: if_splits)
  then show ?thesis
  proof cases
    case 2
    have "same_areas s (s\<lparr>mmu_state := u\<rparr>)" by simp
    then show ?thesis using same_areas_vm_put_page [OF 2(1)] same_areas_set_slot [OF 2(2)] same_areas_trans by blast
  qed simp
qed

lemma same_areas_for_range:
  assumes "for_range lo hi f s = Return t" "\<And>i u v. f i u = Return v \<Longrightarrow> same_areas u v"
  shows "same_areas s t"
  by (rule for_range_inv [OF assms(1), of "same_areas s"]) (auto intro: same_areas_trans assms(2))

lemma same_areas_unmap_slots: "unmap_slots klookup mm first lim v a s = Return t \<Longrightarrow> same_areas s t"
  unfolding unmap_slots_def Let_def by (auto split: if_splits elim!: same_areas_for_range same_areas_unmap_slot)

lemma vm_inv_new_mm:
  assumes "vm_inv s" "mm \<noteq> NULL" "mms s mm = None" "mm \<notin> set (kmallocs s)" "vma_list m = []"
  shows "vm_inv (put_mm mm m s)"
  using assms by (auto simp: vm_inv_def fresh_heap_def put_mm_def mm_ok_def)

text \<open>Removing an area.\<close>

lemma unlink_vma_eq:
  "vmas s v = Some a \<Longrightarrow> mms s (vm_mm a) = Some m \<Longrightarrow>
   unlink_vma v s = Return (put_mm (vm_mm a) (m\<lparr>vma_list := remove1 v (vma_list m)\<rparr>) s)"
  by (simp add: unlink_vma_def get_vma_def get_mm_def)

lemma unmap_area_inv:
  assumes inv: "vm_inv s" and m: "mms s mm = Some m" and v: "v \<in> set (vma_list m)"
    and r: "unmap_area klookup mm first lim v s = Return t"
  shows "vm_inv t" "\<exists>m'. mms t mm = Some m' \<and> vma_list m' = remove1 v (vma_list m)"
    "\<And>w. w \<noteq> v \<Longrightarrow> w \<in> set (vma_list m) \<Longrightarrow> \<exists>b. vmas t w = Some b \<and> vm_start b = vm_start (area s w) \<and> vm_end b = vm_end (area s w)"
proof -
  let ?a = "area s v"
  have va: "vmas s v = Some ?a" "vm_mm ?a = mm" using vm_invD(4,5) [OF inv m v] .
  from r va(1) obtain s1 s2 where u: "unmap_slots klookup mm first lim v ?a s = Return s1" and s2: "unlink_vma v s1 = Return s2"
    and t: "bind_outcome (get_mm s2 mm) (\<lambda>m. Return (put_mm mm (m\<lparr>map_count := int32_of (map_count m - 1)\<rparr>) (kfree_vma v s2))) = Return t"
    unfolding unmap_area_def by (auto simp: bind_outcome_Return_iff)
  note s1 = same_areas_unmap_slots [OF u]
  have m1: "mms s1 mm = Some m" "vm_inv s1" using s1 m vm_inv_same_areas [OF inv s1] by (simp_all add: same_areas_def)
  from s1 va obtain b where b: "vmas s1 v = Some b" "vm_mm b = mm" by (fastforce simp: same_areas_def)
  have s2': "s2 = put_mm mm (m\<lparr>vma_list := remove1 v (vma_list m)\<rparr>) s1" using s2 unlink_vma_eq [OF b(1)] m1 b by simp
  let ?m = "m\<lparr>vma_list := remove1 v (vma_list m), map_count := int32_of (map_count m - 1)\<rparr>"
  have t': "t = kfree_vma v (put_mm (vm_mm b) ?m s1)"
    using t b(2) by (intro vm_state.equality) (auto simp: s2' get_mm_def put_mm_def kfree_vma_def)
  show "vm_inv t" unfolding t' by (rule vm_inv_remove [OF m1(2) b(1)]) (use b m1 in simp_all)
  show "\<exists>m'. mms t mm = Some m' \<and> vma_list m' = remove1 v (vma_list m)"
    unfolding t' using b by (simp add: kfree_vma_def put_mm_def)
  fix w assume w: "w \<noteq> v" "w \<in> set (vma_list m)"
  then have "vmas s w = Some (area s w)" using vm_invD(4) [OF inv m] by blast
  with s1 obtain c where "vmas s1 w = Some c" "vm_start c = vm_start (area s w)" "vm_end c = vm_end (area s w)"
    unfolding same_areas_def by blast
  then show "\<exists>b. vmas t w = Some b \<and> vm_start b = vm_start (area s w) \<and> vm_end b = vm_end (area s w)"
    using w unfolding t' by (simp add: kfree_vma_def put_mm_def)
qed

lemma unmap_areas_inv:
  assumes "vm_inv s" "mms s mm = Some m" "set vs \<subseteq> set (vma_list m)" "distinct vs" "unmap_areas klookup mm first lim vs s = Return t"
  shows "vm_inv t"
  using assms
proof (induction vs arbitrary: s m)
  case (Cons v vs)
  from Cons.prems have va: "vmas s v = Some (area s v)" "v \<in> set (vma_list m)" using vm_invD(4) [OF Cons.prems(1,2)] by auto
  consider "t = s" | "unmap_areas klookup mm first lim vs s = Return t"
    | s1 where "unmap_area klookup mm first lim v s = Return s1" "unmap_areas klookup mm first lim vs s1 = Return t"
    using Cons.prems(5) va by (auto simp: bind_outcome_Return_iff split: if_splits)
  then show ?case
  proof cases
    case 2
    then show ?thesis using Cons.IH [OF Cons.prems(1,2)] Cons.prems(3,4) by simp
  next
    case 3
    note u = unmap_area_inv [OF Cons.prems(1,2) va(2) 3(1)]
    from u(2) obtain m' where m': "mms s1 mm = Some m'" "vma_list m' = remove1 v (vma_list m)" by blast
    have "set vs \<subseteq> set (vma_list m')" using Cons.prems(3,4) vm_invD(2) [OF Cons.prems(1,2)] m'(2) by (auto simp: set_remove1_eq)
    then show ?thesis using Cons.IH [OF u(1) m'(1)] 3(2) Cons.prems(4) by simp
  qed (use Cons.prems in simp)
qed simp

text \<open>
  A split can not succeed: the new area would overlap the one it is taken from, which still has
  its old bounds.
\<close>

lemma setup_inside_fails:
  assumes inv: "vm_inv s" and m: "mms s mm = Some m" and v: "v \<in> set (vma_list m)"
    and x: "addr < vm_end (area s v)" "vm_start (area s v) < addr + len"
  obtains n where "vm_area_setup mm addr len type prot flags s = Return (NULL, s\<lparr>kmallocs := drop n (kmallocs s)\<rparr>)"
proof (rule vm_area_setup_cases [OF inv m, of addr len type prot flags], goal_cases)
  case (2 w n)
  then show ?case using v x by (auto simp: overlaps_def)
qed (use that in blast)

lemma split_first_eq:
  assumes inv: "vm_inv s" and m: "mms s mm = Some m" and v: "v \<in> set (vma_list m)" "vmas s v = Some a" "within first a"
  obtains "split_first mm v first s = Return (True, s)" "first = vm_start a"
  | n where "split_first mm v first s = Return (False, s\<lparr>kmallocs := drop n (kmallocs s)\<rparr>)" "vm_start a < first"
proof -
  have va: "get_vma s v = Return a" using v(2) by (simp add: get_vma_def)
  show ?thesis
  proof (cases "first > vm_start a")
    case True
    have "vm_start a < vm_start a + (first - vm_start a)" using True by simp
    moreover have "vm_start a < vm_end a" using v(3) by (auto simp: within_def)
    ultimately obtain n where "vm_area_setup mm (vm_start a) (first - vm_start a) (vm_type a) (vm_prot a) (vm_flags a) s =
        Return (NULL, s\<lparr>kmallocs := drop n (kmallocs s)\<rparr>)"
      using setup_inside_fails [OF inv m v(1)] v(2) by (metis option.sel)
    then show ?thesis using True by (intro that(2) [of n]) (simp_all add: split_first_def va del: get_vma_Return)
  next
    case False
    then show ?thesis using v(3) by (intro that(1)) (auto simp: split_first_def within_def va simp del: get_vma_Return)
  qed
qed

lemma split_last_eq:
  assumes inv: "vm_inv s" and m: "mms s mm = Some m"
  obtains "split_last mm lim s = Return (True, s)" "\<forall>v\<in>set (vma_list m). \<not> (vm_start (area s v) < lim \<and> lim < vm_end (area s v))"
  | n v where "split_last mm lim s = Return (False, s\<lparr>kmallocs := drop n (kmallocs s)\<rparr>)"
      "v \<in> set (vma_list m)" "vm_start (area s v) < lim" "lim < vm_end (area s v)"
proof (rule find_vma_cases [OF inv m, of lim])
  assume "find_vma s mm lim = Return NULL" "\<forall>v\<in>set (vma_list m). \<not> within lim (area s v)"
  then show ?thesis by (intro that(1)) (auto simp: split_last_def within_def)
next
  fix v
  assume v: "find_vma s mm lim = Return v" "v \<noteq> NULL" "v \<in> set (vma_list m)" "within lim (area s v)"
  define a where "a = area s v"
  have va: "get_vma s v = Return a" using vm_invD(4) [OF inv m v(3)] by (simp add: a_def)
  show ?thesis
  proof (cases "vm_start a < lim")
    case True
    then have lt: "lim < vm_end a" using v(4) by (simp add: within_def a_def)
    moreover have "vm_start a < lim + (vm_end a - lim)" using True lt by simp
    ultimately obtain n where "vm_area_setup mm lim (vm_end a - lim) (vm_type a) (vm_prot a) (vm_flags a) s =
        Return (NULL, s\<lparr>kmallocs := drop n (kmallocs s)\<rparr>)"
      using setup_inside_fails [OF inv m v(3)] unfolding a_def by metis
    then have "split_last mm lim s = Return (False, s\<lparr>kmallocs := drop n (kmallocs s)\<rparr>)"
      using True lt v(1,2) by (simp add: split_last_def va del: get_vma_Return)
    then show ?thesis using v(3) True lt unfolding a_def by (rule that(2))
  next
    case False
    have "\<not> (vm_start (area s w) < lim \<and> lim < vm_end (area s w))" if "w \<in> set (vma_list m)" for w
    proof (cases "w = v")
      case neq: False
      have "disjoint_areas (area s w) (area s v)" using vm_invD(7) [OF inv m that v(3) neq] .
      then show ?thesis using v(4) by (auto simp: disjoint_areas_def within_def)
    qed (use False in \<open>simp add: a_def\<close>)
    moreover have "split_last mm lim s = Return (True, s)"
      using False v(1,2) by (simp add: split_last_def va del: get_vma_Return)
    ultimately show ?thesis by (intro that(1)) blast+
  qed
qed

text \<open>All that \<^verbatim>\<open>do_unmap\<close> can do: nothing, with a result, or free the areas of the range.\<close>

lemma unmap_range_eq:
  assumes inv: "vm_inv s" and m: "mms s mm = Some m" and v: "v \<in> set (vma_list m)" "vmas s v = Some a" "within first a"
  obtains n where "unmap_range klookup mm v first lim s = Return (- ENOMEM, s\<lparr>kmallocs := drop n (kmallocs s)\<rparr>)"
      "vm_start a < first \<or> (\<exists>w\<in>set (vma_list m). vm_start (area s w) < lim \<and> lim < vm_end (area s w))"
  | "unmap_range klookup mm v first lim s = bind_outcome (unmap_areas klookup mm first lim (vma_list m) s) (\<lambda>s'. Return (0, s'))"
      "vm_start a = first" "\<not> (\<exists>w\<in>set (vma_list m). vm_start (area s w) < lim \<and> lim < vm_end (area s w))"
proof (rule split_first_eq [OF inv m v])
  assume f: "split_first mm v first s = Return (True, s)" "first = vm_start a"
  show ?thesis
  proof (rule split_last_eq [OF inv m, of lim])
    assume "split_last mm lim s = Return (True, s)" "\<forall>v\<in>set (vma_list m). \<not> (vm_start (area s v) < lim \<and> lim < vm_end (area s v))"
    then show ?thesis using f m by (intro that(2)) (simp_all add: unmap_range_def get_mm_def)
  next
    fix n w
    assume "split_last mm lim s = Return (False, s\<lparr>kmallocs := drop n (kmallocs s)\<rparr>)"
      "w \<in> set (vma_list m)" "vm_start (area s w) < lim" "lim < vm_end (area s w)"
    then show ?thesis using f by (intro that(1) [of n]) (auto simp: unmap_range_def)
  qed
next
  fix n assume "split_first mm v first s = Return (False, s\<lparr>kmallocs := drop n (kmallocs s)\<rparr>)" "vm_start a < first"
  then show ?thesis by (intro that(1) [of n]) (simp_all add: unmap_range_def)
qed

lemma do_unmap_inv:
  assumes inv: "vm_inv s" and r: "do_unmap klookup mm first len s = Return (ret, t)"
  shows "vm_inv t"
proof (cases "mms s mm")
  case None
  then show ?thesis using r inv by (auto simp: do_unmap_def Let_def find_vma_def get_mm_def split: if_splits)
next
  case (Some m)
  from r consider "t = s" | v a where "find_vma s mm first = Return v" "v \<noteq> NULL" "vmas s v = Some a"
      "unmap_range klookup mm v first (first + len) s = Return (ret, t)"
    unfolding do_unmap_def Let_def by (auto simp: bind_outcome_Return_iff split: if_splits)
  then show ?thesis
  proof cases
    case (2 v a)
    have v: "v \<in> set (vma_list m)" "within first a"
      using 2(1-3) by (cases rule: find_vma_cases [OF inv Some, of first]; simp)+
    show ?thesis
    proof (rule unmap_range_eq [OF inv Some v(1) 2(3) v(2), of klookup "first + len"], goal_cases)
      case (1 n)
      then show ?case using 2(4) vm_inv_drop [OF inv, of n] by simp
    next
      case 2
      have "bind_outcome (unmap_areas klookup mm first (first + len) (vma_list m) s) (\<lambda>s'. Return (0, s')) = Return (ret, t)"
        using 2(1) \<open>unmap_range _ _ _ _ _ _ = Return (ret, t)\<close> by simp
      then have "unmap_areas klookup mm first (first + len) (vma_list m) s = Return t" by (auto simp: bind_outcome_Return_iff)
      then show ?case by (rule unmap_areas_inv [OF inv Some order_refl vm_invD(2) [OF inv Some]])
    qed
  qed (use inv in simp)
qed

lemma populate_loop_inv:
  assumes "vm_inv s" "populate_loop klookup v va prot ks s = Return (ret, t)"
  shows "vm_inv t"
  using assms
proof (induction ks arbitrary: s)
  case (Cons k ks)
  from Cons.prems(2) obtain a x where a: "vmas s v = Some a" "get_slot s v (int k) = Return x"
    by (auto simp: bind_outcome_Return_iff)
  show ?case
  proof (cases "x = None")
    case False
    then show ?thesis using Cons.prems(2) a by (intro Cons.IH [OF Cons.prems(1)]) (simp add: get_vma_def)
  next
    case True
    obtain pg g where al: "alloc_page klookup (pages (mmu_state s)) = (pg, g)" by fastforce
    show ?thesis
    proof (cases pg)
      case None
      then obtain ret' where "do_unmap klookup (vm_mm a) va (of_nat (4096 * k)) (s\<lparr>mmu_state := (mmu_state s)\<lparr>pages := g\<rparr>\<rparr>) = Return (ret', t)"
        using Cons.prems(2) a True al by (auto simp: bind_outcome_Return_iff get_vma_def)
      then show ?thesis by (rule do_unmap_inv [rotated]) (use Cons.prems(1) in simp)
    next
      case (Some p)
      let ?s = "s\<lparr>mmu_state := (mmu_state s)\<lparr>pages := g\<rparr>, page_data := (page_data s)(p := replicate 4096 0)\<rparr>"
      from Cons.prems(2) a True al Some obtain s1 where s1: "set_slot v (int k) (Some p) ?s = Return s1"
        by (auto simp: bind_outcome_Return_iff get_vma_def)
      have "vm_inv ?s" using Cons.prems(1) by simp
      then have inv1: "vm_inv s1" by (rule vm_inv_same_areas [OF _ same_areas_set_slot [OF s1]])
      from Cons.prems(2) a True al Some s1 consider u where "populate_loop klookup v va prot ks (s1\<lparr>mmu_state := u\<rparr>) = Return (ret, t)"
        | u s2 ret' where "vm_put_page (Some p) (s1\<lparr>mmu_state := u\<rparr>) = Return s2"
          "do_unmap klookup (vm_mm a) va (of_nat (4096 * k)) s2 = Return (ret', t)"
        by (auto simp: bind_outcome_Return_iff get_vma_def split: if_splits)
      then show ?thesis
      proof cases
        case (1 u)
        then show ?thesis by (rule Cons.IH [rotated]) (use inv1 in simp)
      next
        case (2 u s2 ret')
        have "vm_inv s2" by (rule vm_inv_same_areas [OF _ same_areas_vm_put_page [OF 2(1)]]) (use inv1 in simp)
        then show ?thesis by (rule do_unmap_inv [OF _ 2(2)])
      qed
    qed
  qed
qed simp

lemma vm_inv_put_vma_flags:
  assumes "vm_inv s" "vmas s v = Some a"
  shows "vm_inv (put_vma v (a\<lparr>vm_prot := p, vm_flags := f\<rparr>) s)"
  by (rule vm_inv_same_areas [OF assms(1)]) (rule same_areas_put_vma [OF assms(2)]; simp)

lemma protect_loop_inv:
  assumes "vm_inv s" "protect_loop klookup mm m lim prot flags cur s = Return (ret, t)"
  shows "vm_inv t"
  using assms
proof (induction klookup mm m lim prot flags cur s rule: protect_loop.induct)
  case (1 klookup mm m lim prot flags cur s)
  show ?case
  proof (cases "t = s")
    case False
    with 1(3) obtain v a s1 where v: "cur < lim" "find_vma s mm cur = Return v" "v \<noteq> NULL" "vmas s v = Some a"
      "\<not> vm_start a \<ge> lim" "may_protect prot a" "protect_area klookup m cur lim prot flags v a s = Return s1"
      "protect_loop klookup mm m lim prot flags (vm_end a) s1 = Return (ret, t)"
      by (subst (asm) protect_loop.simps) (auto split: if_splits outcome.splits option.splits)
    have "vm_inv s1" using v(7) vm_inv_put_vma_flags [OF 1(2) v(4)]
      by (auto simp: protect_area_def Let_def bind_outcome_Return_iff)
    then show ?thesis using 1(1) [OF v(1-5) _ v(7)] v(6,8) by blast
  qed (use 1(2) in simp)
qed

text \<open>Growing the heap area up to the new break, when the space is free.\<close>

lemma vm_inv_grow:
  assumes inv: "vm_inv s" and m: "mms s mm = Some m" and v: "v \<in> set (vma_list m)" "vmas s v = Some a" "vm_end a = old"
    and no: "old < new" "\<not> overlaps s m old new"
    and b: "vm_start b = vm_start a" "vm_end b = new" "vm_mm b = vm_mm a" "- (2 ^ 31) \<le> page_count b"
      "case vma_pages b of None \<Rightarrow> page_count b \<le> 0 | Some ps \<Rightarrow> page_count b \<le> int (length ps)"
  shows "vm_inv (put_vma v b s)"
proof (rule vm_inv_put_vma [OF inv v(2)])
  have lt: "vm_start a < old" using vm_invD(6) [OF inv m v(1)] v by (simp add: area_ok_def)
  then show "area_ok b" using no(1) b by (auto simp: area_ok_def)
  fix n w
  assume n: "mms s (vm_mm a) = Some n" "v \<in> set (vma_list n)" "w \<in> set (vma_list n)" "w \<noteq> v"
  have "vm_mm a = mm" using vm_invD(5) [OF inv m v(1)] v(2) by simp
  with n m have w: "w \<in> set (vma_list m)" by simp
  have "disjoint_areas (area s w) (area s v)" using vm_invD(7) [OF inv m w v(1) n(4)] .
  moreover have "vm_start (area s w) < vm_end (area s w)" using vm_invD(6) [OF inv m w] by (simp add: area_ok_def)
  moreover have "\<not> (old < vm_end (area s w) \<and> vm_start (area s w) < new)" using no(2) w by (auto simp: overlaps_def)
  ultimately show "disjoint_areas b (area s w)" using b v(2,3) by (auto simp: disjoint_areas_def)
qed (use b in simp)

lemma int32_of_le: "0 \<le> i \<Longrightarrow> int32_of i \<le> i"
  by (simp add: int32_of_def signed_take_bit_int_less_eq_self_iff)

lemma extend_heap_cases:
  assumes a: "vmas s v = Some a" and r: "extend_heap v new s = Return (ok, t)"
  defines "n \<equiv> (new - vm_start a + PAGE_SIZE - 1) div PAGE_SIZE"
  obtains "t = s\<lparr>kmallocs := drop 1 (kmallocs s)\<rparr>" "\<not> ok"
  | "t = put_vma v (a\<lparr>vm_end := new\<rparr>) s" ok
  | qs where "t = put_vma v (a\<lparr>vm_end := new, vma_pages := Some qs, page_count := int32_of (uint n)\<rparr>) (s\<lparr>kmallocs := drop 1 (kmallocs s)\<rparr>)"
      "length qs = unat n" ok
  using a r unfolding extend_heap_def n_def
  by (auto simp: bind_outcome_Return_iff get_vma_def Let_def kmalloc_eq word_less_nat_alt split: if_splits option.splits)

lemma extend_heap_inv:
  assumes inv: "vm_inv s" and m: "mms s mm = Some m" and v: "v \<in> set (vma_list m)" "vmas s v = Some a" "vm_end a = old"
    and no: "old < new" "\<not> overlaps s m old new" and r: "extend_heap v new s = Return (ok, t)"
  shows "vm_inv t"
proof (rule extend_heap_cases [OF v(2) r])
  assume t: "t = put_vma v (a\<lparr>vm_end := new\<rparr>) s"
  have "- (2 ^ 31) \<le> page_count a" "case vma_pages a of None \<Rightarrow> page_count a \<le> 0 | Some ps \<Rightarrow> page_count a \<le> int (length ps)"
    using vm_invD(6) [OF inv m v(1)] v(2) by (simp_all add: area_ok_def)
  then show ?thesis unfolding t by (intro vm_inv_grow [OF inv m v no]) (simp_all split: option.splits)
next
  fix qs
  let ?n = "(new - vm_start a + PAGE_SIZE - 1) div PAGE_SIZE"
  assume t: "t = put_vma v (a\<lparr>vm_end := new, vma_pages := Some qs, page_count := int32_of (uint ?n)\<rparr>) (s\<lparr>kmallocs := drop 1 (kmallocs s)\<rparr>)"
    and q: "length qs = unat ?n"
  have "int32_of (uint ?n) \<le> int (length qs)" using int32_of_le [of "uint ?n"] q by simp
  then show ?thesis unfolding t using m v no int32_of_bounds(1) [of "uint ?n"]
    by (intro vm_inv_grow [OF vm_inv_drop [OF inv]]) simp_all
qed (use vm_inv_drop [OF inv] in simp)

lemma brk_expand_inv:
  assumes inv: "vm_inv s" and m: "mms s mm = Some m" and lt: "old < new" and r: "brk_expand mm old new s = Return (ok, t)"
  shows "vm_inv t"
proof (rule find_vma_intersection_cases [OF inv m lt])
  fix w assume "find_vma_intersection s mm old new = Return w" "w \<noteq> NULL"
  then show ?thesis using r inv by (simp add: brk_expand_def)
next
  assume no: "find_vma_intersection s mm old new = Return NULL" "\<not> overlaps s m old new"
  show ?thesis
  proof (rule find_vma_cases [OF inv m, of "old - 1"])
    assume "find_vma s mm (old - 1) = Return NULL"
    then show ?thesis using r no by (auto simp: brk_expand_def bind_outcome_Return_iff intro: vm_inv_setup [OF inv m])
  next
    fix v assume v: "find_vma s mm (old - 1) = Return v" "v \<noteq> NULL" "v \<in> set (vma_list m)"
    obtain a where a: "vmas s v = Some a" using vm_invD(4) [OF inv m v(3)] by blast
    show ?thesis
    proof (cases "vm_end a \<noteq> old \<or> vm_type a \<noteq> VMA_HEAP")
      case True
      then show ?thesis using r no v(1,2) a
        by (auto simp: brk_expand_def bind_outcome_Return_iff get_vma_def intro: vm_inv_setup [OF inv m])
    next
      case False
      then have "extend_heap v new s = Return (ok, t)" using r no v(1,2) a by (simp add: brk_expand_def get_vma_def)
      then show ?thesis using extend_heap_inv [OF inv m v(3) a _ lt no(2)] False by blast
    qed
  qed
qed

lemma brk_shrink_inv:
  assumes inv: "vm_inv s" and r: "brk_shrink klookup mm old new s = Return t"
  shows "vm_inv t"
proof -
  from r consider "t = s" | v a s1 b where "find_vma s mm new = Return v" "v \<noteq> NULL" "vmas s v = Some a" "vm_start a < new"
      "brk_unmap_pages klookup mm v a old new s = Return s1" "vmas s1 v = Some b" "t = put_vma v (b\<lparr>vm_end := new\<rparr>) s1"
    unfolding brk_shrink_def by (auto simp: bind_outcome_Return_iff split: if_splits)
  then show ?thesis
  proof cases
    case (2 v a s1 b)
    have same: "same_areas s s1" using 2(5) unfolding brk_unmap_pages_def Let_def
      by (rule same_areas_for_range) (auto split: if_splits elim: same_areas_unmap_slot)
    then have b: "vm_start b = vm_start a" "vm_end b = vm_end a" using 2(3,6) unfolding same_areas_def by fastforce+
    have "new < vm_end a" using find_vma_Return [OF 2(1,2)] 2(3) by auto
    obtain m where m: "mms s mm = Some m" using 2(1,2) by (auto simp: find_vma_def bind_outcome_Return_iff split: if_splits)
    have "v \<in> set (vma_list m)" using 2(1,2) by (cases rule: find_vma_cases [OF inv m, of new]; simp)
    moreover have inv1: "vm_inv s1" "mms s1 mm = Some m" using vm_inv_same_areas [OF inv same] same m by (simp_all add: same_areas_def)
    ultimately have "area_ok b" using vm_invD(6) [OF inv1] 2(6) by fastforce
    then have "area_ok (b\<lparr>vm_end := new\<rparr>)" using 2(4) b by (simp add: area_ok_def split: option.splits)
    then show ?thesis unfolding 2(7) using \<open>new < vm_end a\<close> b
      by (intro vm_inv_put_vma_inside [OF inv1(1) 2(6)]) simp_all
  qed (use inv in simp)
qed

lemma do_brk_inv:
  assumes inv: "vm_inv s" and r: "do_brk klookup mm new s = Return (ret, t)"
  shows "vm_inv t"
proof -
  let ?n = "ROUNDUP new PAGE_SIZE"
  have put: "vm_inv (put_mm mm (m\<lparr>brk := b\<rparr>) u)" if "vm_inv u" "mms u mm = Some m" for u m b
    by (rule vm_inv_put_mm [OF that]) simp
  from r have "t = s \<or>
     (\<exists>m ok s1. mms s mm = Some m \<and> brk m < ?n \<and> brk_expand mm (brk m) ?n s = Return (ok, s1) \<and>
        (t = s1 \<or> (\<exists>m1. mms s1 mm = Some m1 \<and> t = put_mm mm (m1\<lparr>brk := ?n\<rparr>) s1))) \<or>
     (\<exists>m s1 m1. mms s mm = Some m \<and> brk_shrink klookup mm (brk m) ?n s = Return s1 \<and> mms s1 mm = Some m1 \<and> t = put_mm mm (m1\<lparr>brk := ?n\<rparr>) s1)"
    unfolding do_brk_def Let_def by (auto simp: bind_outcome_Return_iff split: if_splits)
  then show ?thesis
  proof (elim disjE exE conjE)
    fix m ok s1
    assume "mms s mm = Some m" "brk m < ?n" "brk_expand mm (brk m) ?n s = Return (ok, s1)"
    then have inv1: "vm_inv s1" by (rule brk_expand_inv [OF inv])
    then show "vm_inv t" if "t = s1" using that by simp
    fix m1 assume "mms s1 mm = Some m1" "t = put_mm mm (m1\<lparr>brk := ?n\<rparr>) s1"
    then show "vm_inv t" using put [OF inv1] by simp
  next
    fix m s1 m1
    assume b: "brk_shrink klookup mm (brk m) ?n s = Return s1" "mms s1 mm = Some m1" "t = put_mm mm (m1\<lparr>brk := ?n\<rparr>) s1"
    show "vm_inv t" unfolding b(3) by (rule put [OF brk_shrink_inv [OF inv b(1)] b(2)])
  qed (use inv in simp)
qed

lemma user_alloc_mm_inv:
  assumes inv: "vm_inv s" and r: "user_alloc_mm s = Return (mm, t)"
  shows "vm_inv t"
proof -
  obtain p s1 pt s2 where k: "kmalloc s = (p, s1)" "kmalloc s1 = (pt, s2)" by fastforce
  have p: "p \<noteq> NULL" using r k by (auto simp: user_alloc_mm_def)
  then have p': "kmallocs s \<noteq> []" "p = hd (kmallocs s)" using k(1) by (auto simp: kmalloc_eq split: if_splits)
  have s2: "s2 = s\<lparr>kmallocs := drop 2 (kmallocs s)\<rparr>" using k by (auto simp: kmalloc_eq numeral_2_eq_2 drop_Suc)
  have fresh: "mms s p = None" "p \<notin> set (drop 2 (kmallocs s))"
    using inv p p' by (cases "kmallocs s"; auto simp: vm_inv_def fresh_heap_def numeral_2_eq_2 dest: in_set_dropD)+
  have new: "vm_inv (put_mm p m (s2\<lparr>mmu_state := u\<rparr>))" if "vma_list m = []" for m u
    unfolding s2 using vm_inv_drop [OF inv] p fresh that by (intro vm_inv_new_mm) simp_all
  show ?thesis
  proof (cases "pt = NULL")
    case True
    then have "t = put_mm p zero_mm (s2\<lparr>mmu_state := mmu_state s2\<rparr>)" using r k p by (simp add: user_alloc_mm_def)
    then show ?thesis using new [of zero_mm "mmu_state s2"] by (simp add: zero_mm_def)
  next
    case False
    let ?u = "(mmu_state s2)\<lparr>frames := (frames (mmu_state s2))(pt \<mapsto> replicate PT_ENTRIES 0)\<rparr>"
    let ?s = "put_mm p (user_mm pt) (s2\<lparr>mmu_state := ?u\<rparr>)"
    from False r k p obtain v where
      "vm_area_setup p (0x80000000 - PAGE_SIZE) PAGE_SIZE VMA_STACK (PROT_READ OR PROT_WRITE) VM_USERSTACK ?s = Return (v, t)"
      unfolding user_alloc_mm_def by (auto simp only: k prod.case if_False bind_outcome_Return_iff split: if_splits)
    moreover have "vm_inv ?s" by (rule new) (simp add: user_mm_def zero_mm_def)
    moreover have "mms ?s p = Some (user_mm pt)" by (simp add: put_mm_def)
    ultimately show ?thesis using vm_inv_setup by blast
  qed
qed

lemma free_areas_Cons: "free_areas (v # vs) s = Fault"
proof (cases "free_vma v s")
  case (Return t)
  then have "vmas t v = None" by (auto simp: free_vma_def bind_outcome_Return_iff kfree_vma_def)
  then show ?thesis using Return by (simp add: get_vma_def)
qed simp

lemma vm_inv_del_mm: "vm_inv s \<Longrightarrow> vm_inv (s\<lparr>mms := (mms s)(mm := None)\<rparr>)"
  by (auto simp: vm_inv_def fresh_heap_def)

lemma free_mm_cases:
  assumes "mms s mm = Some m" "mm \<noteq> NULL"
  defines "t \<equiv> put_mm mm (m\<lparr>mm_count := int32_of (mm_count m - 1)\<rparr>) s"
  shows "free_mm klookup mm s =
    (if int32_of (mm_count m - 1) \<noteq> 0 then Return t
     else if vma_list m \<noteq> [] then Fault
     else bind_outcome (if pagetable m = NULL then Return (mmu_state t) else free_pagetable klookup (pagetable m) (mmu_state t))
            (\<lambda>u. Return (t\<lparr>mmu_state := u, mms := (mms t)(mm := None)\<rparr>)))"
  using assms(1,2) unfolding t_def
  by (cases "vma_list m") (simp_all add: free_mm_def Let_def get_mm_def free_areas_Cons del: free_areas.simps(2))

lemma free_mm_inv:
  assumes inv: "vm_inv s" and r: "free_mm klookup mm s = Return t"
  shows "vm_inv t"
proof (cases "mm = NULL")
  case False
  then obtain m where m: "mms s mm = Some m" using r by (auto simp: free_mm_def bind_outcome_Return_iff)
  define s1 where "s1 = put_mm mm (m\<lparr>mm_count := int32_of (mm_count m - 1)\<rparr>) s"
  have inv1: "vm_inv s1" unfolding s1_def by (rule vm_inv_put_mm [OF inv m]) simp
  have "t = s1 \<or> (\<exists>u. t = s1\<lparr>mmu_state := u, mms := (mms s1)(mm := None)\<rparr>)"
    using r unfolding free_mm_cases [OF m False, folded s1_def]
    by (simp only: bind_outcome_Return_iff split: if_split_asm) blast+
  then show ?thesis using inv1 vm_inv_del_mm [of "s1\<lparr>mmu_state := _\<rparr>" mm] by auto
qed (use r inv in \<open>simp add: free_mm_def\<close>)

section \<open>Reachable states\<close>

text \<open>
  The states the operations can reach. The allocator may answer anything that is fresh at the
  time; a state that is reached is one in which no operation has faulted.
\<close>

inductive vm_reach :: "(u64 \<Rightarrow> u64) \<Rightarrow> vm_state \<Rightarrow> bool" for klookup where
  start: "mms s = Map.empty \<Longrightarrow> vmas s = Map.empty \<Longrightarrow> fresh_heap s \<Longrightarrow> vm_reach klookup s"
| memory: "vm_reach klookup s \<Longrightarrow> fresh_heap (s\<lparr>kmallocs := ks\<rparr>) \<Longrightarrow> vm_reach klookup (s\<lparr>kmallocs := ks\<rparr>)"
| init_mm: "vm_reach klookup s \<Longrightarrow> init_mm \<noteq> NULL \<Longrightarrow> mms s init_mm = None \<Longrightarrow> init_mm \<notin> set (kmallocs s) \<Longrightarrow>
    vm_reach klookup (create_init_mm init_mm pt s)"
| alloc: "vm_reach klookup s \<Longrightarrow> user_alloc_mm s = Return (mm, t) \<Longrightarrow> vm_reach klookup t"
| mapped: "vm_reach klookup s \<Longrightarrow> mms s mm = Some m \<Longrightarrow> vm_area_setup mm addr len type prot flags s = Return (v, t) \<Longrightarrow> vm_reach klookup t"
| populate: "vm_reach klookup s \<Longrightarrow> populate_vma klookup v va len prot s = Return (ret, t) \<Longrightarrow> vm_reach klookup t"
| unmap: "vm_reach klookup s \<Longrightarrow> do_unmap klookup mm first len s = Return (ret, t) \<Longrightarrow> vm_reach klookup t"
| brk: "vm_reach klookup s \<Longrightarrow> do_brk klookup mm new s = Return (b, t) \<Longrightarrow> vm_reach klookup t"
| protect: "vm_reach klookup s \<Longrightarrow> do_protect klookup mm first len prot s = Return (ret, t) \<Longrightarrow> vm_reach klookup t"
| free: "vm_reach klookup s \<Longrightarrow> free_mm klookup mm s = Return t \<Longrightarrow> vm_reach klookup t"

lemma vm_reach_inv: "vm_reach klookup s \<Longrightarrow> vm_inv s"
proof (induction rule: vm_reach.induct)
  case (start s)
  then show ?case by (simp add: vm_inv_def)
next
  case (memory s ks)
  then show ?case by (auto simp: vm_inv_def)
next
  case (init_mm s init_mm pt)
  then show ?case unfolding create_init_mm_def by (intro vm_inv_new_mm) (simp_all add: zero_mm_def)
next
  case (protect s mm first len prot ret t)
  then show ?case by (auto simp: do_protect_def Let_def bind_outcome_Return_iff split: if_splits elim: protect_loop_inv)
qed (auto simp: populate_vma_def elim: user_alloc_mm_inv vm_inv_setup populate_loop_inv do_unmap_inv do_brk_inv free_mm_inv)

lemma find_vma_unique:
  assumes inv: "vm_inv s" and m: "mms s mm = Some m" and v: "v \<in> set (vma_list m)" "within addr (area s v)"
  shows "find_vma s mm addr = Return v"
proof (rule find_vma_cases [OF inv m, of addr])
  fix w
  assume w: "find_vma s mm addr = Return w" "w \<in> set (vma_list m)" "within addr (area s w)"
  have "v = w"
  proof (rule ccontr)
    assume "v \<noteq> w"
    from vm_invD(7) [OF inv m v(1) w(2) this] v(2) w(3) show False by (auto simp: disjoint_areas_def within_def)
  qed
  then show ?thesis using w by simp
qed (use v in auto)

section \<open>Correctness\<close>

text \<open>
  C2. In every state the operations reach, the areas of an address space are not empty and
  pairwise disjoint, and \<^verbatim>\<open>find_vma\<close> returns an area exactly when it is the one that contains the
  address.
\<close>

theorem vm_reach_disjoint:
  assumes "vm_reach klookup s" "mms s mm = Some m"
  shows "distinct (vma_list m) \<and>
    (\<forall>v\<in>set (vma_list m). vm_start (area s v) < vm_end (area s v)) \<and>
    (\<forall>v\<in>set (vma_list m). \<forall>w\<in>set (vma_list m). v \<noteq> w \<longrightarrow> disjoint_areas (area s v) (area s w)) \<and>
    (\<forall>addr v. v \<noteq> NULL \<longrightarrow> (find_vma s mm addr = Return v \<longleftrightarrow> v \<in> set (vma_list m) \<and> within addr (area s v)))"
proof (intro conjI ballI impI allI)
  note inv = vm_reach_inv [OF assms(1)] and d = vm_invD [OF vm_reach_inv [OF assms(1)] assms(2)]
  show "distinct (vma_list m)" by (rule d)
  show "vm_start (area s v) < vm_end (area s v)" if "v \<in> set (vma_list m)" for v using d(6) [OF that] by (simp add: area_ok_def)
  show "disjoint_areas (area s v) (area s w)" if "v \<in> set (vma_list m)" "w \<in> set (vma_list m)" "v \<noteq> w" for v w by (rule d(7) [OF that])
  fix addr v
  assume nn: "v \<noteq> NULL"
  show "find_vma s mm addr = Return v \<longleftrightarrow> v \<in> set (vma_list m) \<and> within addr (area s v)"
    by (rule find_vma_cases [OF inv assms(2), of addr]) (use nn find_vma_unique [OF inv assms(2), of v addr] in auto)
qed

lemma demo_vm_reach: "vm_reach klookup (create_init_mm 0x1000 0x80201000 (demo_vm\<lparr>mms := Map.empty\<rparr>))"
  by (rule vm_reach.init_mm [OF vm_reach.start]) (simp_all add: demo_vm_def fresh_heap_def)

theorem vm_reach_disjoint_witness:
  "\<exists>v s m. vm_reach id s \<and> mms s 0x1000 = Some m \<and> vma_list m = [v] \<and> v \<noteq> NULL \<and> find_vma s 0x1000 0x11234 = Return v"
proof -
  let ?s = "create_init_mm 0x1000 0x80201000 (demo_vm\<lparr>mms := Map.empty\<rparr>)"
  obtain m where m: "mms ?s 0x1000 = Some m" "vma_list m = []" by (simp add: create_init_mm_def put_mm_def zero_mm_def)
  note inv = vm_reach_inv [OF demo_vm_reach [of id]]
  show ?thesis
  proof (rule vm_area_setup_cases [OF inv m(1), of "0x10000" "0x3000" VMA_DATA 3 VM_USER], goal_cases)
    case (1 n)
    have "kmalloc_ok 2 ?s" by (simp add: kmalloc_ok_def create_init_mm_def put_mm_def demo_vm_def)
    then show ?case using 1(2) m(2) by (simp add: overlaps_def)
  next
    case (2 v n)
    let ?a = "new_area 0x1000 0x10000 (0x10000 + 0x3000) VMA_DATA 3 VM_USER"
    let ?t = "inserted 0x1000 m v ?a (?s\<lparr>kmallocs := drop n (kmallocs ?s)\<rparr>)"
    have r: "vm_reach id ?t" by (rule vm_reach.mapped [OF demo_vm_reach m(1) 2(1)])
    obtain m' where m': "mms ?t 0x1000 = Some m'" "vma_list m' = [v]" using m(2) by (simp add: inserted_def put_mm_def)
    have "area ?t v = ?a" by (simp add: inserted_def put_mm_def put_vma_def)
    then have "find_vma ?t 0x1000 0x11234 = Return v"
      using vm_reach_disjoint [OF r m'(1)] 2(2) m'(2) by (simp add: within_def)
    then show ?case using r m' 2(2) by blast
  qed
qed



lemma extend_heap_ok:
  assumes ok: "area_ok a" and a: "vmas s v = Some a" and k: "kmalloc_ok 1 s"
  obtains t where "extend_heap v new s = Return (True, t)"
proof -
  let ?o = "word_of_int (page_count a) :: u64" and ?n = "(new - vm_start a + PAGE_SIZE - 1) div PAGE_SIZE"
  have "unat (new - vm_start a + PAGE_SIZE - 1) < 2 ^ LENGTH(64)" by (rule unsigned_less)
  then have n: "unat ?n < 2 ^ 52" by (simp add: unat_div less_mult_imp_div_less)
  have len: "unat ?o \<le> length ps" if lt: "?o < ?n" and ps: "vma_pages a = Some ps" for ps
  proof (cases "page_count a < 0")
    case True
    have "uint ?o = page_count a + 2 ^ 64"
      using True ok mod_add_self2 [of "page_count a" "2 ^ 64"] mod_pos_pos_trivial [of "page_count a + 2 ^ 64" "2 ^ 64"]
      by (simp add: uint_word_of_int_eq take_bit_eq_mod area_ok_def)
    then have "2 ^ 63 \<le> uint ?o" using ok by (simp add: area_ok_def)
    then have "2 ^ 63 \<le> unat ?o" by (simp add: nat_le_iff flip: nat_uint_eq)
    then show ?thesis using lt n by (simp add: word_less_nat_alt)
  next
    case False
    have "uint ?o \<le> page_count a" using False by (simp add: uint_word_of_int_eq take_bit_int_less_eq_self_iff)
    then have "uint ?o \<le> int (length ps)" using ok ps by (simp add: area_ok_def)
    then show ?thesis by (simp add: nat_le_iff flip: nat_uint_eq)
  qed
  have "kmalloc s = (hd (kmallocs s), s\<lparr>kmallocs := drop 1 (kmallocs s)\<rparr>)" "hd (kmallocs s) \<noteq> NULL"
    using k by (cases "kmallocs s"; simp add: kmalloc_eq kmalloc_ok_def)+
  then have km: "(case kmalloc s of (p, s1) \<Rightarrow> if p = NULL then f p s1 else g p s1) = g (hd (kmallocs s)) (s\<lparr>kmallocs := drop 1 (kmallocs s)\<rparr>)"
    for f g :: "ptr \<Rightarrow> vm_state \<Rightarrow> (bool \<times> vm_state) outcome" by simp
  show ?thesis
  proof (cases "?o < ?n")
    case True
    then show ?thesis using a len that unfolding extend_heap_def Let_def km
      by (cases "vma_pages a") (auto simp: get_vma_def)
  next
    case False
    then show ?thesis using a that unfolding extend_heap_def Let_def by (simp add: get_vma_def)
  qed
qed

lemma find_first_cong_pred:
  "(\<And>w. w \<in> set l \<Longrightarrow> map_option P (vmas t w) = map_option P (vmas s w)) \<Longrightarrow> find_first P t l = find_first P s l"
proof (induction l)
  case (Cons a l)
  have "map_option P (vmas t a) = map_option P (vmas s a)" using Cons.prems by simp
  then show ?case using Cons by (cases "vmas s a"; cases "vmas t a") (simp_all add: get_vma_def)
qed simp

lemma find_vma_put_mm:
  "mms s mm = Some m \<Longrightarrow> vma_list m' = vma_list m \<Longrightarrow> find_vma (put_mm mm m' s) p x = find_vma s p x"
proof -
  assume m: "mms s mm = Some m" "vma_list m' = vma_list m"
  have "find_first P (put_mm mm m' s) l = find_first P s l" for P l by (rule find_first_cong) (simp add: put_mm_def)
  then show ?thesis using m by (auto simp: find_vma_def get_mm_def put_mm_def split: option.split)
qed

lemma find_vma_grown:
  assumes a: "vmas s v = Some a" and b: "vm_start b = vm_start a" "vm_end a \<le> vm_end b"
    and x: "\<not> (p = mm \<and> vm_end a \<le> x \<and> x < vm_end b)" and v: "\<And>q n. mms s q = Some n \<Longrightarrow> v \<in> set (vma_list n) \<Longrightarrow> q = mm"
  shows "find_vma (put_vma v b (s\<lparr>kmallocs := ks\<rparr>)) p x = find_vma s p x"
proof (cases "p = NULL \<or> mms s p = None")
  case False
  then obtain m where m: "mms s p = Some m" by auto
  let ?P = "\<lambda>a. x \<ge> vm_start a \<and> x < vm_end a"
  have "?P b \<longleftrightarrow> ?P a" if "p = mm" using that x b by auto
  then have "find_first ?P (put_vma v b (s\<lparr>kmallocs := ks\<rparr>)) (vma_list m) = find_first ?P s (vma_list m)"
    using a v [OF m] by (intro find_first_cong_pred) (auto simp: put_vma_def)
  then show ?thesis using False m by (simp add: find_vma_def get_mm_def put_vma_def)
qed (auto simp: find_vma_def get_mm_def put_vma_def)

definition heap_grown :: "vm_state \<Rightarrow> ptr \<Rightarrow> u64 \<Rightarrow> u64 \<Rightarrow> vm_state \<Rightarrow> bool" where
  "heap_grown s mm old new t \<longleftrightarrow> (\<exists>m. mms t mm = Some m) \<and> vm_inv t \<and>
     (\<forall>x. old \<le> x \<and> x < new \<longrightarrow> (\<exists>v. find_vma t mm x = Return v \<and> v \<noteq> NULL \<and> vm_type (area t v) = VMA_HEAP)) \<and>
     (\<forall>p x. \<not> (p = mm \<and> old \<le> x \<and> x < new) \<longrightarrow> find_vma t p x = find_vma s p x)"

lemma extend_heap_grown:
  assumes inv: "vm_inv s" and m: "mms s mm = Some m" and v: "v \<in> set (vma_list m)" "vmas s v = Some a" "vm_end a = old" "vm_type a = VMA_HEAP"
    and no: "old < new" "\<not> overlaps s m old new" and r: "extend_heap v new s = Return (True, t)"
  shows "heap_grown s mm old new t"
proof -
  have "\<exists>b ks. t = put_vma v b (s\<lparr>kmallocs := ks\<rparr>) \<and> vm_start b = vm_start a \<and> vm_end b = new \<and> vm_type b = VMA_HEAP"
  proof (rule extend_heap_cases [OF v(2) r])
    assume "t = put_vma v (a\<lparr>vm_end := new\<rparr>) s"
    then show ?thesis using v(4) by (intro exI [of _ "a\<lparr>vm_end := new\<rparr>"] exI [of _ "kmallocs s"]) simp
  qed (use v(4) in auto)
  then obtain b ks where t: "t = put_vma v b (s\<lparr>kmallocs := ks\<rparr>)" and b: "vm_start b = vm_start a" "vm_end b = new" "vm_type b = VMA_HEAP"
    by blast
  have inv': "vm_inv t" by (rule extend_heap_inv [OF inv m v(1-3) no r])
  have mt: "mms t mm = Some m" "vmas t v = Some b" using m by (simp_all add: t put_vma_def)
  have "vm_start a < old" using vm_invD(6) [OF inv m v(1)] v(2,3) by (simp add: area_ok_def)
  then have "find_vma t mm x = Return v" if "old \<le> x" "x < new" for x
    using that b mt(2) by (intro find_vma_unique [OF inv' mt(1) v(1)]) (auto simp: within_def)
  moreover have "v \<noteq> NULL" using vm_invD(3) [OF inv m] v(1) by blast
  moreover have "find_vma t p x = find_vma s p x" if "\<not> (p = mm \<and> old \<le> x \<and> x < new)" for p x
  proof -
    have only: "q = mm" if "mms s q = Some n" "v \<in> set (vma_list n)" for q n
      using vm_invD(5) [OF inv that(1,2)] vm_invD(5) [OF inv m v(1)] by simp
    show ?thesis unfolding t by (rule find_vma_grown [OF v(2), where mm = mm]) (use b no(1) v(3) that only in auto)
  qed
  ultimately show ?thesis using inv' mt b(3) by (auto simp: heap_grown_def)
qed

lemma setup_heap_grown:
  assumes inv: "vm_inv s" and m: "mms s mm = Some m" and k: "kmalloc_ok 2 s" and no: "old < new" "\<not> overlaps s m old new"
  obtains v t where "vm_area_setup mm old (new - old) VMA_HEAP prot flags s = Return (v, t)" "v \<noteq> NULL" "heap_grown s mm old new t"
proof (rule vm_area_setup_cases [OF inv m, of old "new - old" VMA_HEAP prot flags])
  fix v n
  let ?a = "new_area mm old (old + (new - old)) VMA_HEAP prot flags"
  let ?t = "inserted mm m v ?a (s\<lparr>kmallocs := drop n (kmallocs s)\<rparr>)"
  assume v: "vm_area_setup mm old (new - old) VMA_HEAP prot flags s = Return (v, ?t)" "v \<noteq> NULL" "vmas s v = None"
  have "area ?t v = ?a" "mms ?t mm \<noteq> None" by (simp_all add: inserted_def put_mm_def put_vma_def)
  moreover have "find_vma ?t p x = (if p = mm \<and> old \<le> x \<and> x < new then Return v else find_vma s p x)" for p x
    using find_vma_inserted [OF inv m v(3), of ?a _ p x] by (simp add: within_def)
  ultimately have "heap_grown s mm old new ?t" using v(2) vm_inv_setup [OF inv m v(1)] by (simp add: heap_grown_def)
  then show ?thesis using v that by blast
qed (use k no in simp)

lemma brk_expand_grows:
  assumes inv: "vm_inv s" and m: "mms s mm = Some m" and k: "kmalloc_ok 2 s" and lt: "old < n"
  shows "if overlaps s m old n then brk_expand mm old n s = Return (False, s)
    else \<exists>t. brk_expand mm old n s = Return (True, t) \<and> heap_grown s mm old n t"
proof (rule find_vma_intersection_cases [OF inv m lt])
  fix v assume "find_vma_intersection s mm old n = Return v" "v \<noteq> NULL" "overlaps s m old n"
  then show ?thesis by (simp add: brk_expand_def)
next
  assume i: "find_vma_intersection s mm old n = Return NULL" and no: "\<not> overlaps s m old n"
  from setup_heap_grown [OF inv m k lt no] obtain w t where
    set: "vm_area_setup mm (old) (n - old) VMA_HEAP (PROT_READ OR PROT_WRITE) (VM_GROWSUP OR VM_PRIVATE OR VM_USER) s = Return (w, t)"
      "w \<noteq> NULL" "heap_grown s mm (old) n t" by metis
  show ?thesis
  proof (rule find_vma_cases [OF inv m, of "old - 1"])
    assume "find_vma s mm (old - 1) = Return NULL"
    then show ?thesis using no i set by (simp add: brk_expand_def)
  next
    fix v assume v: "find_vma s mm (old - 1) = Return v" "v \<noteq> NULL" "v \<in> set (vma_list m)"
    obtain a where a: "vmas s v = Some a" "area_ok a" using vm_invD(4,6) [OF inv m v(3)] by fastforce
    show ?thesis
    proof (cases "vm_end a \<noteq> old \<or> vm_type a \<noteq> VMA_HEAP")
      case True
      then show ?thesis using no i set v(1,2) a(1) by (simp add: brk_expand_def get_vma_def)
    next
      case False
      have "kmalloc_ok 1 s" using k by (cases "kmallocs s") (auto simp: kmalloc_ok_def)
      from extend_heap_ok [OF a(2,1) this] obtain t where t: "extend_heap v n s = Return (True, t)" .
      then have "heap_grown s mm (old) n t" using extend_heap_grown [OF inv m v(3) a(1) _ _ lt no t] False by simp
      then show ?thesis using no t False i v(1,2) a(1) by (simp add: brk_expand_def get_vma_def)
    qed
  qed
qed



text \<open>The search for a free range.\<close>

lemma find_free_loop_ends:
  assumes inv: "vm_inv s" and m: "mms s mm = Some m" and top: "\<forall>v\<in>set (vma_list m). unat (vm_end (area s v)) \<le> T"
    and T: "T + 8192 + unat len < 2 ^ 64" and len: "len \<noteq> 0" and addr: "unat addr \<le> T + 8192"
  shows "\<exists>r. find_free_loop s mm len addr = Some (Return r) \<and> \<not> overlaps s m r (r + len) \<and> addr \<le> r \<and> (r = addr \<or> unat r mod 4096 = 0)"
  using addr
proof (induction "T + 8192 - unat addr" arbitrary: addr rule: less_induct)
  case less
  have no_wrap: "unat (x + y) = unat x + unat y" if "unat x + unat y < 2 ^ 64" for x y :: u64
    using that by (simp add: unat_word_ariths(1))
  have "unat addr + unat len < 2 ^ 64" using less.prems T by linarith
  then have sum: "unat (addr + len) = unat addr + unat len" by (rule no_wrap)
  have "0 < unat len" using len unat_gt_0 [of len] by simp
  then have lt: "addr < addr + len" using sum by (simp add: word_less_nat_alt)
  show ?case
  proof (rule find_vma_intersection_cases [OF inv m lt])
    assume "find_vma_intersection s mm addr (addr + len) = Return NULL" "\<not> overlaps s m addr (addr + len)"
    then show ?thesis by (subst find_free_loop.simps) simp
  next
    fix v assume v: "find_vma_intersection s mm addr (addr + len) = Return v" "v \<noteq> NULL" "overlaps s m addr (addr + len)"
    then obtain w where "w \<in> set (vma_list m)" "addr < vm_end (area s w)" unfolding overlaps_def by blast
    then have low: "unat addr < T" using top by (simp add: word_less_nat_alt) fastforce
    let ?a = "ROUNDUP (addr + PAGE_SIZE) PAGE_SIZE"
    have "unat addr + unat PAGE_SIZE < 2 ^ 64" using low T by simp
    then have "unat (addr + PAGE_SIZE) = unat addr + 4096" using no_wrap [of addr PAGE_SIZE] by simp
    then have ua: "unat ?a = (unat addr + 8191) div 4096 * 4096"
      using unat_ROUNDUP [of "addr + PAGE_SIZE"] low T by simp
    have "(unat addr + 8191) div 4096 * 4096 + (unat addr + 8191) mod 4096 = unat addr + 8191" by (rule div_mult_mod_eq)
    moreover have "(unat addr + 8191) mod 4096 < 4096" by (rule mod_less_divisor) simp
    ultimately have bounds: "unat addr < unat ?a" "unat ?a \<le> T + 8192" unfolding ua using low by linarith+
    have "\<exists>r. find_free_loop s mm len ?a = Some (Return r) \<and> \<not> overlaps s m r (r + len) \<and> ?a \<le> r \<and> (r = ?a \<or> unat r mod 4096 = 0)"
      by (rule less.hyps) (use bounds less.prems in linarith)+
    then obtain r where r: "find_free_loop s mm len ?a = Some (Return r)" "\<not> overlaps s m r (r + len)" "?a \<le> r" "r = ?a \<or> unat r mod 4096 = 0"
      by (elim exE conjE)
    have "unat r mod 4096 = 0" using r(4) ua by auto
    moreover have "addr \<le> r" using bounds(1) r(3) by (simp add: word_le_nat_alt)
    moreover have "find_free_loop s mm len addr = Some (Return r)" using v(1,2) r(1) by (subst find_free_loop.simps) simp
    ultimately show ?thesis using r(2) by (intro exI [of _ r] conjI disjI2)
  qed
qed

text \<open>
  C27. \<^verbatim>\<open>find_free_area\<close> ends when the areas and the break lie below the top of the 64 bit space by the
  size of the range and two pages: it returns the break itself or a page aligned address above it
  from which a range of the given size meets no area.
\<close>

theorem find_free_area_ends:
  assumes inv: "vm_inv s" and m: "mms s mm = Some m" and top: "\<forall>v\<in>set (vma_list m). unat (vm_end (area s v)) \<le> T" "unat (brk m) \<le> T"
    and T: "T + 8192 + unat len < 2 ^ 64" and len: "len \<noteq> 0"
  shows "\<exists>r. find_free_area s mm len = Some (Return r) \<and> \<not> overlaps s m r (r + len) \<and> brk m \<le> r \<and> (r = brk m \<or> unat r mod 4096 = 0)"
  using find_free_loop_ends [OF inv m top(1) T len, of "brk m"] top(2) m by (simp add: find_free_area_def get_mm_def)

theorem find_free_area_ends_witness:
  "\<exists>r. find_free_area demo_vm 0x1000 0x3000 = Some (Return r) \<and> \<not> overlaps demo_vm demo_mm r (r + 0x3000)"
  using find_free_area_ends [OF demo_vm_inv(1,2), of "0x400000" "0x3000"] by (simp add: demo_mm_def) blast

end
