(* ===== verification/Uaccess.thy ===== *)
theory Uaccess
  imports Mmap
begin

text \<open>
  Access to user memory: \<^verbatim>\<open>mm_copy_to_user\<close> and \<^verbatim>\<open>mm_copy_from_user\<close> of \<^verbatim>\<open>kernel/mm/mm_struct.c\<close> and the
  functions of \<^verbatim>\<open>kernel/mm/uaccess.c\<close>. The address space of the current process is an argument,
  \<^verbatim>\<open>NULL\<close> when there is no process or it has none. A kernel buffer that is read is the list of its
  bytes, \<open>None\<close> for a \<^verbatim>\<open>NULL\<close> pointer; for one that is written only its address is an argument, and
  the bytes are a result. \<^verbatim>\<open>memcpy\<close> from or to a page faults when it leaves the page.
\<close>

section \<open>Copying from user memory\<close>

lemma unat_add_rest:
  fixes c n len :: u64
  assumes "n \<le> len - c" "c \<le> len"
  shows "unat (c + n) = unat c + unat n" "unat c + unat n \<le> unat len"
proof -
  have "unat n \<le> unat len - unat c" using assms by (simp add: word_le_nat_alt unat_sub)
  then show le: "unat c + unat n \<le> unat len" using assms(2) by (simp add: word_le_nat_alt)
  have "unat len < 2 ^ LENGTH(64)" by (rule unsigned_less)
  then show "unat (c + n) = unat c + unat n" using le by (simp add: unat_word_ariths(1))
qed

text \<open>
  One round of the loop of \<^verbatim>\<open>mm_copy_from_user\<close> at address \<open>x\<close> with \<open>rest\<close> bytes to go: the number of
  bytes in the page and the bytes, or \<open>None\<close> when the loop gives up.
\<close>

definition copy_from_step :: "vm_state \<Rightarrow> ptr \<Rightarrow> u64 \<Rightarrow> u64 \<Rightarrow> (u64 \<times> u8 list) option outcome" where
  "copy_from_step s mm x rest =
     bind_outcome (find_vma s mm x)
       (\<lambda>v. if v = NULL then Return None
            else bind_outcome (get_vma s v)
              (\<lambda>a. if vm_prot a AND PROT_READ = 0 then Return None
                   else let page_offset = x mod PAGE_SIZE;
                            page_bytes = if PAGE_SIZE - page_offset < rest then PAGE_SIZE - page_offset else rest;
                            page_va = ROUNDDOWN x PAGE_SIZE;
                            page_idx = int32_of (uint ((page_va - vm_start a) div PAGE_SIZE)) in
                     if page_idx < 0 \<or> page_idx \<ge> page_count a then Return None
                     else bind_outcome (get_slot s v page_idx)
                       (\<lambda>p. case p of
                          None \<Rightarrow> Return None
                        | Some i \<Rightarrow>
                            if paddr (page_pool (pages (mmu_state s)) ! i) = NULL then Fault
                            else Return (Some (page_bytes, take (unat page_bytes) (drop (unat page_offset) (page_data s i)))))))"

lemma copy_from_step_size:
  assumes "copy_from_step s mm x rest = Return (Some (n, bs))" "rest \<noteq> 0"
  shows "n \<noteq> 0" "n \<le> rest"
proof -
  have lt: "x mod PAGE_SIZE < PAGE_SIZE" by (simp add: word_mod_less_divisor)
  have "n = PAGE_SIZE - x mod PAGE_SIZE \<and> n < rest \<or> n = rest" using assms(1)
    by (auto simp: copy_from_step_def Let_def bind_outcome_Return_iff split: if_splits option.splits)
  then show "n \<noteq> 0" "n \<le> rest" using lt assms(2) by auto
qed

function copy_from_loop :: "vm_state \<Rightarrow> ptr \<Rightarrow> u64 \<Rightarrow> u64 \<Rightarrow> u64 \<Rightarrow> u8 list \<Rightarrow> (int \<times> u8 list) outcome" where
  "copy_from_loop s mm src len copied acc =
     (if copied < len then
        (case copy_from_step s mm (src + copied) (len - copied) of
           Fault \<Rightarrow> Fault
         | Return None \<Rightarrow> Return (if copied > 0 then int64_of (uint copied) else - 1, acc)
         | Return (Some (n, bs)) \<Rightarrow> copy_from_loop s mm src len (copied + n) (acc @ bs))
      else Return (int64_of (uint copied), acc))"
  by pat_completeness auto
termination
proof (relation "measure (\<lambda>(s, mm, src, len, copied, acc). unat len - unat copied)", goal_cases)
  case (2 s mm src len copied acc st pr n bs)
  then have "n \<noteq> 0" "n \<le> len - copied" using copy_from_step_size [of s mm "src + copied" "len - copied" n bs] by auto
  then have "unat (copied + n) = unat copied + unat n" "unat copied + unat n \<le> unat len" "unat n \<noteq> 0"
    using unat_add_rest [of n len copied] 2(1) by (simp_all add: unat_eq_0)
  then show ?case using 2(1) by (simp add: word_less_nat_alt)
qed simp

declare copy_from_loop.simps [simp del]

definition mm_copy_from_user :: "ptr \<Rightarrow> ptr \<Rightarrow> u64 \<Rightarrow> u64 \<Rightarrow> vm_state \<Rightarrow> (int \<times> u8 list) outcome" where
  "mm_copy_from_user mm dst src len s =
     (if mm = NULL \<or> dst = NULL \<or> src = NULL \<or> len = 0 then Return (- EINVAL, [])
      else copy_from_loop s mm src len 0 [])"

section \<open>Copying to user memory\<close>

text \<open>
  One round of the loop of \<^verbatim>\<open>mm_copy_to_user\<close>; the offset is computed with \<^verbatim>\<open>|\<close>. A missing page is
  populated, with the first entry of the page array (see \<^verbatim>\<open>populate_vma\<close>).
\<close>

definition copy_to_step :: "(u64 \<Rightarrow> u64) \<Rightarrow> ptr \<Rightarrow> u64 \<Rightarrow> u64 \<Rightarrow> u8 list \<Rightarrow> vm_state \<Rightarrow> (u64 option \<times> vm_state) outcome" where
  "copy_to_step klookup mm x rest bytes s =
     bind_outcome (find_vma s mm x)
       (\<lambda>v. if v = NULL then Return (None, s)
            else bind_outcome (get_vma s v)
              (\<lambda>a. if vm_prot a AND PROT_WRITE = 0 then Return (None, s)
                   else let page_offset = x OR (PAGE_SIZE - 1);
                            page_bytes = if PAGE_SIZE - page_offset < rest then PAGE_SIZE - page_offset else rest;
                            page_va = ROUNDDOWN x PAGE_SIZE;
                            page_idx = int32_of (uint ((page_va - vm_start a) div PAGE_SIZE)) in
                     if page_idx < 0 \<or> page_idx \<ge> page_count a then Return (None, s)
                     else bind_outcome (get_slot s v page_idx)
                       (\<lambda>p. bind_outcome
                          (if p = None then bind_outcome (populate_vma klookup v page_va PAGE_SIZE (vm_prot a) s) (\<lambda>(ret, s1). Return s1)
                           else Return s)
                          (\<lambda>s1. bind_outcome (get_slot s1 v page_idx)
                            (\<lambda>q. case q of
                               None \<Rightarrow> Fault
                             | Some i \<Rightarrow>
                                 if paddr (page_pool (pages (mmu_state s1)) ! i) = NULL \<or> unat page_offset + unat page_bytes > 4096 then Fault
                                 else let d = page_data s1 i; o1 = unat page_offset; n = unat page_bytes in
                                   Return (Some page_bytes,
                                     s1\<lparr>page_data := (page_data s1)(i := take o1 d @ take n bytes @ drop (o1 + n) d)\<rparr>))))))"

lemma copy_to_step_size:
  assumes "copy_to_step klookup mm x rest bytes s = Return (Some n, t)" "rest \<noteq> 0"
  shows "n \<noteq> 0" "n \<le> rest"
proof -
  have "odd (x OR 0xFFF)" by (simp add: even_or_iff)
  then have ne: "x OR 0xFFF \<noteq> 0x1000" by auto
  have "n = PAGE_SIZE - (x OR (PAGE_SIZE - 1)) \<and> n < rest \<or> n = rest" using assms(1)
    by (auto simp: copy_to_step_def Let_def bind_outcome_Return_iff split: if_splits option.splits)
  then show "n \<noteq> 0" "n \<le> rest" using ne assms(2) by auto
qed

function copy_to_loop :: "(u64 \<Rightarrow> u64) \<Rightarrow> ptr \<Rightarrow> u64 \<Rightarrow> u64 \<Rightarrow> u8 list \<Rightarrow> u64 \<Rightarrow> vm_state \<Rightarrow> (int \<times> vm_state) outcome" where
  "copy_to_loop klookup mm dst len bytes copied s =
     (if copied < len then
        (case copy_to_step klookup mm (dst + copied) (len - copied) (drop (unat copied) bytes) s of
           Fault \<Rightarrow> Fault
         | Return (None, t) \<Rightarrow> Return (if copied > 0 then int64_of (uint copied) else - EFAULT, t)
         | Return (Some n, t) \<Rightarrow> copy_to_loop klookup mm dst len bytes (copied + n) t)
      else Return (int64_of (uint copied), s))"
  by pat_completeness auto
termination
proof (relation "measure (\<lambda>(klookup, mm, dst, len, bytes, copied, s). unat len - unat copied)", goal_cases)
  case (2 klookup mm dst len bytes copied s r on t n)
  then have "n \<noteq> 0" "n \<le> len - copied" using copy_to_step_size [of klookup mm "dst + copied" "len - copied" _ s n t] by auto
  then have "unat (copied + n) = unat copied + unat n" "unat copied + unat n \<le> unat len" "unat n \<noteq> 0"
    using unat_add_rest [of n len copied] 2(1) by (simp_all add: unat_eq_0)
  then show ?case using 2(1) by (simp add: word_less_nat_alt)
qed simp

declare copy_to_loop.simps [simp del]

definition mm_copy_to_user :: "(u64 \<Rightarrow> u64) \<Rightarrow> ptr \<Rightarrow> u64 \<Rightarrow> u8 list option \<Rightarrow> u64 \<Rightarrow> vm_state \<Rightarrow> (int \<times> vm_state) outcome" where
  "mm_copy_to_user klookup mm dst src len s =
     (case src of
        None \<Rightarrow> Return (- EINVAL, s)
      | Some bytes \<Rightarrow>
          if mm = NULL \<or> dst = NULL \<or> len = 0 then Return (- EINVAL, s)
          else copy_to_loop klookup mm dst len bytes 0 s)"

section \<open>The functions of \<^verbatim>\<open>uaccess.c\<close>\<close>

definition copy_to_user :: "(u64 \<Rightarrow> u64) \<Rightarrow> ptr \<Rightarrow> u64 \<Rightarrow> u8 list option \<Rightarrow> u64 \<Rightarrow> vm_state \<Rightarrow> (u64 \<times> vm_state) outcome" where
  "copy_to_user klookup mm to src n s =
     (if mm = NULL then Return (n, s)
      else bind_outcome (mm_copy_to_user klookup mm to src n s)
        (\<lambda>(ret, t). if ret < 0 then Return (n, t) else Return (n - word_of_int ret, t)))"

definition copy_from_user :: "ptr \<Rightarrow> ptr \<Rightarrow> u64 \<Rightarrow> u64 \<Rightarrow> vm_state \<Rightarrow> (u64 \<times> u8 list) outcome" where
  "copy_from_user mm to src n s =
     (if mm = NULL then Return (n, [])
      else bind_outcome (mm_copy_from_user mm to src n s)
        (\<lambda>(ret, bs). if ret < 0 then Return (n, bs) else Return (n - word_of_int ret, bs)))"

text \<open>\<^verbatim>\<open>strlen_user\<close>, with the address of the variable \<^verbatim>\<open>c\<close>. The loop ends after 4097 rounds.\<close>

function strlen_loop :: "vm_state \<Rightarrow> ptr \<Rightarrow> ptr \<Rightarrow> u64 \<Rightarrow> nat \<Rightarrow> int outcome" where
  "strlen_loop s mm c str res =
     (if 4096 < res then Return 0
      else (case copy_from_user mm c (str + of_nat res) 1 s of
         Fault \<Rightarrow> Fault
       | Return (r, bs) \<Rightarrow>
           if r \<noteq> 0 then Return 0
           else if bs = [0] then Return (int res + 1)
           else strlen_loop s mm c str (Suc res)))"
  by pat_completeness auto
termination by (relation "measure (\<lambda>(s, mm, c, str, res). 4097 - res)") auto

declare strlen_loop.simps [simp del]

definition strlen_user :: "ptr \<Rightarrow> ptr \<Rightarrow> u64 \<Rightarrow> vm_state \<Rightarrow> int outcome" where
  "strlen_user mm c str s = strlen_loop s mm c str 0"

text \<open>\<^verbatim>\<open>user_to_kernel_str\<close>: \<open>None\<close> for \<^verbatim>\<open>NULL\<close>. It copies one byte more than the length with the zero.\<close>

definition user_to_kernel_str :: "ptr \<Rightarrow> ptr \<Rightarrow> u64 \<Rightarrow> vm_state \<Rightarrow> (u8 list option \<times> vm_state) outcome" where
  "user_to_kernel_str mm c user_ptr s =
     bind_outcome (strlen_user mm c user_ptr s)
       (\<lambda>l. let len = int32_of l in
            if len \<le> 0 then Return (None, s)
            else (case kmalloc s of
               (kernel_ptr, s1) \<Rightarrow>
                 if kernel_ptr = NULL then Return (None, s1)
                 else bind_outcome (copy_from_user mm kernel_ptr user_ptr (word_of_int (len + 1)) s1)
                   (\<lambda>(r, bs). if r \<noteq> 0 then Return (None, s1) else Return (Some (bs[nat len := 0]), s1))))"

text \<open>\<^verbatim>\<open>strncpy_from_user\<close>: the result and the bytes written to \<^verbatim>\<open>dst\<close>, for the address of \<^verbatim>\<open>tmp\<close>.\<close>

function strncpy_loop :: "vm_state \<Rightarrow> ptr \<Rightarrow> ptr \<Rightarrow> ptr \<Rightarrow> u64 \<Rightarrow> int \<Rightarrow> int \<Rightarrow> u8 list \<Rightarrow> (int \<times> u8 list) outcome" where
  "strncpy_loop s mm tmp dst src count res acc =
     (if res < count - 1 then
        (case copy_from_user mm (dst + word_of_int res) (src + word_of_int res) 1 s of
           Fault \<Rightarrow> Fault
         | Return (r, bs) \<Rightarrow>
             if r \<noteq> 0 then Return (- EFAULT, acc)
             else if bs = [0] then Return (res, acc @ bs)
             else strncpy_loop s mm tmp dst src count (res + 1) (acc @ bs))
      else (case copy_from_user mm tmp (src + word_of_int res) 1 s of
         Fault \<Rightarrow> Fault
       | Return (r, bs) \<Rightarrow>
           if r \<noteq> 0 then Return (- EFAULT, acc @ [0])
           else if bs \<noteq> [0] then Return (- ENAMETOOLONG, acc @ [0])
           else Return (res, acc @ [0])))"
  by pat_completeness auto
termination by (relation "measure (\<lambda>(s, mm, tmp, dst, src, count, res, acc). nat (count - res))") auto

declare strncpy_loop.simps [simp del]

definition strncpy_from_user :: "ptr \<Rightarrow> ptr \<Rightarrow> ptr \<Rightarrow> u64 \<Rightarrow> int \<Rightarrow> vm_state \<Rightarrow> (int \<times> u8 list) outcome" where
  "strncpy_from_user mm tmp dst src count s =
     (if count \<le> 0 then Return (0, []) else strncpy_loop s mm tmp dst src count 0 [])"

text \<open>\<^verbatim>\<open>clear_user\<close> writes 64 zeros at a time.\<close>

function clear_user :: "(u64 \<Rightarrow> u64) \<Rightarrow> ptr \<Rightarrow> u64 \<Rightarrow> u64 \<Rightarrow> vm_state \<Rightarrow> (u64 \<times> vm_state) outcome" where
  "clear_user klookup mm to n s =
     (if n = 0 then Return (0, s)
      else let chunk = if n > 64 then 64 else n in
        (case copy_to_user klookup mm to (Some (replicate 64 0)) chunk s of
           Fault \<Rightarrow> Fault
         | Return (ret, t) \<Rightarrow> if ret \<noteq> 0 then Return (n, t) else clear_user klookup mm (to + chunk) (n - chunk) t))"
  by pat_completeness auto
termination
proof (relation "measure (\<lambda>(klookup, mm, to, n, s). unat n)", goal_cases)
  case (2 klookup mm to n s chunk x ret t)
  have "chunk \<noteq> 0" "chunk \<le> n" using 2(1,2) by auto
  then have "unat (n - chunk) = unat n - unat chunk" "0 < unat chunk" "unat chunk \<le> unat n"
    by (simp_all add: unat_sub unat_gt_0 word_le_nat_alt)
  then show ?case by simp
qed simp

declare clear_user.simps [simp del]

definition access_ok :: "ptr \<Rightarrow> u64 \<Rightarrow> u64 \<Rightarrow> int" where
  "access_ok mm addr sz = (if mm = NULL then 1 else 0)"

section \<open>What user memory holds\<close>

text \<open>
  The byte at a user address that the kernel may read: its area is readable and its page is
  present. The areas are page aligned and smaller than \<open>2\<^sup>43\<close> bytes, so that the index of a page
  fits in an \<^verbatim>\<open>int32\<close>, and pages have an address and 4096 bytes.
\<close>

definition user_byte :: "vm_state \<Rightarrow> mm_struct \<Rightarrow> u64 \<Rightarrow> u8 option" where
  "user_byte s m x =
     (case find (\<lambda>v. within x (area s v)) (vma_list m) of
        None \<Rightarrow> None
      | Some v \<Rightarrow>
          let a = area s v; i = (unat x - unat (vm_start a)) div 4096 in
          if vm_prot a AND PROT_READ \<noteq> 0 \<and> int i < page_count a
          then map_option (\<lambda>p. page_data s p ! (unat x mod 4096)) (the (vma_pages a) ! i) else None)"

definition user_mem_ok :: "vm_state \<Rightarrow> mm_struct \<Rightarrow> bool" where
  "user_mem_ok s m \<longleftrightarrow> (\<forall>p. length (page_data s p) = 4096) \<and>
     (\<forall>v\<in>set (vma_list m). unat (vm_start (area s v)) mod 4096 = 0 \<and> unat (vm_end (area s v)) mod 4096 = 0 \<and>
        unat (vm_end (area s v)) - unat (vm_start (area s v)) \<le> 2 ^ 43 \<and>
        (\<forall>ps p. vma_pages (area s v) = Some ps \<longrightarrow> Some p \<in> set ps \<longrightarrow> paddr (page_pool (pages (mmu_state s)) ! p) \<noteq> NULL))"

lemma aligned_within:
  assumes "n mod 4096 = 0" "(x :: nat) < n" "y div 4096 = x div 4096"
  shows "y < n"
proof -
  obtain k where k: "n = 4096 * k" using assms(1) by (auto elim: dvdE)
  then have "x div 4096 < k" using assms(2) by (simp add: less_mult_imp_div_less mult.commute)
  then have "y div 4096 < k" using assms(3) by simp
  then have "y < k * 4096" by (simp add: div_less_iff_less_mult)
  then show ?thesis using k by simp
qed

lemma aligned_from:
  assumes "n mod 4096 = 0" "n \<le> (x :: nat)" "y div 4096 = x div 4096"
  shows "n \<le> y" "(y - n) div 4096 = (x - n) div 4096"
proof -
  obtain k where k: "n = 4096 * k" using assms(1) by (auto elim: dvdE)
  have "k \<le> x div 4096" using assms(2) k by (simp add: less_eq_div_iff_mult_less_eq mult.commute)
  then show y: "n \<le> y" using assms(3) k by (metis div_times_less_eq_dividend le_trans mult.commute mult_le_mono2)
  have "z div 4096 = k + (z - n) div 4096" if "n \<le> z" for z
    using that div_mult_self2 [of 4096 "z - n" k] by (simp add: k)
  from this [OF y] this [OF assms(2)] show "(y - n) div 4096 = (x - n) div 4096" using assms(3) by simp
qed

lemma find_within:
  assumes inv: "vm_inv s" and m: "mms s mm = Some m" and v: "v \<in> set (vma_list m)" "within x (area s v)"
  shows "find (\<lambda>v. within x (area s v)) (vma_list m) = Some v"
proof -
  obtain w where w: "find (\<lambda>v. within x (area s v)) (vma_list m) = Some w" using v by (fastforce simp: find_None_iff)
  then have "w \<in> set (vma_list m)" "within x (area s w)" by (auto simp: find_Some_iff)
  then show ?thesis using w find_vma_unique [OF inv m v] find_vma_unique [OF inv m, of w x] by simp
qed

text \<open>The page of an address: the index that the code computes, and the addresses of the same page.\<close>

lemma page_idx_eq:
  assumes "vm_start a \<le> x" "x < vm_end a" "unat (vm_start a) mod 4096 = 0" "unat (vm_end a) - unat (vm_start a) \<le> 2 ^ 43"
  shows "int32_of (uint ((ROUNDDOWN x PAGE_SIZE - vm_start a) div PAGE_SIZE)) = int ((unat x - unat (vm_start a)) div 4096)"
proof -
  let ?i = "(unat x - unat (vm_start a)) div 4096"
  have le: "unat (vm_start a) \<le> unat x" "unat x < unat (vm_end a)" using assms(1,2) by (simp_all add: word_le_nat_alt word_less_nat_alt)
  have "(unat x div 4096 * 4096) div 4096 = unat x div 4096" by simp
  note f = aligned_from [OF assms(3) le(1) this]
  then have "vm_start a \<le> ROUNDDOWN x PAGE_SIZE" by (simp add: word_le_nat_alt unat_ROUNDDOWN)
  then have "unat ((ROUNDDOWN x PAGE_SIZE - vm_start a) div PAGE_SIZE) = ?i" using f(2) by (simp add: unat_div unat_sub unat_ROUNDDOWN)
  then have "int (unat ((ROUNDDOWN x PAGE_SIZE - vm_start a) div PAGE_SIZE)) = int ?i" by (rule arg_cong)
  then have u: "uint ((ROUNDDOWN x PAGE_SIZE - vm_start a) div PAGE_SIZE) = int ?i" by (simp only: of_nat_unat)
  have "unat x - unat (vm_start a) < 2 ^ 31 * 4096" using assms(4) le by simp
  then have "?i < 2 ^ 31" by (rule less_mult_imp_div_less)
  moreover have "int32_of (int k) = int k" if "k < 2 ^ 31" for k using that by (intro int32_of_id) simp_all
  ultimately show ?thesis unfolding u by blast
qed

lemma same_page:
  assumes "unat x mod 4096 + j < 4096"
  shows "unat (x + of_nat j :: u64) = unat x + j" "unat (x + of_nat j :: u64) div 4096 = unat x div 4096"
    "unat (x + of_nat j :: u64) mod 4096 = unat x mod 4096 + j"
proof -
  define q r where "q = unat x div 4096" and "r = unat x mod 4096"
  have e: "unat x = q * 4096 + r" unfolding q_def r_def by (rule div_mult_mod_eq [symmetric])
  have "unat x < 2 ^ LENGTH(64)" by (rule unsigned_less)
  then have "q < 0x10000000000000" unfolding q_def by (simp add: less_mult_imp_div_less)
  moreover have rj: "r + j < 4096" using assms by (simp add: r_def)
  ultimately have "unat x + j < 0x10000000000000000" "j < 0x10000000000000000" using e by linarith+
  then show s: "unat (x + of_nat j :: u64) = unat x + j" by (simp add: unat_word_ariths(1) unat_of_nat)
  have eq: "unat x + j = q * 4096 + (r + j)" using e by linarith
  have "(q * 4096 + (r + j)) div 4096 = q" "(q * 4096 + (r + j)) mod 4096 = r + j" using rj by simp_all
  then show "unat (x + of_nat j :: u64) div 4096 = unat x div 4096" "unat (x + of_nat j :: u64) mod 4096 = unat x mod 4096 + j"
    unfolding s eq by (simp_all only: q_def r_def)
qed

lemma same_page_within:
  assumes "within x a" "unat (vm_start a) mod 4096 = 0" "unat (vm_end a) mod 4096 = 0" "unat y div 4096 = unat x div 4096"
  shows "within y a" "(unat y - unat (vm_start a)) div 4096 = (unat x - unat (vm_start a)) div 4096"
  using assms(1) aligned_from [OF assms(2) _ assms(4)] aligned_within [OF assms(3) _ assms(4)]
  by (simp_all add: within_def word_le_nat_alt word_less_nat_alt)

text \<open>A round of the loop on an address: it gives up exactly when the byte there is not readable.\<close>

lemma copy_from_step_eq:
  fixes rest
  assumes inv: "vm_inv s" and m: "mms s mm = Some m" and ok: "user_mem_ok s m"
    and v: "v \<in> set (vma_list m)" "vmas s v = Some a" "within x a"
  defines "i \<equiv> (unat x - unat (vm_start a)) div 4096" and "n \<equiv> if PAGE_SIZE - x mod PAGE_SIZE < rest then PAGE_SIZE - x mod PAGE_SIZE else rest"
  shows "copy_from_step s mm x rest =
    (if vm_prot a AND PROT_READ \<noteq> 0 \<and> int i < page_count a
     then Return (map_option (\<lambda>p. (n, take (unat n) (drop (unat (x mod PAGE_SIZE)) (page_data s p)))) (the (vma_pages a) ! i))
     else Return None)"
proof -
  have a: "area s v = a" using v(2) by simp
  have al: "unat (vm_start a) mod 4096 = 0" "unat (vm_end a) - unat (vm_start a) \<le> 2 ^ 43"
    "\<And>ps p. vma_pages a = Some ps \<Longrightarrow> Some p \<in> set ps \<Longrightarrow> paddr (page_pool (pages (mmu_state s)) ! p) \<noteq> NULL"
    using ok v(1) unfolding user_mem_ok_def a [symmetric] by auto
  have idx: "int32_of (uint ((ROUNDDOWN x PAGE_SIZE - vm_start a) div PAGE_SIZE)) = int i"
    unfolding i_def using v(3) al by (intro page_idx_eq) (simp_all add: within_def)
  have fv: "find_vma s mm x = Return v" "v \<noteq> NULL"
    using find_vma_unique [OF inv m v(1)] v(1,3) a vm_invD(3) [OF inv m] by auto
  have gv: "get_vma s v = Return a" using v(2) by simp
  show ?thesis
  proof (cases "vm_prot a AND PROT_READ \<noteq> 0 \<and> int i < page_count a")
    case False
    then show ?thesis unfolding copy_from_step_def fv(1) bind_outcome.simps gv Let_def idx using fv(2) by auto
  next
    case True
    obtain ps where ps: "vma_pages a = Some ps" "page_count a \<le> int (length ps)"
      using vm_invD(6) [OF inv m v(1)] a True by (auto simp: area_ok_def split: option.splits)
    then have slot: "get_slot s v (int i) = Return (ps ! i)" using True by (simp add: get_slot_def gv del: get_vma_Return)
    have "paddr (page_pool (pages (mmu_state s)) ! p) \<noteq> NULL" if "ps ! i = Some p" for p
    proof -
      have "i < length ps" using True ps(2) by linarith
      then show ?thesis using al(3) [OF ps(1), of p] that nth_mem [of i ps] by simp
    qed
    then show ?thesis unfolding copy_from_step_def fv(1) bind_outcome.simps gv Let_def idx slot n_def
      using fv(2) True ps(1) by (auto split: option.splits)
  qed
qed

lemma user_byte_eq:
  assumes "vm_inv s" "mms s mm = Some m" "v \<in> set (vma_list m)" "vmas s v = Some a" "within x a"
  shows "user_byte s m x =
    (if vm_prot a AND PROT_READ \<noteq> 0 \<and> int ((unat x - unat (vm_start a)) div 4096) < page_count a
     then map_option (\<lambda>p. page_data s p ! (unat x mod 4096)) (the (vma_pages a) ! ((unat x - unat (vm_start a)) div 4096)) else None)"
  using find_within [OF assms(1-3), of x] assms(4,5) by (simp add: user_byte_def Let_def)

lemma copy_from_step_ok:
  assumes inv: "vm_inv s" and m: "mms s mm = Some m" and ok: "user_mem_ok s m" and rest: "rest \<noteq> 0"
  shows "case user_byte s m x of None \<Rightarrow> copy_from_step s mm x rest = Return None
    | Some b \<Rightarrow> \<exists>n bs. copy_from_step s mm x rest = Return (Some (n, bs)) \<and> n \<noteq> 0 \<and> n \<le> rest \<and> length bs = unat n \<and>
        (\<forall>j<unat n. user_byte s m (x + of_nat j) = Some (bs ! j))"
proof (rule find_vma_cases [OF inv m, of x])
  assume no: "find_vma s mm x = Return NULL" "\<forall>v\<in>set (vma_list m). \<not> within x (area s v)"
  then have "find (\<lambda>v. within x (area s v)) (vma_list m) = None" by (auto simp: find_None_iff)
  then have "user_byte s m x = None" by (simp add: user_byte_def)
  then show ?thesis using no by (simp add: copy_from_step_def)
next
  fix v
  assume v: "v \<in> set (vma_list m)" "within x (area s v)"
  obtain a where a: "vmas s v = Some a" "area s v = a" using vm_invD(4) [OF inv m v(1)] by simp
  have w: "within x a" using v(2) a(2) by simp
  have al: "unat (vm_start a) mod 4096 = 0" "unat (vm_end a) mod 4096 = 0" using ok v(1) a(2) by (auto simp: user_mem_ok_def)
  define i n where "i = (unat x - unat (vm_start a)) div 4096"
    and "n = (if PAGE_SIZE - x mod PAGE_SIZE < rest then PAGE_SIZE - x mod PAGE_SIZE else rest)"
  note step = copy_from_step_eq [OF inv m ok v(1) a(1) w, of rest, folded i_def n_def]
  have off: "unat (x mod PAGE_SIZE) = unat x mod 4096" by (simp add: unat_mod)
  have "unat (PAGE_SIZE - x mod PAGE_SIZE) = 4096 - unat x mod 4096"
    using word_mod_less_divisor [of PAGE_SIZE x] by (simp add: unat_sub off)
  then have n: "unat x mod 4096 + unat n \<le> 4096" by (auto simp: n_def word_less_nat_alt)
  show ?thesis
  proof (cases "vm_prot a AND PROT_READ \<noteq> 0 \<and> int i < page_count a")
    case False
    then show ?thesis using step user_byte_eq [OF inv m v(1) a(1) w, folded i_def] by auto
  next
    case True
    show ?thesis
    proof (cases "the (vma_pages a) ! i")
      case None
      then show ?thesis using True step user_byte_eq [OF inv m v(1) a(1) w, folded i_def] by auto
    next
      case (Some p)
      define bs where "bs = take (unat n) (drop (unat x mod 4096) (page_data s p))"
      have st: "copy_from_step s mm x rest = Return (Some (n, bs))" using True step Some by (simp add: bs_def off)
      have len: "length (page_data s p) = 4096" using ok by (simp add: user_mem_ok_def)
      have "user_byte s m (x + of_nat j) = Some (bs ! j)" if "j < unat n" for j
      proof -
        have j: "unat x mod 4096 + j < 4096" using n that by linarith
        note sp = same_page [OF j]
        note w' = same_page_within [OF w al sp(2)]
        show ?thesis using user_byte_eq [OF inv m v(1) a(1) w'(1)] True Some that j len
          unfolding w'(2) i_def [symmetric] sp(3) bs_def by simp
      qed
      moreover have "length bs = unat n" using n len by (simp add: bs_def)
      moreover have "user_byte s m x \<noteq> None" using True Some user_byte_eq [OF inv m v(1) a(1) w, folded i_def] by simp
      ultimately show ?thesis using st copy_from_step_size [OF st rest] by auto
    qed
  qed
qed

lemma copy_from_loop_ok:
  assumes inv: "vm_inv s" and m: "mms s mm = Some m" and ok: "user_mem_ok s m" and le: "copied \<le> len"
  shows "\<exists>bs. copy_from_loop s mm src len copied acc =
      Return (if unat copied + length bs = 0 \<and> len \<noteq> 0 then - 1 else int64_of (int (unat copied + length bs)), acc @ bs) \<and>
    unat copied + length bs \<le> unat len \<and> (\<forall>i<length bs. user_byte s m (src + copied + of_nat i) = Some (bs ! i)) \<and>
    (unat copied + length bs = unat len \<or> user_byte s m (src + copied + of_nat (length bs)) = None)"
  using le
proof (induction "unat len - unat copied" arbitrary: copied acc rule: less_induct)
  case less
  show ?case
  proof (cases "copied < len")
    case False
    then have "copied = len" using less.prems by simp
    then show ?thesis by (intro exI [of _ "[]"]) (auto simp: copy_from_loop.simps unat_eq_0)
  next
    case True
    then have rest: "len - copied \<noteq> 0" "len \<noteq> 0" by auto
    note step = copy_from_step_ok [OF inv m ok rest(1), of "src + copied"]
    show ?thesis
    proof (cases "user_byte s m (src + copied)")
      case None
      moreover have "unat copied \<le> unat len" "(0 < copied) = (unat copied \<noteq> 0)"
        using less.prems by (simp_all add: word_le_nat_alt word_less_nat_alt)
      ultimately show ?thesis using True step rest(2)
        by (intro exI [of _ "[]"]) (simp add: copy_from_loop.simps [of s mm src len copied])
    next
      case (Some b)
      then obtain n bs where st: "copy_from_step s mm (src + copied) (len - copied) = Return (Some (n, bs))" "n \<noteq> 0" "n \<le> len - copied"
        "length bs = unat n" "\<forall>j<unat n. user_byte s m (src + copied + of_nat j) = Some (bs ! j)" using step by auto
      note add = unat_add_rest [OF st(3) less.prems]
      have "0 < unat n" using st(2) by (simp add: unat_gt_0)
      then have "unat len - unat (copied + n) < unat len - unat copied" "copied + n \<le> len"
        using add by (simp_all add: word_le_nat_alt)
      from less.hyps [OF this, of "acc @ bs"] obtain cs where
        l: "copy_from_loop s mm src len (copied + n) (acc @ bs) =
          Return (if unat (copied + n) + length cs = 0 \<and> len \<noteq> 0 then - 1 else int64_of (int (unat (copied + n) + length cs)), (acc @ bs) @ cs)"
          "unat (copied + n) + length cs \<le> unat len" "\<forall>i<length cs. user_byte s m (src + (copied + n) + of_nat i) = Some (cs ! i)"
          "unat (copied + n) + length cs = unat len \<or> user_byte s m (src + (copied + n) + of_nat (length cs)) = None"
        by (elim exE conjE)
      have pos: "src + copied + of_nat (unat n + k) = src + (copied + n) + of_nat k" for k by simp
      have "user_byte s m (src + copied + of_nat i) = Some ((bs @ cs) ! i)" if "i < length (bs @ cs)" for i
      proof (cases "i < unat n")
        case False
        then have k: "unat n + (i - unat n) = i" "i - unat n < length cs" using that st(4) by simp_all
        have "user_byte s m (src + (copied + n) + of_nat (i - unat n)) = Some (cs ! (i - unat n))" using l(3) k(2) by blast
        then show ?thesis unfolding pos [symmetric] k(1) using False st(4) by (simp add: nth_append)
      qed (use st(4,5) in \<open>simp add: nth_append\<close>)
      moreover have "copy_from_loop s mm src len copied acc =
          Return (if unat copied + length (bs @ cs) = 0 \<and> len \<noteq> 0 then - 1 else int64_of (int (unat copied + length (bs @ cs))), acc @ bs @ cs)"
        using True st(1,4) l(1) add \<open>0 < unat n\<close> by (simp add: copy_from_loop.simps [of s mm src len copied] add.assoc)
      ultimately show ?thesis using l(2,4) add st(4) pos [of "length cs"] by (intro exI [of _ "bs @ cs"]) (simp add: add.assoc)
    qed
  qed
qed

section \<open>Correctness\<close>


definition demo_area :: vm_area_struct where
  "demo_area = \<lparr>vm_start = 0x10000, vm_end = 0x11000, vm_prot = PROT_READ, vm_type = VMA_DATA, vm_flags = VM_READ, vm_mm = 0x1000,
     vma_pages = Some [Some 0], page_count = 1\<rparr>"

definition demo_user :: vm_state where
  "demo_user = \<lparr>mms = [0x1000 \<mapsto> demo_mm\<lparr>vma_list := [0x2000]\<rparr>], vmas = [0x2000 \<mapsto> demo_area],
     mmu_state = demo_mmu\<lparr>pages := (pages demo_mmu)\<lparr>page_pool := [demo_page\<lparr>paddr := 0x80300000\<rparr>]\<rparr>\<rparr>,
     page_data = (\<lambda>_. 7 # 8 # 9 # replicate 4093 0), kmallocs = []\<rparr>"

lemma demo_user_ok: "vm_inv demo_user" "mms demo_user 0x1000 = Some (demo_mm\<lparr>vma_list := [0x2000]\<rparr>)"
  "user_mem_ok demo_user (demo_mm\<lparr>vma_list := [0x2000]\<rparr>)"
  by (simp_all add: vm_inv_def mm_ok_def fresh_heap_def demo_user_def demo_mm_def area_ok_def demo_area_def user_mem_ok_def)

lemma demo_user_byte: "user_byte demo_user (demo_mm\<lparr>vma_list := [0x2000]\<rparr>) 0x10000 = Some 7"
  "user_byte demo_user (demo_mm\<lparr>vma_list := [0x2000]\<rparr>) 0x10001 = Some 8"
  by (simp_all add: user_byte_def demo_user_def demo_area_def within_def)


text \<open>
  \<^verbatim>\<open>mm_copy_to_user\<close> never copies anything to an address above the first page: whatever the
  state, it returns \<^verbatim>\<open>-EFAULT\<close> or writes outside of the page of the address.
\<close>

theorem mm_copy_to_user_fails:
  assumes "mm \<noteq> NULL" "dst \<ge> PAGE_SIZE" "len \<noteq> 0"
  shows "mm_copy_to_user klookup mm dst (Some bytes) len s \<in> {Fault, Return (- EFAULT, s)}"
proof -
  have "uint (dst OR 0xFFF) \<ge> uint dst" using or_greater_eq [of "uint (0xFFF :: u64)" "uint dst"] by (simp add: unsigned_or_eq)
  then have "dst OR 0xFFF \<ge> PAGE_SIZE" using assms(2) by (simp add: word_le_def)
  moreover have "odd (dst OR 0xFFF)" by (simp add: even_or_iff)
  ultimately have "dst OR 0xFFF > PAGE_SIZE" by (metis even_numeral order_less_le)
  then have big: "unat (dst OR 0xFFF) > 4096" by (simp add: word_less_nat_alt)
  have "r = None \<and> t = s" if "copy_to_step klookup mm dst len bytes s = Return (r, t)" for r t
    using that big by (auto simp: copy_to_step_def Let_def bind_outcome_Return_iff split: if_splits option.splits)
  then have "copy_to_step klookup mm dst len bytes s \<in> {Fault, Return (None, s)}"
    by (cases "copy_to_step klookup mm dst len bytes s") auto
  moreover have "0 < len" "dst \<noteq> 0" using assms by (auto simp: word_gt_0)
  ultimately show ?thesis using assms by (auto simp: mm_copy_to_user_def copy_to_loop.simps)
qed

theorem mm_copy_to_user_fails_witness:
  "mm_copy_to_user id 0x1000 0x7FFFF000 (Some [1, 2, 3]) 3 demo_vm \<in> {Fault, Return (- EFAULT, demo_vm)}"
  by (rule mm_copy_to_user_fails) simp_all

end
