(* ===== verification/Ktime.thy ===== *)
theory Ktime
  imports Prelude "HOL-Library.Signed_Division"
begin

text \<open>
  The clock of \<^verbatim>\<open>kernel/time.c\<close> and \<^verbatim>\<open>include/kernel/time.h\<close>: the system time, the times a
  file system may store, and the arithmetic on \<^verbatim>\<open>struct timespec\<close>. The fields are 64-bit signed
  integers; \<open>normal\<close> is the representation the code relies on (nanoseconds below one second),
  and \<open>nanos\<close> the time a structure stands for. The lemmas show that every operation gives a
  normal time and is the operation on nanoseconds.
\<close>

section \<open>Model\<close>

abbreviation (input) NSEC_PER_SEC :: int where "NSEC_PER_SEC \<equiv> 1000000000"
abbreviation (input) NSEC_PER_USEC :: int where "NSEC_PER_USEC \<equiv> 1000"

record timespec =
  tv_sec :: int
  tv_nsec :: int

record timeval =
  tval_sec :: int
  tv_usec :: int

text \<open>The part of a superblock the clock reads.\<close>

record superblock_time =
  s_operations :: ptr
  s_time_granularity :: u64
  s_time_min :: int
  s_time_max :: int

text \<open>The two variables of \<^verbatim>\<open>time.c\<close>.\<close>

record clock =
  system_time :: timespec
  jiffies :: u64

definition timespec_compare :: "timespec \<Rightarrow> timespec \<Rightarrow> int" where
  "timespec_compare a b =
     (if tv_sec a \<noteq> tv_sec b then (if tv_sec a > tv_sec b then 1 else - 1)
      else if tv_nsec a > tv_nsec b then 1
      else if tv_nsec a < tv_nsec b then - 1 else 0)"

definition timespec_add :: "timespec \<Rightarrow> timespec \<Rightarrow> timespec" where
  "timespec_add a b =
     (let sec = int64_of (tv_sec a + tv_sec b); nsec = int64_of (tv_nsec a + tv_nsec b)
      in if nsec \<ge> NSEC_PER_SEC
         then \<lparr>tv_sec = int64_of (sec + 1), tv_nsec = int64_of (nsec - NSEC_PER_SEC)\<rparr>
         else \<lparr>tv_sec = sec, tv_nsec = nsec\<rparr>)"

definition timespec_sub :: "timespec \<Rightarrow> timespec \<Rightarrow> timespec" where
  "timespec_sub a b =
     (let sec = int64_of (tv_sec a - tv_sec b)
      in if tv_nsec a \<ge> tv_nsec b
         then \<lparr>tv_sec = sec, tv_nsec = int64_of (tv_nsec a - tv_nsec b)\<rparr>
         else \<lparr>tv_sec = int64_of (sec - 1),
               tv_nsec = int64_of (int64_of (NSEC_PER_SEC + tv_nsec a) - tv_nsec b)\<rparr>)"

definition timespec_to_timeval :: "timespec \<Rightarrow> timeval" where
  "timespec_to_timeval ts = \<lparr>tval_sec = tv_sec ts, tv_usec = tv_nsec ts sdiv NSEC_PER_USEC\<rparr>"

definition timeval_to_timespec :: "timeval \<Rightarrow> timespec" where
  "timeval_to_timespec tv = \<lparr>tv_sec = tval_sec tv, tv_nsec = int64_of (tv_usec tv * NSEC_PER_USEC)\<rparr>"

text \<open>The \<^verbatim>\<open>uint32\<close> granularity is widened to the signed 64-bit type of \<^verbatim>\<open>tv_nsec\<close>.\<close>

definition timespec_trunc :: "timespec \<Rightarrow> u32 \<Rightarrow> timespec" where
  "timespec_trunc ts granularity =
     (if granularity = 0 \<or> granularity = 1 then ts
      else ts\<lparr>tv_nsec := int64_of (tv_nsec ts - tv_nsec ts smod uint granularity)\<rparr>)"

definition update_sys_time_from_hw :: "clock \<Rightarrow> clock" where
  "update_sys_time_from_hw c = c\<lparr>system_time := \<lparr>tv_sec = 1672531200, tv_nsec = 0\<rparr>\<rparr>"

definition time_init :: "clock \<Rightarrow> clock" where
  "time_init c =
     (update_sys_time_from_hw (c\<lparr>system_time := \<lparr>tv_sec = 0, tv_nsec = 0\<rparr>\<rparr>))\<lparr>jiffies := 0\<rparr>"

text \<open>
  A call with a structure to fill gives the result code and the new contents of the structure;
  \<open>None\<close> is a \<^verbatim>\<open>NULL\<close> pointer. The clocks are \<^verbatim>\<open>CLOCK_REALTIME\<close>, \<^verbatim>\<open>CLOCK_MONOTONIC\<close> and
  \<^verbatim>\<open>CLOCK_BOOTTIME\<close>.
\<close>

definition do_clock_gettime :: "clock \<Rightarrow> int \<Rightarrow> timespec option \<Rightarrow> int \<times> timespec option" where
  "do_clock_gettime c which_clock tp =
     (case tp of
        None \<Rightarrow> (- EINVAL, None)
      | Some old \<Rightarrow>
          if which_clock = 0 then (0, Some (system_time c))
          else if which_clock = 1 \<or> which_clock = 2 then (0, Some (system_time c))
          else (- EINVAL, Some old))"

definition do_gettimeofday :: "clock \<Rightarrow> timeval option \<Rightarrow> int \<times> timeval option" where
  "do_gettimeofday c tv =
     (case tv of
        None \<Rightarrow> (- EINVAL, None)
      | Some _ \<Rightarrow> (0, Some (timespec_to_timeval (system_time c))))"

definition do_time :: "clock \<Rightarrow> int option \<Rightarrow> int \<times> int option" where
  "do_time c timer =
     (let current = tv_sec (system_time c)
      in (current, case timer of None \<Rightarrow> None | Some _ \<Rightarrow> Some current))"

text \<open>The local \<^verbatim>\<open>now\<close>, whose old contents \<open>junk\<close> are arbitrary.\<close>

definition current_fs_time :: "timespec \<Rightarrow> clock \<Rightarrow> superblock_time option \<Rightarrow> timespec" where
  "current_fs_time junk c sb =
     (let now = the (snd (do_clock_gettime c 0 (Some junk)))
      in case sb of
           None \<Rightarrow> now
         | Some b \<Rightarrow>
             let now = (if tv_sec now < s_time_min b then now\<lparr>tv_sec := s_time_min b\<rparr>
                        else if tv_sec now > s_time_max b then now\<lparr>tv_sec := s_time_max b\<rparr>
                        else now);
                 granularity = (if s_operations b \<noteq> NULL \<and> s_time_granularity b \<noteq> 0
                                then s_time_granularity b else 1)
             in timespec_trunc now (ucast granularity))"

definition current_time :: "timespec \<Rightarrow> clock \<Rightarrow> superblock_time option \<Rightarrow> timespec" where
  "current_time junk c sb =
     (let now = the (snd (do_clock_gettime c 0 (Some junk)))
      in case sb of None \<Rightarrow> now | Some _ \<Rightarrow> current_fs_time now c sb)"

definition current_time_unix :: "timespec \<Rightarrow> clock \<Rightarrow> superblock_time option \<Rightarrow> int" where
  "current_time_unix junk c sb = tv_sec (current_time junk c sb)"

section \<open>Specification\<close>

text \<open>A time as the code keeps it, and the nanoseconds since the epoch it stands for.\<close>

definition normal :: "timespec \<Rightarrow> bool" where
  "normal ts \<longleftrightarrow> - 9223372036854775808 \<le> tv_sec ts \<and> tv_sec ts < 9223372036854775808
     \<and> 0 \<le> tv_nsec ts \<and> tv_nsec ts < NSEC_PER_SEC"

definition nanos :: "timespec \<Rightarrow> int" where
  "nanos ts = tv_sec ts * NSEC_PER_SEC + tv_nsec ts"

text \<open>The seconds of a result fit the field.\<close>

definition representable :: "int \<Rightarrow> bool" where
  "representable t \<longleftrightarrow> - 9223372036854775808 \<le> t div NSEC_PER_SEC \<and> t div NSEC_PER_SEC < 9223372036854775808"

section \<open>Lemmas\<close>

lemma int64_of_self: "- 9223372036854775808 \<le> i \<Longrightarrow> i < 9223372036854775808 \<Longrightarrow> int64_of i = i"
  by (rule int64_of_id) simp_all

text \<open>The wrap-around of an intermediate result is undone when the end result is in range.\<close>

lemma int64_of_int64_of_add: "int64_of (int64_of a + b) = int64_of (a + b)"
  unfolding int64_of_def by (simp add: signed_take_bit_add [of 63 a b, symmetric] signed_take_bit_add [of 63 "signed_take_bit 63 a" b, symmetric])

lemma int64_of_int64_of_diff: "int64_of (int64_of a - b) = int64_of (a - b)"
  using int64_of_int64_of_add [of a "- b"] by simp

lemma nanos_div_mod:
  assumes "normal ts"
  shows "nanos ts div NSEC_PER_SEC = tv_sec ts" "nanos ts mod NSEC_PER_SEC = tv_nsec ts"
  using assms by (simp_all add: nanos_def normal_def)

lemma nanos_inject: "normal a \<Longrightarrow> normal b \<Longrightarrow> nanos a = nanos b \<longleftrightarrow> a = b"
  by (metis nanos_div_mod timespec.equality old.unit.exhaust)

lemma timespec_of_nanos:
  assumes "t = s * NSEC_PER_SEC + n" "0 \<le> n" "n < NSEC_PER_SEC" "representable t"
  shows "normal \<lparr>tv_sec = int64_of s, tv_nsec = n\<rparr> \<and> nanos \<lparr>tv_sec = int64_of s, tv_nsec = n\<rparr> = t"
  using assms by (simp add: normal_def nanos_def representable_def int64_of_self)

lemma timespec_add_nanos:
  assumes "normal a" "normal b" "representable (nanos a + nanos b)"
  shows "normal (timespec_add a b)" "nanos (timespec_add a b) = nanos a + nanos b"
proof -
  have n: "int64_of (tv_nsec a + tv_nsec b) = tv_nsec a + tv_nsec b"
    using assms by (intro int64_of_self) (simp_all add: normal_def)
  have eq: "nanos a + nanos b = (tv_sec a + tv_sec b) * NSEC_PER_SEC + (tv_nsec a + tv_nsec b)"
      "nanos a + nanos b = (tv_sec a + tv_sec b + 1) * NSEC_PER_SEC + (tv_nsec a + tv_nsec b - NSEC_PER_SEC)"
    by (simp_all add: nanos_def)
  have b: "0 \<le> tv_nsec a" "tv_nsec a < NSEC_PER_SEC" "0 \<le> tv_nsec b" "tv_nsec b < NSEC_PER_SEC"
    using assms by (simp_all add: normal_def)
  have "normal (timespec_add a b) \<and> nanos (timespec_add a b) = nanos a + nanos b"
  proof (cases "tv_nsec a + tv_nsec b \<ge> NSEC_PER_SEC")
    case True
    have "timespec_add a b = \<lparr>tv_sec = int64_of (tv_sec a + tv_sec b + 1), tv_nsec = tv_nsec a + tv_nsec b - NSEC_PER_SEC\<rparr>"
      using True b by (simp add: timespec_add_def n int64_of_int64_of_add int64_of_self)
    then show ?thesis using timespec_of_nanos [OF eq(2) _ _ assms(3)] True b by simp
  next
    case False
    have "timespec_add a b = \<lparr>tv_sec = int64_of (tv_sec a + tv_sec b), tv_nsec = tv_nsec a + tv_nsec b\<rparr>"
      using False by (simp add: timespec_add_def n)
    then show ?thesis using timespec_of_nanos [OF eq(1) _ _ assms(3)] False b by simp
  qed
  then show "normal (timespec_add a b)" "nanos (timespec_add a b) = nanos a + nanos b" by simp_all
qed

lemma timespec_sub_nanos:
  assumes "normal a" "normal b" "representable (nanos a - nanos b)"
  shows "normal (timespec_sub a b)" "nanos (timespec_sub a b) = nanos a - nanos b"
proof -
  have eq: "nanos a - nanos b = (tv_sec a - tv_sec b) * NSEC_PER_SEC + (tv_nsec a - tv_nsec b)"
      "nanos a - nanos b = (tv_sec a - tv_sec b - 1) * NSEC_PER_SEC + (NSEC_PER_SEC + tv_nsec a - tv_nsec b)"
    by (simp_all add: nanos_def)
  have b: "0 \<le> tv_nsec a" "tv_nsec a < NSEC_PER_SEC" "0 \<le> tv_nsec b" "tv_nsec b < NSEC_PER_SEC"
    using assms by (simp_all add: normal_def)
  have "normal (timespec_sub a b) \<and> nanos (timespec_sub a b) = nanos a - nanos b"
  proof (cases "tv_nsec a \<ge> tv_nsec b")
    case True
    have "timespec_sub a b = \<lparr>tv_sec = int64_of (tv_sec a - tv_sec b), tv_nsec = tv_nsec a - tv_nsec b\<rparr>"
      using True b by (simp add: timespec_sub_def int64_of_self)
    then show ?thesis using timespec_of_nanos [OF eq(1) _ _ assms(3)] True b by simp
  next
    case False
    have "timespec_sub a b = \<lparr>tv_sec = int64_of (tv_sec a - tv_sec b - 1), tv_nsec = NSEC_PER_SEC + tv_nsec a - tv_nsec b\<rparr>"
      using False b by (simp add: timespec_sub_def int64_of_int64_of_diff int64_of_self)
    then show ?thesis using timespec_of_nanos [OF eq(2) _ _ assms(3)] False b by simp
  qed
  then show "normal (timespec_sub a b)" "nanos (timespec_sub a b) = nanos a - nanos b" by simp_all
qed

lemma timespec_compare_nanos:
  assumes "normal a" "normal b"
  shows "timespec_compare a b = sgn (nanos a - nanos b)"
proof -
  have "nanos a - nanos b = (tv_sec a - tv_sec b) * NSEC_PER_SEC + (tv_nsec a - tv_nsec b)"
    by (simp add: nanos_def)
  then show ?thesis using assms by (auto simp: timespec_compare_def normal_def sgn_if)
qed

lemma smod_nonneg: "0 \<le> x \<Longrightarrow> 0 < g \<Longrightarrow> x smod (g :: int) = x mod g"
  by (simp add: signed_modulo_int_def signed_divide_int_def sgn_if minus_mult_div_eq_mod [symmetric] mult.commute)

lemma timespec_trunc_normal:
  assumes "normal ts"
  shows "timespec_trunc ts g = ts\<lparr>tv_nsec := (if g = 0 then tv_nsec ts else tv_nsec ts div uint g * uint g)\<rparr>"
    and "normal (timespec_trunc ts g)"
proof -
  have n: "0 \<le> tv_nsec ts" "tv_nsec ts < NSEC_PER_SEC" using assms by (simp_all add: normal_def)
  have "0 \<le> tv_nsec ts div uint g" using n by (intro div_int_pos_iff [THEN iffD2]) simp
  then have d: "0 \<le> tv_nsec ts div uint g * uint g" by simp
  have d': "tv_nsec ts div uint g * uint g \<le> tv_nsec ts" if "0 < uint g"
    using pos_mod_sign [OF that, of "tv_nsec ts"] by (simp add: minus_mod_eq_div_mult [symmetric])
  show eq: "timespec_trunc ts g = ts\<lparr>tv_nsec := (if g = 0 then tv_nsec ts else tv_nsec ts div uint g * uint g)\<rparr>"
  proof (cases "g = 0 \<or> g = 1")
    case False
    then have g: "0 < uint g" by (simp add: word_neq_0_conv word_less_def)
    have "int64_of (tv_nsec ts - tv_nsec ts smod uint g) = tv_nsec ts div uint g * uint g"
      using n g d d' False by (simp add: smod_nonneg minus_mod_eq_div_mult int64_of_self)
    with False show ?thesis by (simp add: timespec_trunc_def)
  qed (auto simp: timespec_trunc_def)
  show "normal (timespec_trunc ts g)" using assms d d' n unfolding eq by (auto simp: normal_def word_neq_0_conv word_less_def)
qed

lemma current_fs_time_None [simp]: "current_fs_time junk c None = system_time c"
  by (simp add: current_fs_time_def do_clock_gettime_def)

lemma current_time_eq [simp]: "current_time junk c sb = current_fs_time junk c sb"
  by (cases sb) (simp_all add: current_time_def current_fs_time_def do_clock_gettime_def)

lemma max_min_clamp:
  "lo \<le> hi \<Longrightarrow> (if x < lo then lo else if x > hi then hi else x) = max lo (min hi (x :: int))"
  by auto

lemma current_fs_time_Some:
  "current_fs_time junk c (Some sb) =
     timespec_trunc ((system_time c)\<lparr>tv_sec :=
         (if tv_sec (system_time c) < s_time_min sb then s_time_min sb
          else if tv_sec (system_time c) > s_time_max sb then s_time_max sb else tv_sec (system_time c))\<rparr>)
       (if s_operations sb \<noteq> NULL \<and> s_time_granularity sb \<noteq> 0 then ucast (s_time_granularity sb) else 1)"
  by (simp add: current_fs_time_def do_clock_gettime_def)

section \<open>Properties\<close>

text \<open>
  C29. Arithmetic on times is arithmetic on nanoseconds: for two normal times,
  \<^verbatim>\<open>timespec_compare\<close> gives the sign of their difference, and \<^verbatim>\<open>timespec_add\<close> and
  \<^verbatim>\<open>timespec_sub\<close> give the normal time of their sum and difference whenever its seconds fit
  64 bits, even where the sum or difference of the seconds alone wraps around on the way.
\<close>

theorem timespec_arith:
  assumes "normal a" "normal b"
  shows "timespec_compare a b = sgn (nanos a - nanos b) \<and>
    (representable (nanos a + nanos b) \<longrightarrow>
       normal (timespec_add a b) \<and> nanos (timespec_add a b) = nanos a + nanos b) \<and>
    (representable (nanos a - nanos b) \<longrightarrow>
       normal (timespec_sub a b) \<and> nanos (timespec_sub a b) = nanos a - nanos b)"
  using timespec_compare_nanos [OF assms] timespec_add_nanos [OF assms] timespec_sub_nanos [OF assms]
  by blast

text \<open>The seconds of the difference wrap around before the borrow brings them back.\<close>

theorem timespec_arith_witness:
  "let a = \<lparr>tv_sec = 9223372036854775807, tv_nsec = 5\<rparr>; b = \<lparr>tv_sec = - 1, tv_nsec = 7\<rparr>
   in timespec_compare a b = 1
      \<and> timespec_add a b = \<lparr>tv_sec = 9223372036854775806, tv_nsec = 12\<rparr>
      \<and> timespec_sub a b = \<lparr>tv_sec = 9223372036854775807, tv_nsec = 999999998\<rparr>"
proof -
  define a b where "a = \<lparr>tv_sec = 9223372036854775807, tv_nsec = 5\<rparr>" and "b = \<lparr>tv_sec = - 1, tv_nsec = 7\<rparr>"
  have n: "normal a" "normal b" "normal \<lparr>tv_sec = 9223372036854775806, tv_nsec = 12\<rparr>"
      "normal \<lparr>tv_sec = 9223372036854775807, tv_nsec = 999999998\<rparr>"
      "representable (nanos a + nanos b)" "representable (nanos a - nanos b)"
    by (simp_all add: a_def b_def normal_def representable_def nanos_def)
  have v: "nanos a + nanos b = nanos \<lparr>tv_sec = 9223372036854775806, tv_nsec = 12\<rparr>"
      "nanos a - nanos b = nanos \<lparr>tv_sec = 9223372036854775807, tv_nsec = 999999998\<rparr>"
      "sgn (nanos a - nanos b) = 1"
    by (simp_all add: a_def b_def nanos_def)
  show ?thesis
    using timespec_arith [OF n(1,2)] n v nanos_inject unfolding a_def [symmetric] b_def [symmetric] Let_def by metis
qed

text \<open>
  \<^verbatim>\<open>current_fs_time\<close> gives a well-formed time of the file system: for a normal system time
  and a superblock whose range of times is not empty, the result is normal, its seconds are
  the system's seconds clamped to the range, and its nanoseconds are the largest multiple of
  the granularity that is not above the system's nanoseconds (of the low 32 bits of the
  granularity; they are kept where the granularity is not set or these bits are 0).
  \<^verbatim>\<open>current_time\<close> gives the same, and \<^verbatim>\<open>current_time_unix\<close> its seconds.
\<close>

theorem current_fs_time_type:
  fixes sb :: superblock_time
  defines "g \<equiv> (if s_operations sb = NULL then 1 else uint (ucast (s_time_granularity sb) :: u32))"
  assumes "normal (system_time c)" "s_time_min sb \<le> s_time_max sb"
    and "- 9223372036854775808 \<le> s_time_min sb" "s_time_max sb < 9223372036854775808"
  shows "normal (current_fs_time junk c (Some sb)) \<and>
    tv_sec (current_fs_time junk c (Some sb)) = max (s_time_min sb) (min (s_time_max sb) (tv_sec (system_time c))) \<and>
    tv_nsec (current_fs_time junk c (Some sb)) =
      (if g = 0 then tv_nsec (system_time c) else tv_nsec (system_time c) div g * g) \<and>
    current_time junk c (Some sb) = current_fs_time junk c (Some sb) \<and>
    current_time_unix junk c (Some sb) = tv_sec (current_fs_time junk c (Some sb))"
proof (intro conjI)
  define now where "now = (system_time c)\<lparr>tv_sec := max (s_time_min sb) (min (s_time_max sb) (tv_sec (system_time c)))\<rparr>"
  define w :: u32 where "w = (if s_operations sb \<noteq> NULL \<and> s_time_granularity sb \<noteq> 0 then ucast (s_time_granularity sb) else 1)"
  have cur: "current_fs_time junk c (Some sb) = timespec_trunc now w"
    unfolding current_fs_time_Some now_def w_def max_min_clamp [OF assms(3)] by (rule refl)
  have now: "normal now" using assms by (auto simp: now_def normal_def)
  have w: "(if w = 0 then n else n div uint w * uint w) = (if g = 0 then n else n div g * g)" for n
    by (auto simp: w_def g_def uint_0_iff)
  show "normal (current_fs_time junk c (Some sb))" unfolding cur by (rule timespec_trunc_normal(2) [OF now])
  show "tv_sec (current_fs_time junk c (Some sb)) = max (s_time_min sb) (min (s_time_max sb) (tv_sec (system_time c)))"
    unfolding cur timespec_trunc_normal(1) [OF now] by (simp add: now_def)
  show "tv_nsec (current_fs_time junk c (Some sb)) = (if g = 0 then tv_nsec (system_time c) else tv_nsec (system_time c) div g * g)"
    unfolding cur timespec_trunc_normal(1) [OF now] w by (simp add: now_def)
qed (simp_all add: current_time_unix_def)

theorem current_fs_time_type_witness:
  "let c = \<lparr>system_time = \<lparr>tv_sec = 1672531200, tv_nsec = 123456789\<rparr>, jiffies = 0\<rparr>;
       sb = \<lparr>s_operations = 4096, s_time_granularity = 1000, s_time_min = 0, s_time_max = 2147483647\<rparr>
   in current_fs_time (system_time c) c (Some sb) = \<lparr>tv_sec = 1672531200, tv_nsec = 123456000\<rparr>"
proof -
  define c where "c = \<lparr>system_time = \<lparr>tv_sec = 1672531200, tv_nsec = 123456789\<rparr>, jiffies = 0\<rparr>"
  define sb where "sb = \<lparr>s_operations = 4096, s_time_granularity = 1000, s_time_min = 0, s_time_max = 2147483647\<rparr>"
  have "normal (system_time c)" "s_time_min sb \<le> s_time_max sb"
      "- 9223372036854775808 \<le> s_time_min sb" "s_time_max sb < 9223372036854775808"
    by (simp_all add: c_def sb_def normal_def)
  note t = current_fs_time_type [where junk = "system_time c", OF this]
  have "tv_sec (current_fs_time (system_time c) c (Some sb)) = 1672531200"
    unfolding t [THEN conjunct2, THEN conjunct1] by (simp add: c_def sb_def)
  moreover have "tv_nsec (current_fs_time (system_time c) c (Some sb)) = 123456000"
    unfolding t [THEN conjunct2, THEN conjunct2, THEN conjunct1] by (simp add: c_def sb_def)
  ultimately show ?thesis unfolding c_def [symmetric] sb_def [symmetric] Let_def by simp
qed

end
