(* ===== verification/File.thy ===== *)
theory File
  imports Prelude
begin

text \<open>
  Open files: \<^verbatim>\<open>kernel/fs/vfs/file.c\<close> with \<^verbatim>\<open>include/kernel/fs/vfs/file.h\<close>, and \<^verbatim>\<open>path_destroy\<close> of
  \<^verbatim>\<open>kernel/fs/vfs/path.c\<close>. File structures are objects in a store; freeing one takes it out of
  the store, so a later use of the pointer is a fault. The method tables of the file systems
  are a parameter \<open>fops\<close>. The references to dentries and mounts that are given back are
  recorded in order.
\<close>

section \<open>Data\<close>

abbreviation (input) FMODE_READ :: u32 where "FMODE_READ \<equiv> 0x1"
abbreviation (input) FMODE_WRITE :: u32 where "FMODE_WRITE \<equiv> 0x2"
abbreviation (input) FMODE_APPEND :: u32 where "FMODE_APPEND \<equiv> 0x8"
abbreviation (input) FMODE_NONBLOCK :: u32 where "FMODE_NONBLOCK \<equiv> 0x10"
abbreviation (input) FMODE_DIRECT :: u32 where "FMODE_DIRECT \<equiv> 0x20"
abbreviation (input) FMODE_SYNC :: u32 where "FMODE_SYNC \<equiv> 0x40"
abbreviation (input) FMODE_EXCL :: u32 where "FMODE_EXCL \<equiv> 0x80"
abbreviation (input) FMODE_DIRECTORY :: u32 where "FMODE_DIRECTORY \<equiv> 0x800"
abbreviation (input) FMODE_PATH :: u32 where "FMODE_PATH \<equiv> 0x1000"
abbreviation (input) FMODE_LSEEK :: u32 where "FMODE_LSEEK \<equiv> 0x4000"

abbreviation (input) O_RDONLY :: u32 where "O_RDONLY \<equiv> 0"
abbreviation (input) O_WRONLY :: u32 where "O_WRONLY \<equiv> 1"
abbreviation (input) O_RDWR :: u32 where "O_RDWR \<equiv> 2"
abbreviation (input) O_ACCMODE :: u32 where "O_ACCMODE \<equiv> 0x200003"
abbreviation (input) O_CREAT :: u32 where "O_CREAT \<equiv> 0x40"
abbreviation (input) O_EXCL :: u32 where "O_EXCL \<equiv> 0x80"
abbreviation (input) O_TRUNC :: u32 where "O_TRUNC \<equiv> 0x200"
abbreviation (input) O_APPEND :: u32 where "O_APPEND \<equiv> 0x400"
abbreviation (input) O_NONBLOCK :: u32 where "O_NONBLOCK \<equiv> 0x800"
abbreviation (input) O_DSYNC :: u32 where "O_DSYNC \<equiv> 0x1000"
abbreviation (input) O_DIRECT :: u32 where "O_DIRECT \<equiv> 0x4000"
abbreviation (input) O_DIRECTORY :: u32 where "O_DIRECTORY \<equiv> 0x10000"
abbreviation (input) O_NOFOLLOW :: u32 where "O_NOFOLLOW \<equiv> 0x20000"
abbreviation (input) O_CLOEXEC :: u32 where "O_CLOEXEC \<equiv> 0x80000"
abbreviation (input) O_SYNC :: u32 where "O_SYNC \<equiv> 0x101000"
abbreviation (input) O_PATH :: u32 where "O_PATH \<equiv> 0x200000"

abbreviation (input) LOOKUP_FOLLOW :: u32 where "LOOKUP_FOLLOW \<equiv> 0x1"
abbreviation (input) LOOKUP_DIRECTORY :: u32 where "LOOKUP_DIRECTORY \<equiv> 0x2"
abbreviation (input) LOOKUP_CREATE :: u32 where "LOOKUP_CREATE \<equiv> 0x200"
abbreviation (input) LOOKUP_EXCL :: u32 where "LOOKUP_EXCL \<equiv> 0x400"

abbreviation (input) SEEK_SET :: int where "SEEK_SET \<equiv> 0"
abbreviation (input) SEEK_CUR :: int where "SEEK_CUR \<equiv> 1"
abbreviation (input) SEEK_END :: int where "SEEK_END \<equiv> 2"

record path =
  path_dentry :: ptr
  path_mnt :: ptr

record file_struct =
  f_refcount :: int
  f_path :: path
  f_mode :: u32
  f_pos :: int
  f_flags :: u32
  f_private :: u64
  f_op :: ptr

text \<open>A reference that has been given back to the dentry or mount it was for.\<close>

datatype unref = Dentry_unref ptr | Mount_unref ptr

text \<open>
  What the file layer sees of the file system: the open files, the inode of every dentry,
  the size of every inode.
\<close>

record vfs =
  files :: "ptr \<Rightarrow> file_struct option"
  d_inode :: "ptr \<Rightarrow> ptr option"
  i_size :: "ptr \<Rightarrow> int option"
  unrefs :: "unref list"

record file_operations =
  op_open :: "(ptr \<Rightarrow> u32 \<Rightarrow> vfs \<Rightarrow> (int \<times> vfs) outcome) option"
  op_iterate :: "(ptr \<Rightarrow> ptr \<Rightarrow> vfs \<Rightarrow> (int \<times> vfs) outcome) option"
  op_release :: "(ptr \<Rightarrow> vfs \<Rightarrow> (int \<times> vfs) outcome) option"
  op_llseek :: "(ptr \<Rightarrow> int \<Rightarrow> int \<Rightarrow> vfs \<Rightarrow> (int \<times> vfs) outcome) option"

type_synonym fops = "ptr \<Rightarrow> file_operations option"

definition put_file :: "ptr \<Rightarrow> file_struct \<Rightarrow> vfs \<Rightarrow> vfs" where
  "put_file p f s = s\<lparr>files := (files s)(p \<mapsto> f)\<rparr>"

text \<open>Reading a file structure through a pointer.\<close>

definition file_at :: "ptr \<Rightarrow> vfs \<Rightarrow> file_struct outcome" where
  "file_at p s = (case files s p of None \<Rightarrow> Fault | Some f \<Rightarrow> Return f)"

text \<open>\<^verbatim>\<open>file->f_inode\<close>, a macro for \<^verbatim>\<open>f_dentry->d_inode\<close>.\<close>

definition f_inode :: "file_struct \<Rightarrow> vfs \<Rightarrow> ptr outcome" where
  "f_inode f s = (case d_inode s (path_dentry (f_path f)) of None \<Rightarrow> Fault | Some i \<Rightarrow> Return i)"

text \<open>
  The test \<^verbatim>\<open>file->f_op && file->f_op->m\<close>: the method, if there is one.
\<close>

definition f_op_method :: "fops \<Rightarrow> (file_operations \<Rightarrow> 'm option) \<Rightarrow> file_struct \<Rightarrow> 'm option outcome" where
  "f_op_method fops m f =
     (if f_op f = NULL then Return None
      else case fops (f_op f) of None \<Rightarrow> Fault | Some ops \<Rightarrow> Return (m ops))"

section \<open>Operations\<close>

definition file_ref :: "ptr \<Rightarrow> vfs \<Rightarrow> (ptr \<times> vfs) outcome" where
  "file_ref p s =
     (if p = NULL then Return (NULL, s)
      else bind_outcome (file_at p s)
        (\<lambda>f. Return (p, put_file p (f\<lparr>f_refcount := int32_of (f_refcount f + 1)\<rparr>) s)))"

definition file_open :: "fops \<Rightarrow> ptr \<Rightarrow> u32 \<Rightarrow> vfs \<Rightarrow> (int \<times> vfs) outcome" where
  "file_open fops p flags s =
     (if p = NULL then Return (- EINVAL, s)
      else bind_outcome (file_at p s)
        (\<lambda>f. bind_outcome (f_op_method fops op_open f)
          (\<lambda>m. case m of Some op \<Rightarrow> op p flags s | None \<Rightarrow> Return (0, s))))"

definition path_destroy :: "path \<Rightarrow> vfs \<Rightarrow> path \<times> vfs" where
  "path_destroy pth s =
     (let s1 = (if path_dentry pth \<noteq> NULL then s\<lparr>unrefs := unrefs s @ [Dentry_unref (path_dentry pth)]\<rparr> else s);
          s2 = (if path_mnt pth \<noteq> NULL then s1\<lparr>unrefs := unrefs s1 @ [Mount_unref (path_mnt pth)]\<rparr> else s1)
      in (\<lparr>path_dentry = NULL, path_mnt = NULL\<rparr>, s2))"

definition file_free :: "fops \<Rightarrow> ptr \<Rightarrow> vfs \<Rightarrow> (int \<times> vfs) outcome" where
  "file_free fops p s =
     (if p = NULL then Return (- EINVAL, s)
      else bind_outcome (file_at p s)
        (\<lambda>f. bind_outcome (f_op_method fops op_release f)
          (\<lambda>m. bind_outcome (case m of Some op \<Rightarrow> op p s | None \<Rightarrow> Return (0, s))
            (\<lambda>(error, s1).
               if error \<noteq> 0 then Return (error, s1)
               else bind_outcome (file_at p s1)
                 (\<lambda>f1. case path_destroy (f_path f1) s1 of
                          (pth, s2) \<Rightarrow> Return (error, s2\<lparr>files := (files s2)(p := None)\<rparr>))))))"

definition file_denyWrite :: "ptr \<Rightarrow> vfs \<Rightarrow> (int \<times> vfs) outcome" where
  "file_denyWrite p s =
     (if p = NULL then Return (- EINVAL, s)
      else bind_outcome (file_at p s)
        (\<lambda>f. bind_outcome (f_inode f s)
          (\<lambda>i. if i = NULL \<or> f_refcount f \<le> 0 then Return (- EBADF, s)
               else Return (0, put_file p (f\<lparr>f_mode := f_mode f AND NOT FMODE_WRITE\<rparr>) s))))"

definition file_allowWrite :: "ptr \<Rightarrow> vfs \<Rightarrow> (int \<times> vfs) outcome" where
  "file_allowWrite p s =
     (if p = NULL then Return (- EINVAL, s)
      else bind_outcome (file_at p s)
        (\<lambda>f. bind_outcome (f_inode f s)
          (\<lambda>i. if i = NULL \<or> f_refcount f \<le> 0 then Return (- EBADF, s)
               else Return (0, put_file p (f\<lparr>f_mode := f_mode f OR FMODE_WRITE\<rparr>) s))))"

text \<open>\<^verbatim>\<open>file_unref\<close>: the result of \<^verbatim>\<open>file_free\<close> is ignored.\<close>

definition file_unref :: "fops \<Rightarrow> ptr \<Rightarrow> vfs \<Rightarrow> (int \<times> vfs) outcome" where
  "file_unref fops p s =
     (if PTR_IS_INVALID p then Return (- EINVAL, s)
      else bind_outcome (file_at p s)
        (\<lambda>f. let f1 = f\<lparr>f_refcount := int32_of (f_refcount f - 1)\<rparr>; s1 = put_file p f1 s
             in if f_refcount f1 = 0
                then bind_outcome (file_free fops p s1) (\<lambda>(e, s2). Return (0, s2))
                else Return (- EBADF, s1)))"

definition file_llseek :: "fops \<Rightarrow> ptr \<Rightarrow> int \<Rightarrow> int \<Rightarrow> vfs \<Rightarrow> (int \<times> vfs) outcome" where
  "file_llseek fops p offset whence s =
     (if p = NULL then Return (- EINVAL, s)
      else bind_outcome (file_at p s)
        (\<lambda>f. bind_outcome (f_inode f s)
          (\<lambda>i. if i = NULL then Return (- EINVAL, s)
               else if f_mode f AND FMODE_LSEEK = 0 then Return (- ESPIPE, s)
               else bind_outcome (f_op_method fops op_llseek f)
                 (\<lambda>m. case m of
                        Some op \<Rightarrow> op p offset whence s
                      | None \<Rightarrow>
                          bind_outcome
                            (if whence = SEEK_SET then Return (Some offset)
                             else if whence = SEEK_CUR then Return (Some (int64_of (f_pos f + offset)))
                             else if whence = SEEK_END then
                               (case i_size s i of None \<Rightarrow> Fault | Some n \<Rightarrow> Return (Some (int64_of (n + offset))))
                             else Return None)
                            (\<lambda>np. case np of
                                    None \<Rightarrow> Return (- EINVAL, s)
                                  | Some new_pos \<Rightarrow>
                                      if new_pos < 0 then Return (- EINVAL, s)
                                      else Return (new_pos, put_file p (f\<lparr>f_pos := new_pos\<rparr>) s))))))"

text \<open>\<^verbatim>\<open>file_close\<close>; the name of the dentry is read for a message that is commented out.\<close>

definition file_close :: "fops \<Rightarrow> ptr \<Rightarrow> vfs \<Rightarrow> (int \<times> vfs) outcome" where
  "file_close fops p s = (if p = NULL then Return (- EINVAL, s) else file_unref fops p s)"

definition file_iterate :: "fops \<Rightarrow> ptr \<Rightarrow> ptr \<Rightarrow> vfs \<Rightarrow> (int \<times> vfs) outcome" where
  "file_iterate fops p ctxt s =
     (if p = NULL then Return (- EINVAL, s)
      else bind_outcome (file_at p s)
        (\<lambda>f. bind_outcome (f_op_method fops op_iterate f)
          (\<lambda>m. case m of Some op \<Rightarrow> op p ctxt s | None \<Rightarrow> Return (- ENOSYS, s))))"

definition file_isReadable :: "ptr \<Rightarrow> vfs \<Rightarrow> bool outcome" where
  "file_isReadable p s =
     (if p = NULL then Return False
      else bind_outcome (file_at p s)
        (\<lambda>f. bind_outcome (f_inode f s)
          (\<lambda>i. Return (i \<noteq> NULL \<and> f_refcount f > 0 \<and> f_mode f AND FMODE_READ \<noteq> 0))))"

definition file_isWriteable :: "ptr \<Rightarrow> vfs \<Rightarrow> bool outcome" where
  "file_isWriteable p s =
     (if p = NULL then Return False
      else bind_outcome (file_at p s)
        (\<lambda>f. bind_outcome (f_inode f s)
          (\<lambda>i. Return (i \<noteq> NULL \<and> f_refcount f > 0 \<and> f_mode f AND FMODE_WRITE \<noteq> 0))))"

section \<open>Flags\<close>

definition open_flags_to_fmode :: "u32 \<Rightarrow> u32" where
  "open_flags_to_fmode flags =
     (let acc = flags AND O_ACCMODE;
          m0 = (if acc = O_RDONLY then FMODE_READ
                else if acc = O_WRONLY then FMODE_WRITE
                else if acc = O_RDWR then FMODE_READ OR FMODE_WRITE
                else 0);
          m1 = (if flags AND O_APPEND \<noteq> 0 then m0 OR FMODE_APPEND else m0);
          m2 = (if flags AND O_NONBLOCK \<noteq> 0 then m1 OR FMODE_NONBLOCK else m1);
          m3 = (if flags AND O_DIRECT \<noteq> 0 then m2 OR FMODE_DIRECT else m2);
          m4 = (if flags AND O_SYNC \<noteq> 0 \<or> flags AND O_DSYNC \<noteq> 0 then m3 OR FMODE_SYNC else m3);
          m5 = (if flags AND O_EXCL \<noteq> 0 then m4 OR FMODE_EXCL else m4);
          m6 = (if flags AND O_PATH \<noteq> 0 then m5 OR FMODE_PATH else m5)
      in if flags AND O_DIRECTORY \<noteq> 0 then m6 OR FMODE_DIRECTORY else m6)"

definition open2lookup :: "u32 \<Rightarrow> u32" where
  "open2lookup flags =
     (let l1 = (if flags AND O_NOFOLLOW = 0 then LOOKUP_FOLLOW else 0);
          l2 = (if flags AND O_DIRECTORY \<noteq> 0 then l1 OR LOOKUP_DIRECTORY else l1);
          l3 = (if flags AND O_CREAT \<noteq> 0 then l2 OR LOOKUP_CREATE else l2)
      in if flags AND (O_CREAT OR O_EXCL) = O_CREAT OR O_EXCL then l3 OR LOOKUP_EXCL else l3)"

definition VALID_OPEN_FLAGS :: u32 where
  "VALID_OPEN_FLAGS = O_ACCMODE OR O_CREAT OR O_EXCL OR O_TRUNC OR O_APPEND OR O_NONBLOCK OR O_SYNC OR
     O_DIRECTORY OR O_NOFOLLOW OR O_CLOEXEC OR O_DSYNC"

definition validate_open_flags :: "u32 \<Rightarrow> int" where
  "validate_open_flags flags =
     (let acc_mode = flags AND O_ACCMODE
      in if acc_mode \<noteq> O_RDONLY \<and> acc_mode \<noteq> O_WRONLY \<and> acc_mode \<noteq> O_RDWR then - EINVAL
         else if flags AND O_TRUNC \<noteq> 0 \<and> acc_mode = O_RDONLY then - EINVAL
         else if flags AND O_EXCL \<noteq> 0 \<and> flags AND O_CREAT = 0 then - EINVAL
         else if flags AND O_DIRECTORY \<noteq> 0 \<and> flags AND O_TRUNC \<noteq> 0 then - EISDIR
         else if flags AND NOT VALID_OPEN_FLAGS \<noteq> 0 then - EINVAL
         else 0)"

section \<open>Lemmas\<close>

text \<open>The new position before it is checked, and where a seek is measured from.\<close>

definition seek_base :: "int \<Rightarrow> file_struct \<Rightarrow> int \<Rightarrow> int" where
  "seek_base whence f sz = (if whence = SEEK_SET then 0 else if whence = SEEK_CUR then f_pos f else sz)"

lemma int64_of_sum:
  assumes "0 \<le> b" "b < 2 ^ 63" "- (2 ^ 63) \<le> off" "off < 2 ^ 63"
  shows "if 0 \<le> b + off \<and> b + off < 2 ^ 63 then int64_of (b + off) = b + off else int64_of (b + off) < 0"
proof (cases "b + off < 2 ^ 63")
  case True
  with assms show ?thesis using int64_of_id [of "b + off"] by simp
next
  case False
  with assms show ?thesis using int64_of_overflow [of "b + off"] by simp
qed

lemma file_llseek_generic:
  assumes "p \<noteq> NULL" "files s p = Some f" "d_inode s (path_dentry (f_path f)) = Some i" "i \<noteq> NULL"
    "f_mode f AND FMODE_LSEEK \<noteq> 0" "f_op_method fops op_llseek f = Return None" "i_size s i = Some sz"
    "whence \<in> {SEEK_SET, SEEK_CUR, SEEK_END}"
  shows "file_llseek fops p offset whence s =
    (let np = (if whence = SEEK_SET then offset else int64_of (seek_base whence f sz + offset)) in
     if np < 0 then Return (- EINVAL, s) else Return (np, put_file p (f\<lparr>f_pos := np\<rparr>) s))"
  using assms by (auto simp: file_llseek_def file_at_def f_inode_def seek_base_def Let_def)

section \<open>Properties\<close>

text \<open>
  C39. A seek on a seekable file without a method of its own moves to exactly the requested
  offset from the start, the current position or the end. It is refused with \<open>- EINVAL\<close>, and
  nothing changes, exactly when that position is negative or beyond the 63 bits of \<^verbatim>\<open>loff_t\<close>:
  an overflow of the addition never goes through.
\<close>

theorem file_llseek_bounds:
  assumes "p \<noteq> NULL" "files s p = Some f" "d_inode s (path_dentry (f_path f)) = Some i" "i \<noteq> NULL"
    "f_mode f AND FMODE_LSEEK \<noteq> 0" "f_op_method fops op_llseek f = Return None" "i_size s i = Some sz"
    "0 \<le> f_pos f" "f_pos f < 2 ^ 63" "0 \<le> sz" "sz < 2 ^ 63" "- (2 ^ 63) \<le> offset" "offset < 2 ^ 63"
    "whence \<in> {SEEK_SET, SEEK_CUR, SEEK_END}"
  shows "file_llseek fops p offset whence s =
    (let target = seek_base whence f sz + offset in
     if 0 \<le> target \<and> target < 2 ^ 63 then Return (target, put_file p (f\<lparr>f_pos := target\<rparr>) s)
     else Return (- EINVAL, s))"
proof -
  have "0 \<le> seek_base whence f sz" "seek_base whence f sz < 2 ^ 63" using assms by (auto simp: seek_base_def)
  from int64_of_sum [OF this assms(12,13)] assms(12-) show ?thesis
    unfolding file_llseek_generic [OF assms(1-7,14)] Let_def by (auto simp: seek_base_def split: if_splits)
qed

definition demo_file :: file_struct where
  "demo_file = \<lparr>f_refcount = 1, f_path = \<lparr>path_dentry = 0x200, path_mnt = 0x300\<rparr>, f_mode = FMODE_LSEEK OR FMODE_READ,
     f_pos = 7, f_flags = 0, f_private = 0, f_op = NULL\<rparr>"

definition demo_vfs :: vfs where
  "demo_vfs = \<lparr>files = [0x100 \<mapsto> demo_file], d_inode = [0x200 \<mapsto> 0x400], i_size = [0x400 \<mapsto> 100], unrefs = []\<rparr>"

theorem file_llseek_bounds_witness:
  "file_llseek Map.empty 0x100 (- 20) SEEK_END demo_vfs = Return (80, put_file 0x100 (demo_file\<lparr>f_pos := 80\<rparr>) demo_vfs) \<and>
   file_llseek Map.empty 0x100 (2 ^ 63 - 1) SEEK_CUR demo_vfs = Return (- EINVAL, demo_vfs)"
  using file_llseek_bounds [where p = "0x100" and s = demo_vfs and f = demo_file and i = "0x400" and fops = Map.empty and sz = 100 and offset = "- 20" and whence = SEEK_END]
    file_llseek_bounds [where p = "0x100" and s = demo_vfs and f = demo_file and i = "0x400" and fops = Map.empty and sz = 100 and offset = "2 ^ 63 - 1" and whence = SEEK_CUR]
  by (simp add: demo_vfs_def demo_file_def f_op_method_def seek_base_def)

end
