(* ===== verification/Fdtable.thy ===== *)
theory Fdtable
  imports File
begin

text \<open>
  File descriptor tables: \<^verbatim>\<open>kernel/fs/vfs/fdtable.c\<close> and \<^verbatim>\<open>include/kernel/fs/vfs/fdtable.h\<close>. A table
  is a value that the operations take and return; an argument that may be \<^verbatim>\<open>NULL\<close> is an
  option. The two arrays are lists of \<^verbatim>\<open>max_fds\<close> entries, and the open files live in the store
  of theory File. Whether \<^verbatim>\<open>kmalloc\<close> succeeds is read from a sequence of answers. The
  spinlocks are left out: the operations are sequential.
\<close>

section \<open>Data\<close>

abbreviation FDTABLE_INIT_SIZE :: nat where "FDTABLE_INIT_SIZE \<equiv> 16"
abbreviation FD_ALLOCATED :: u32 where "FD_ALLOCATED \<equiv> 0x1000000"

record fdtable =
  fd_array :: "ptr list"
  fd_flags :: "u32 list"
  max_fds :: u32
  fdt_nextfd :: u32
  fdt_refcount :: int

section \<open>Operations\<close>

text \<open>\<^verbatim>\<open>__fdtable_alloc\<close> makes three allocations; a failure frees what it has.\<close>

definition fdtable_alloc :: "bool list \<Rightarrow> fdtable option \<times> bool list" where
  "fdtable_alloc kz =
     (case kalloc kz of (ok1, kz1) \<Rightarrow>
        if \<not> ok1 then (None, kz1)
        else case kalloc kz1 of (ok2, kz2) \<Rightarrow>
          if \<not> ok2 then (None, kz2)
          else case kalloc kz2 of (ok3, kz3) \<Rightarrow>
            if \<not> ok3 then (None, kz3)
            else (Some \<lparr>fd_array = replicate FDTABLE_INIT_SIZE NULL, fd_flags = replicate FDTABLE_INIT_SIZE 0,
                    max_fds = of_nat FDTABLE_INIT_SIZE, fdt_nextfd = 0, fdt_refcount = 1\<rparr>, kz3))"

definition fdtable_acquire :: "fdtable option \<Rightarrow> bool list \<Rightarrow> fdtable option \<times> bool list" where
  "fdtable_acquire fdt kz =
     (case fdt of
        None \<Rightarrow> fdtable_alloc kz
      | Some t \<Rightarrow> if fdt_refcount t \<le> 0 then (None, kz)
                  else (Some (t\<lparr>fdt_refcount := int32_of (fdt_refcount t + 1)\<rparr>), kz))"

text \<open>
  \<^verbatim>\<open>fdtable_unref\<close>: the table after it is \<open>None\<close> when \<^verbatim>\<open>__fdtable_free\<close> has freed it (the files
  are only forgotten: the call of \<^verbatim>\<open>file_unref\<close> is commented out).
\<close>

definition fdtable_unref :: "fdtable option \<Rightarrow> (int \<times> fdtable option) outcome" where
  "fdtable_unref fdt =
     (case fdt of
        None \<Rightarrow> Return (- EINVAL, None)
      | Some t \<Rightarrow>
          let c = int32_of (fdt_refcount t - 1)
          in if c = 0 then Return (0, None) else Return (0, Some (t\<lparr>fdt_refcount := c\<rparr>)))"

definition fdtable_expand :: "fdtable \<Rightarrow> u32 \<Rightarrow> bool list \<Rightarrow> int \<times> fdtable \<times> bool list" where
  "fdtable_expand t new_size kz =
     (if new_size \<le> max_fds t then (- EINVAL, t, kz)
      else case kalloc kz of (ok1, kz1) \<Rightarrow>
        if \<not> ok1 then (- ENOMEM, t, kz1)
        else case kalloc kz1 of (ok2, kz2) \<Rightarrow>
          if \<not> ok2 then (- ENOMEM, t, kz2)
          else (0, t\<lparr>fd_array := take (unat (max_fds t)) (fd_array t) @ replicate (unat new_size - unat (max_fds t)) NULL,
                     fd_flags := take (unat (max_fds t)) (fd_flags t) @ replicate (unat new_size - unat (max_fds t)) 0,
                     max_fds := new_size\<rparr>, kz2))"

definition fdtable_getSize :: "fdtable option \<Rightarrow> u64" where
  "fdtable_getSize fdt = (case fdt of None \<Rightarrow> 0 | Some t \<Rightarrow> ucast (max_fds t))"

text \<open>
  The copy loop of \<^verbatim>\<open>fdtable_copy\<close>: an entry is copied when a file is installed. The counter
  and the size are \<^verbatim>\<open>int32\<close>.
\<close>

definition copy_entries :: "int \<Rightarrow> fdtable \<Rightarrow> fdtable \<Rightarrow> fdtable" where
  "copy_entries sz old new =
     fold (\<lambda>i t. if fd_array old ! i \<noteq> NULL
                  then t\<lparr>fd_array := (fd_array t)[i := fd_array old ! i], fd_flags := (fd_flags t)[i := fd_flags old ! i]\<rparr>
                  else t) [0..<nat sz] new"

definition fdtable_copy :: "fdtable option \<Rightarrow> bool list \<Rightarrow> fdtable option \<times> bool list" where
  "fdtable_copy fdt kz =
     (case fdt of
        None \<Rightarrow> (None, kz)
      | Some old \<Rightarrow>
          if fdt_refcount old \<le> 0 then (None, kz)
          else let sz = int32_of (uint (max_fds old)) in
            case fdtable_alloc kz of
              (None, kz1) \<Rightarrow> (None, kz1)
            | (Some new, kz1) \<Rightarrow>
                if sz > int FDTABLE_INIT_SIZE then
                  (case fdtable_expand new (word_of_int sz) kz1 of
                     (err, new1, kz2) \<Rightarrow>
                       if err < 0 then (None, kz2)
                       else (Some ((copy_entries sz old new1)\<lparr>fdt_nextfd := fdt_nextfd old\<rparr>), kz2))
                else (Some ((copy_entries sz old new)\<lparr>fdt_nextfd := fdt_nextfd old\<rparr>), kz1))"

text \<open>\<^verbatim>\<open>__find_next_fd\<close> from the index \<open>i\<close>; the result is the \<^verbatim>\<open>int32\<close> of the index.\<close>

definition fd_free :: "fdtable \<Rightarrow> nat \<Rightarrow> bool" where
  "fd_free t i \<longleftrightarrow> fd_array t ! i = NULL \<and> fd_flags t ! i AND FD_ALLOCATED = 0"

function find_next_fd :: "fdtable \<Rightarrow> nat \<Rightarrow> int" where
  "find_next_fd t i =
     (if i < unat (max_fds t) then
        if fd_free t i then int32_of (int i) else find_next_fd t (i + 1)
      else - 1)"
  by pat_completeness auto
termination
  by (relation "measure (\<lambda>(t, i). unat (max_fds t) - i)") auto

declare find_next_fd.simps [simp del]

definition take_fd :: "fdtable \<Rightarrow> int \<Rightarrow> u32 \<Rightarrow> fdtable" where
  "take_fd t fd flags =
     t\<lparr>fd_array := (fd_array t)[nat fd := NULL], fd_flags := (fd_flags t)[nat fd := flags OR FD_ALLOCATED],
       fdt_nextfd := word_of_int (fd + 1)\<rparr>"

definition fdtable_allocFd :: "fdtable option \<Rightarrow> u32 \<Rightarrow> bool list \<Rightarrow> int \<times> fdtable option \<times> bool list" where
  "fdtable_allocFd fdt flags kz =
     (case fdt of
        None \<Rightarrow> (- EINVAL, None, kz)
      | Some t \<Rightarrow>
          let fd0 = find_next_fd t (unat (fdt_nextfd t));
              fd1 = (if fd0 < 0 then find_next_fd t 0 else fd0)
          in if fd1 < 0 then
               (case fdtable_expand t (max_fds t * 2) kz of
                  (err, t1, kz1) \<Rightarrow>
                    if err < 0 then (- EMFILE, Some t1, kz1)
                    else let fd2 = find_next_fd t1 (unat (fdt_nextfd t1))
                         in if fd2 \<ge> 0 then (fd2, Some (take_fd t1 fd2 flags), kz1) else (fd2, Some t1, kz1))
             else (fd1, Some (take_fd t fd1 flags), kz))"

text \<open>\<^verbatim>\<open>fdtable_closeFd\<close>; the reference is given back after the table has been changed.\<close>

definition fdtable_closeFd :: "fops \<Rightarrow> fdtable option \<Rightarrow> u64 \<Rightarrow> vfs \<Rightarrow> (fdtable option \<times> vfs) outcome" where
  "fdtable_closeFd fops fdt fd s =
     (case fdt of
        None \<Rightarrow> Return (None, s)
      | Some t \<Rightarrow>
          if fd \<ge> ucast (max_fds t) then Return (Some t, s)
          else let i = unat fd;
                   p = fd_array t ! i;
                   t1 = (if p \<noteq> NULL
                         then t\<lparr>fd_array := (fd_array t)[i := NULL], fd_flags := (fd_flags t)[i := 0],
                                fdt_nextfd := (if fd < ucast (fdt_nextfd t) then ucast fd else fdt_nextfd t)\<rparr>
                         else t);
                   t2 = t1\<lparr>fd_flags := (fd_flags t1)[i := fd_flags t1 ! i AND NOT FD_ALLOCATED]\<rparr>
               in if p \<noteq> NULL
                  then bind_outcome (file_unref fops p s) (\<lambda>(r, s1). Return (Some t2, s1))
                  else Return (Some t2, s))"

definition fdtable_installFd :: "fdtable option \<Rightarrow> u64 \<Rightarrow> ptr \<Rightarrow> int \<times> fdtable option" where
  "fdtable_installFd fdt fd p =
     (case fdt of
        None \<Rightarrow> (- EINVAL, None)
      | Some t \<Rightarrow>
          if p = NULL \<or> fd \<ge> ucast (max_fds t) then (- EINVAL, Some t)
          else if fd_flags t ! unat fd AND FD_ALLOCATED = 0 then (- EBADF, Some t)
          else (int32_of (uint fd), Some (t\<lparr>fd_array := (fd_array t)[unat fd := p]\<rparr>)))"

text \<open>\<^verbatim>\<open>fdtable_getFile\<close>: the file, with a reference taken.\<close>

definition fdtable_getFile :: "fdtable option \<Rightarrow> u64 \<Rightarrow> vfs \<Rightarrow> (ptr \<times> vfs) outcome" where
  "fdtable_getFile fdt fd s =
     (case fdt of
        None \<Rightarrow> Return (NULL, s)
      | Some t \<Rightarrow>
          if fd \<ge> ucast (max_fds t) then Return (NULL, s)
          else bind_outcome (file_ref (fd_array t ! unat fd) s) (\<lambda>(r, s1). Return (fd_array t ! unat fd, s1)))"

definition fdtable_setFdFlags :: "fdtable option \<Rightarrow> u64 \<Rightarrow> u32 \<Rightarrow> int \<times> fdtable option" where
  "fdtable_setFdFlags fdt fd flags =
     (case fdt of
        None \<Rightarrow> (- EINVAL, None)
      | Some t \<Rightarrow>
          if fd \<ge> ucast (max_fds t) then (- EINVAL, Some t)
          else if fd_array t ! unat fd = NULL then (- EBADF, Some t)
          else (0, Some (t\<lparr>fd_flags := (fd_flags t)[unat fd := flags]\<rparr>)))"

definition fdtable_getFdFlags :: "fdtable option \<Rightarrow> u64 \<Rightarrow> u32" where
  "fdtable_getFdFlags fdt fd =
     (case fdt of
        None \<Rightarrow> 0
      | Some t \<Rightarrow>
          if fd \<ge> ucast (max_fds t) then 0
          else if fd_array t ! unat fd \<noteq> NULL then fd_flags t ! unat fd else 0)"

text \<open>
  \<^verbatim>\<open>do_close\<close> and \<^verbatim>\<open>do_lseek\<close>, on the table of the current task; the \<^verbatim>\<open>int32\<close> descriptor is converted
  to \<^verbatim>\<open>uint64\<close>, so a negative one is beyond every table.
\<close>

definition do_close :: "fops \<Rightarrow> fdtable option \<Rightarrow> int \<Rightarrow> vfs \<Rightarrow> (int \<times> fdtable option \<times> vfs) outcome" where
  "do_close fops fdt fd s =
     bind_outcome (fdtable_getFile fdt (word_of_int fd) s)
       (\<lambda>(filp, s1).
          if filp = NULL then Return (- EBADF, fdt, s1)
          else bind_outcome (fdtable_closeFd fops fdt (word_of_int fd) s1)
            (\<lambda>(fdt1, s2). bind_outcome (file_unref fops filp s2) (\<lambda>(r, s3). Return (r, fdt1, s3))))"

definition do_lseek :: "fops \<Rightarrow> fdtable option \<Rightarrow> int \<Rightarrow> int \<Rightarrow> int \<Rightarrow> vfs \<Rightarrow> (int \<times> vfs) outcome" where
  "do_lseek fops fdt fd offset whence s =
     bind_outcome (fdtable_getFile fdt (word_of_int fd) s)
       (\<lambda>(filp, s1).
          if filp = NULL then Return (- EBADF, s1)
          else bind_outcome (file_llseek fops filp offset whence s1)
            (\<lambda>(pos, s2). bind_outcome (file_unref fops filp s2) (\<lambda>(r, s3). Return (pos, s3))))"

section \<open>Invariant and abstraction\<close>

definition fdt_inv :: "fdtable \<Rightarrow> bool" where
  "fdt_inv t \<longleftrightarrow> length (fd_array t) = unat (max_fds t) \<and> length (fd_flags t) = unat (max_fds t) \<and>
     (\<exists>k. 4 \<le> k \<and> k \<le> 31 \<and> unat (max_fds t) = 2 ^ k) \<and> unat (fdt_nextfd t) \<le> unat (max_fds t) \<and>
     (\<forall>i < unat (fdt_nextfd t). \<not> fd_free t i)"

lemma fdt_inv_max:
  assumes "fdt_inv t"
  shows "0 < unat (max_fds t)" "unat (max_fds t) \<le> 2 ^ 31" "16 \<le> unat (max_fds t)"
proof -
  obtain k where k: "4 \<le> k" "k \<le> 31" "unat (max_fds t) = 2 ^ k" using assms by (auto simp: fdt_inv_def)
  then show "0 < unat (max_fds t)" by simp
  have "(2::nat) ^ 4 \<le> 2 ^ k" by (rule power_increasing) (use k in auto)
  then show "16 \<le> unat (max_fds t)" by (simp add: k(3))
  show "unat (max_fds t) \<le> 2 ^ 31" unfolding k(3) by (rule power_increasing) (use k in auto)
qed

text \<open>The descriptors in use: each has a file (\<^verbatim>\<open>NULL\<close> while it is only reserved) and flags.\<close>

definition fd_view :: "fdtable \<Rightarrow> nat \<Rightarrow> (ptr \<times> u32) option" where
  "fd_view t i = (if i < unat (max_fds t) \<and> \<not> fd_free t i then Some (fd_array t ! i, fd_flags t ! i) else None)"

lemma or_allocated [simp]: "(flags OR FD_ALLOCATED) AND FD_ALLOCATED = FD_ALLOCATED"
  by (simp add: word_bw_assocs bit_eq_iff bit_simps)

lemma find_next_fd_cases:
  assumes "unat (max_fds t) \<le> 2 ^ 31"
  shows "(find_next_fd t i = - 1 \<and> (\<forall>j. i \<le> j \<and> j < unat (max_fds t) \<longrightarrow> \<not> fd_free t j)) \<or>
    (\<exists>j. find_next_fd t i = int j \<and> i \<le> j \<and> j < unat (max_fds t) \<and> fd_free t j \<and> (\<forall>k. i \<le> k \<and> k < j \<longrightarrow> \<not> fd_free t k))"
  using assms
proof (induction t i rule: find_next_fd.induct)
  case (1 t i)
  show ?case
  proof (cases "i < unat (max_fds t)")
    case False
    then show ?thesis by (intro disjI1) (auto simp: find_next_fd.simps)
  next
    case lt: True
    show ?thesis
    proof (cases "fd_free t i")
      case True
      have "int32_of (int i) = int i" using lt 1(2) by (intro int32_of_id) auto
      with True lt have "find_next_fd t i = int i" by (simp add: find_next_fd.simps)
      with True lt show ?thesis by auto
    next
      case False
      with lt have eq: "find_next_fd t i = find_next_fd t (i + 1)" by (simp add: find_next_fd.simps [of t i])
      have ext: "i \<le> k \<and> k < n \<longrightarrow> \<not> fd_free t k" if "i + 1 \<le> k \<and> k < n \<longrightarrow> \<not> fd_free t k" for k n
        using that False by (cases "k = i") auto
      from 1(1) [OF lt False 1(2)] show ?thesis
      proof
        assume "\<exists>j. find_next_fd t (i + 1) = int j \<and> i + 1 \<le> j \<and> j < unat (max_fds t) \<and> fd_free t j \<and>
          (\<forall>k. i + 1 \<le> k \<and> k < j \<longrightarrow> \<not> fd_free t k)"
        then obtain j where "find_next_fd t (i + 1) = int j" "i + 1 \<le> j" "j < unat (max_fds t)" "fd_free t j"
          "\<forall>k. i \<le> k \<and> k < j \<longrightarrow> \<not> fd_free t k" using ext by blast
        then show ?thesis by (intro disjI2 exI [of _ j]) (simp add: eq)
      next
        assume none: "find_next_fd t (i + 1) = - 1 \<and> (\<forall>j. i + 1 \<le> j \<and> j < unat (max_fds t) \<longrightarrow> \<not> fd_free t j)"
        then have "\<forall>j. i \<le> j \<and> j < unat (max_fds t) \<longrightarrow> \<not> fd_free t j" using ext by blast
        with none show ?thesis by (intro disjI1) (simp add: eq)
      qed
    qed
  qed
qed

lemma fdt_inv_expand:
  assumes "fdt_inv t" "fdtable_expand t (max_fds t * 2) kz = (r, t', kz')"
  shows "(r < 0 \<and> t' = t \<and> (unat (max_fds t) = 2 ^ 31 \<or> \<not> (\<exists>k. kz = True # True # k))) \<or>
    (r = 0 \<and> unat (max_fds t') = 2 * unat (max_fds t) \<and> unat (max_fds t) < 2 ^ 31 \<and> fdt_nextfd t' = fdt_nextfd t \<and>
     fd_array t' = fd_array t @ replicate (unat (max_fds t)) NULL \<and> fd_flags t' = fd_flags t @ replicate (unat (max_fds t)) 0)"
proof (cases "unat (max_fds t) < 2 ^ 31")
  case True
  then have u: "unat (max_fds t * 2) = 2 * unat (max_fds t)" by (simp add: unat_word_ariths)
  with assms True show ?thesis
    by (cases kz rule: kalloc.cases)
       (auto simp: fdtable_expand_def fdt_inv_def word_le_nat_alt split: if_splits prod.splits elim: kalloc.elims)
next
  case False
  with fdt_inv_max(2) [OF assms(1)] have m: "unat (max_fds t) = 2 ^ 31" by simp
  then have "unat (max_fds t * 2) = 0" by (simp add: unat_word_ariths)
  with assms m show ?thesis by (auto simp: fdtable_expand_def word_le_nat_alt)
qed

text \<open>Taking the descriptor \<open>j\<close>, when it is free and all below it are in use.\<close>

lemma take_fd_ok:
  assumes inv: "fdt_inv t" and j: "j < unat (max_fds t)" "fd_free t j" "\<forall>k < j. \<not> fd_free t k"
  shows "fdt_inv (take_fd t (int j) flags)" "fd_view (take_fd t (int j) flags) = (fd_view t)(j \<mapsto> (NULL, flags OR FD_ALLOCATED))"
proof -
  let ?t = "take_fd t (int j) flags"
  have free: "fd_free ?t i \<longleftrightarrow> i \<noteq> j \<and> fd_free t i" if "i < unat (max_fds t)" for i
    using that inv j by (auto simp: fd_free_def take_fd_def fdt_inv_def nth_list_update)
  have "word_of_int (int j + 1) = (of_nat (j + 1) :: u32)" by simp
  then have "unat (word_of_int (int j + 1) :: u32) = j + 1"
    using j fdt_inv_max(2) [OF inv] by (simp only: unat_of_nat) simp
  then have nx: "unat (fdt_nextfd ?t) = j + 1" by (simp add: take_fd_def)
  have m: "max_fds ?t = max_fds t" by (simp add: take_fd_def)
  have "\<not> fd_free ?t i" if "i < j + 1" for i using free [of i] that j by (cases "i = j") auto
  moreover have "length (fd_array ?t) = unat (max_fds t)" "length (fd_flags ?t) = unat (max_fds t)"
    using inv by (simp_all add: take_fd_def fdt_inv_def)
  ultimately show "fdt_inv ?t" using inv j by (simp add: fdt_inv_def m nx)
  show "fd_view ?t = (fd_view t)(j \<mapsto> (NULL, flags OR FD_ALLOCATED))"
  proof
    fix i show "fd_view ?t i = ((fd_view t)(j \<mapsto> (NULL, flags OR FD_ALLOCATED))) i"
      using inv j free [of i] by (auto simp: fd_view_def m) (auto simp: take_fd_def fdt_inv_def)
  qed
qed

lemma fd_free_append:
  assumes "fdt_inv t" "unat (max_fds t') = 2 * unat (max_fds t)"
    "fd_array t' = fd_array t @ replicate (unat (max_fds t)) NULL" "fd_flags t' = fd_flags t @ replicate (unat (max_fds t)) 0"
  shows "i < unat (max_fds t') \<Longrightarrow> fd_free t' i \<longleftrightarrow> unat (max_fds t) \<le> i \<or> fd_free t i"
    "fd_view t' = fd_view t"
proof -
  show free: "fd_free t' i \<longleftrightarrow> unat (max_fds t) \<le> i \<or> fd_free t i" if "i < unat (max_fds t')" for i
    using assms that by (auto simp: fd_free_def fdt_inv_def nth_append)
  show "fd_view t' = fd_view t"
  proof
    fix i show "fd_view t' i = fd_view t i"
      using free [of i] assms by (auto simp: fd_view_def fdt_inv_def nth_append)
  qed
qed

lemma fdt_inv_double:
  assumes inv: "fdt_inv t" and d: "unat (max_fds t') = 2 * unat (max_fds t)" "unat (max_fds t) < 2 ^ 31" "fdt_nextfd t' = fdt_nextfd t"
    "fd_array t' = fd_array t @ replicate (unat (max_fds t)) NULL" "fd_flags t' = fd_flags t @ replicate (unat (max_fds t)) 0"
  shows "fdt_inv t'"
proof -
  obtain k where k: "4 \<le> k" "k \<le> 31" "unat (max_fds t) = 2 ^ k" using inv by (auto simp: fdt_inv_def)
  with d(2) have "k < 31" by (metis le_neq_implies_less less_irrefl)
  with k d(1) have "\<exists>k. 4 \<le> k \<and> k \<le> 31 \<and> unat (max_fds t') = 2 ^ k" by (intro exI [of _ "Suc k"]) simp
  moreover have "\<forall>i < unat (fdt_nextfd t). \<not> fd_free t' i"
    using fd_free_append(1) [OF inv d(1,4,5)] inv d(1) by (auto simp: fdt_inv_def)
  ultimately show ?thesis using inv d unfolding fdt_inv_def by simp
qed

lemma fdtable_allocFd_ok:
  assumes inv: "fdt_inv t"
  shows "\<exists>r t' kz'. fdtable_allocFd (Some t) flags kz = (r, Some t', kz') \<and> fdt_inv t' \<and>
    (if 0 \<le> r then fd_view t (nat r) = None \<and> (\<forall>i < nat r. fd_view t i \<noteq> None) \<and>
                   fd_view t' = (fd_view t)(nat r \<mapsto> (NULL, flags OR FD_ALLOCATED))
     else r = - EMFILE \<and> t' = t \<and> (\<forall>i < unat (max_fds t). fd_view t i \<noteq> None) \<and>
          (unat (max_fds t) = 2 ^ 31 \<or> \<not> (\<exists>k. kz = True # True # k)))"
proof -
  note m = fdt_inv_max(2) [OF inv]
  have low: "\<forall>i < unat (fdt_nextfd t). \<not> fd_free t i"
    using inv by (simp add: fdt_inv_def)
  let ?n = "unat (fdt_nextfd t)"
  from find_next_fd_cases [OF m, of ?n] show ?thesis
  proof
    assume "\<exists>j. find_next_fd t ?n = int j \<and> ?n \<le> j \<and> j < unat (max_fds t) \<and> fd_free t j \<and> (\<forall>k. ?n \<le> k \<and> k < j \<longrightarrow> \<not> fd_free t k)"
    then obtain j where j: "find_next_fd t ?n = int j" "j < unat (max_fds t)" "fd_free t j" "\<forall>k. ?n \<le> k \<and> k < j \<longrightarrow> \<not> fd_free t k" by blast
    then have below: "\<forall>k < j. \<not> fd_free t k" using low by (meson not_le)
    have "fdtable_allocFd (Some t) flags kz = (int j, Some (take_fd t (int j) flags), kz)"
      using j by (simp add: fdtable_allocFd_def Let_def)
    moreover have "fd_view t j = None" "\<forall>i < j. fd_view t i \<noteq> None" using j below by (auto simp: fd_view_def)
    ultimately show ?thesis using take_fd_ok [OF inv j(2,3) below] by simp
  next
    assume none: "find_next_fd t ?n = - 1 \<and> (\<forall>j. ?n \<le> j \<and> j < unat (max_fds t) \<longrightarrow> \<not> fd_free t j)"
    then have full: "\<forall>i < unat (max_fds t). \<not> fd_free t i" using low by (meson not_le)
    with find_next_fd_cases [OF m, of 0] have z: "find_next_fd t 0 = - 1" by auto
    obtain r t1 kz1 where e: "fdtable_expand t (max_fds t * 2) kz = (r, t1, kz1)" by (cases "fdtable_expand t (max_fds t * 2) kz") auto
    have busy: "\<forall>i < unat (max_fds t). fd_view t i \<noteq> None" using full by (simp add: fd_view_def)
    from fdt_inv_expand [OF inv e] show ?thesis
    proof
      assume f: "r < 0 \<and> t1 = t \<and> (unat (max_fds t) = 2 ^ 31 \<or> \<not> (\<exists>k. kz = True # True # k))"
      then have "fdtable_allocFd (Some t) flags kz = (- EMFILE, Some t, kz1)"
        using none z e by (simp add: fdtable_allocFd_def Let_def)
      with f inv busy show ?thesis by simp
    next
      assume g: "r = 0 \<and> unat (max_fds t1) = 2 * unat (max_fds t) \<and> unat (max_fds t) < 2 ^ 31 \<and> fdt_nextfd t1 = fdt_nextfd t \<and>
        fd_array t1 = fd_array t @ replicate (unat (max_fds t)) NULL \<and> fd_flags t1 = fd_flags t @ replicate (unat (max_fds t)) 0"
      let ?m = "unat (max_fds t)"
      have free: "fd_free t1 i \<longleftrightarrow> ?m \<le> i" if "i < 2 * ?m" for i
        using fd_free_append(1) [OF inv, of t1 i] g full that by (metis not_le)
      have inv1: "fdt_inv t1" by (rule fdt_inv_double [OF inv]) (use g free in auto)
      have pos: "0 < ?m" "?n \<le> ?m" using inv fdt_inv_max [OF inv] by (simp_all add: fdt_inv_def)
      from find_next_fd_cases [OF fdt_inv_max(2) [OF inv1], of ?n] have "find_next_fd t1 ?n = int ?m"
      proof
        assume "find_next_fd t1 ?n = - 1 \<and> (\<forall>j. ?n \<le> j \<and> j < unat (max_fds t1) \<longrightarrow> \<not> fd_free t1 j)"
        then have "\<not> fd_free t1 ?m" using g pos by auto
        with free [of ?m] pos show ?thesis by simp
      next
        assume "\<exists>j. find_next_fd t1 ?n = int j \<and> ?n \<le> j \<and> j < unat (max_fds t1) \<and> fd_free t1 j \<and> (\<forall>k. ?n \<le> k \<and> k < j \<longrightarrow> \<not> fd_free t1 k)"
        then obtain j where j: "find_next_fd t1 ?n = int j" "j < 2 * ?m" "fd_free t1 j" "\<forall>k. ?n \<le> k \<and> k < j \<longrightarrow> \<not> fd_free t1 k" using g by auto
        then have "?m \<le> j" "\<not> ?m < j" using free [of j] free [of ?m] pos by auto
        with j show ?thesis by simp
      qed
      then have "fdtable_allocFd (Some t) flags kz = (int ?m, Some (take_fd t1 (int ?m) flags), kz1)"
        using none z e g by (simp add: fdtable_allocFd_def Let_def)
      moreover have "fd_view t1 = fd_view t" using fd_free_append(2) [OF inv, of t1] g by blast
      moreover have "fd_view t ?m = None" by (simp add: fd_view_def)
      moreover have "?m < unat (max_fds t1)" "fd_free t1 ?m" "\<forall>k < ?m. \<not> fd_free t1 k" using g pos free by auto
      ultimately show ?thesis using take_fd_ok [OF inv1, of ?m flags] busy by simp
    qed
  qed
qed

lemma fd_less: "fd < ucast (max_fds t) \<longleftrightarrow> unat fd < unat (max_fds t)" for fd :: u64
  by (simp add: word_less_nat_alt)

lemma fdtable_installFd_ok:
  assumes inv: "fdt_inv t" and ins: "fdtable_installFd (Some t) fd p = (r, Some t')"
  shows "fdt_inv t'" "0 \<le> r \<Longrightarrow> fd_view t' = (fd_view t)(unat fd \<mapsto> (p, fd_flags t ! unat fd))"
proof -
  have "fdt_inv t' \<and> (0 \<le> r \<longrightarrow> fd_view t' = (fd_view t)(unat fd \<mapsto> (p, fd_flags t ! unat fd)))"
  proof (cases "p = NULL \<or> \<not> unat fd < unat (max_fds t) \<or> fd_flags t ! unat fd AND FD_ALLOCATED = 0")
    case True
    with ins inv show ?thesis by (auto simp: fdtable_installFd_def fd_less simp flip: not_less split: if_splits)
  next
    case False
    with ins have t': "t' = t\<lparr>fd_array := (fd_array t)[unat fd := p]\<rparr>"
      by (auto simp: fdtable_installFd_def fd_less simp flip: not_less)
    have free: "fd_free t' i \<longleftrightarrow> fd_free t i" if "i < unat (max_fds t)" for i
      using that inv False by (auto simp: fd_free_def t' fdt_inv_def nth_list_update)
    have "fd_view t' = (fd_view t)(unat fd \<mapsto> (p, fd_flags t ! unat fd))"
    proof
      fix i show "fd_view t' i = ((fd_view t)(unat fd \<mapsto> (p, fd_flags t ! unat fd))) i"
        using free [of i] False inv by (auto simp: fd_view_def t' fd_free_def fdt_inv_def)
    qed
    moreover have "fdt_inv t'" using inv free unfolding fdt_inv_def t' by simp
    ultimately show ?thesis by simp
  qed
  then show "fdt_inv t'" "0 \<le> r \<Longrightarrow> fd_view t' = (fd_view t)(unat fd \<mapsto> (p, fd_flags t ! unat fd))" by auto
qed

lemma fdtable_setFdFlags_ok:
  assumes inv: "fdt_inv t" and set: "fdtable_setFdFlags (Some t) fd flags = (r, Some t')"
  shows "fdt_inv t'"
proof (cases "fd_array t ! unat fd = NULL \<or> \<not> unat fd < unat (max_fds t)")
  case True
  with set inv show ?thesis by (auto simp: fdtable_setFdFlags_def fd_less simp flip: not_less split: if_splits)
next
  case False
  with set have t': "t' = t\<lparr>fd_flags := (fd_flags t)[unat fd := flags]\<rparr>"
    by (auto simp: fdtable_setFdFlags_def fd_less simp flip: not_less)
  have free: "fd_free t' i \<longleftrightarrow> fd_free t i" if "i < unat (max_fds t)" for i
    using that inv False by (auto simp: fd_free_def t' fdt_inv_def nth_list_update)
  show ?thesis using inv free unfolding fdt_inv_def t' by simp
qed

text \<open>The table after a descriptor with a file has been closed.\<close>

lemma fdtable_closeFd_ok:
  assumes inv: "fdt_inv t" and fd: "unat fd < unat (max_fds t)" and f: "fd_array t ! unat fd = p" "p \<noteq> NULL"
    and unref: "file_unref fops p s = Return (r, s')"
  shows "\<exists>t'. fdtable_closeFd fops (Some t) fd s = Return (Some t', s') \<and> fdt_inv t' \<and> fd_view t' = (fd_view t)(unat fd := None) \<and>
    fdt_refcount t' = fdt_refcount t"
proof -
  let ?i = "unat fd"
  let ?nx = "if fd < ucast (fdt_nextfd t) then ucast fd else fdt_nextfd t"
  let ?t = "t\<lparr>fd_array := (fd_array t)[?i := NULL], fd_flags := (fd_flags t)[?i := 0], fdt_nextfd := ?nx\<rparr>"
  have i: "?i < length (fd_flags t)" "?i < length (fd_array t)" using inv fd by (simp_all add: fdt_inv_def)
  have eq: "fdtable_closeFd fops (Some t) fd s = Return (Some ?t, s')"
    using fd_less [of fd t, THEN iffD2, OF fd] f unref i by (simp add: fdtable_closeFd_def Let_def flip: not_less)
  have "unat (ucast fd :: u32) = ?i" using fd fdt_inv_max(2) [OF inv] by (intro unat_ucast_64_32) simp
  then have nx: "unat ?nx = min ?i (unat (fdt_nextfd t))" by (auto simp: word_less_nat_alt)
  have free: "fd_free ?t j \<longleftrightarrow> j = ?i \<or> fd_free t j" if "j < unat (max_fds t)" for j
    using that i inv by (auto simp: fd_free_def fdt_inv_def nth_list_update)
  have "fdt_inv ?t" unfolding fdt_inv_def
  proof (intro conjI allI impI)
    fix j assume "j < unat (fdt_nextfd ?t)"
    then have "j < ?i" "j < unat (fdt_nextfd t)" using nx by simp_all
    with free [of j] inv fd show "\<not> fd_free ?t j" by (auto simp: fdt_inv_def)
  qed (use inv nx in \<open>auto simp: fdt_inv_def\<close>)
  moreover have "fd_view ?t = (fd_view t)(?i := None)"
  proof
    fix j show "fd_view ?t j = ((fd_view t)(?i := None)) j"
      using free [of j] i by (auto simp: fd_view_def)
  qed
  ultimately show ?thesis using eq by simp
qed

section \<open>Reachable tables\<close>

text \<open>
  The tables that arise from a new one when files are installed in descriptors that were
  allocated, and descriptors are closed that have a file.
\<close>

inductive fd_reach :: "fdtable \<Rightarrow> bool" where
  new: "fdtable_alloc kz = (Some t, kz') \<Longrightarrow> fd_reach t"
| alloc: "fd_reach t \<Longrightarrow> fdtable_allocFd (Some t) flags kz = (r, Some t', kz') \<Longrightarrow> fd_reach t'"
| install: "fd_reach t \<Longrightarrow> fdtable_installFd (Some t) fd p = (r, Some t') \<Longrightarrow> fd_reach t'"
| flags: "fd_reach t \<Longrightarrow> fdtable_setFdFlags (Some t) fd flags = (r, Some t') \<Longrightarrow> fd_reach t'"
| close: "fd_reach t \<Longrightarrow> fd < ucast (max_fds t) \<Longrightarrow> fd_array t ! unat fd \<noteq> NULL \<Longrightarrow>
    fdtable_closeFd fops (Some t) fd s = Return (Some t', s') \<Longrightarrow> fd_reach t'"
| acquire: "fd_reach t \<Longrightarrow> fdtable_acquire (Some t) kz = (Some t', kz') \<Longrightarrow> fd_reach t'"
| unref: "fd_reach t \<Longrightarrow> fdtable_unref (Some t) = Return (r, Some t') \<Longrightarrow> fd_reach t'"

lemma fdt_inv_alloc: "fdtable_alloc kz = (Some t, kz') \<Longrightarrow> fdt_inv t"
  by (auto simp: fdtable_alloc_def fdt_inv_def intro!: exI [of _ "4 :: nat"] split: prod.splits if_splits)

lemma fdt_inv_refcount: "fdt_inv (t\<lparr>fdt_refcount := c\<rparr>) \<longleftrightarrow> fdt_inv t"
  by (simp add: fdt_inv_def fd_free_def)

lemma fd_reach_inv: "fd_reach t \<Longrightarrow> fdt_inv t"
proof (induction rule: fd_reach.induct)
  case (new kz t kz')
  then show ?case by (rule fdt_inv_alloc)
next
  case (alloc t flags kz r t' kz')
  then show ?case using fdtable_allocFd_ok [of t flags kz] by auto
next
  case (install t fd p r t')
  show ?case by (rule fdtable_installFd_ok(1) [OF install.IH install.hyps(2)])
next
  case (flags t fd flags r t')
  show ?case by (rule fdtable_setFdFlags_ok [OF flags.IH flags.hyps(2)])
next
  case (close t fd fops s t' s')
  from close.hyps(4) close.hyps(2,3) obtain r where "file_unref fops (fd_array t ! unat fd) s = Return (r, s')"
    by (auto simp: fdtable_closeFd_def Let_def bind_outcome_Return_iff split: if_splits)
  from fdtable_closeFd_ok [OF close.IH _ refl close.hyps(3) this] close.hyps(2,4) show ?case by (auto simp: fd_less)
next
  case (acquire t kz t' kz')
  then show ?case by (auto simp: fdtable_acquire_def fdt_inv_refcount split: if_splits)
next
  case (unref t r t')
  then show ?case by (auto simp: fdtable_unref_def fdt_inv_refcount Let_def split: if_splits)
qed

section \<open>Closing and forking\<close>

lemma file_unref_eq:
  assumes p: "\<not> PTR_IS_INVALID p" and f: "files s p = Some f" and c: "0 < f_refcount f" "f_refcount f < 2 ^ 31"
    and m: "f_op_method fops op_release f = Return None"
  shows "file_unref fops p s =
    (if f_refcount f = 1
     then Return (0, snd (path_destroy (f_path f) (s\<lparr>files := (files s)(p := None)\<rparr>)))
     else Return (- EBADF, put_file p (f\<lparr>f_refcount := f_refcount f - 1\<rparr>) s))"
proof -
  have c32: "int32_of (f_refcount f - 1) = f_refcount f - 1" using c by (intro int32_of_id) auto
  have m': "f_op_method fops op_release (f\<lparr>f_refcount := k\<rparr>) = Return None" for k using m by (simp add: f_op_method_def split: if_splits)
  have "p \<noteq> NULL" using p by (simp add: PTR_IS_INVALID_def)
  then show ?thesis using p f m'
    by (simp add: file_unref_def file_at_def Let_def c32 file_free_def put_file_def path_destroy_def)
qed

lemma fd_word: "0 \<le> fd \<Longrightarrow> nat fd < unat (max_fds t) \<Longrightarrow> unat (word_of_int fd :: u64) = nat fd"
proof -
  assume fd: "0 \<le> fd" "nat fd < unat (max_fds t)"
  have "unat (max_fds t) < 2 ^ LENGTH(32)" by (rule unsigned_less)
  with fd have "fd < 2 ^ 64" by simp
  with fd show ?thesis by (simp add: unsigned_of_int take_bit_int_eq_self)
qed

text \<open>The outcome of \<^verbatim>\<open>do_close\<close> for a file with \<open>c\<close> references.\<close>

definition closed_vfs :: "ptr \<Rightarrow> file_struct \<Rightarrow> vfs \<Rightarrow> int \<times> vfs" where
  "closed_vfs p f s =
     (if f_refcount f = 1 then (0, snd (path_destroy (f_path f) (s\<lparr>files := (files s)(p := None)\<rparr>)))
      else (- EBADF, put_file p (f\<lparr>f_refcount := f_refcount f - 1\<rparr>) s))"

lemma do_close_eq:
  assumes fd: "0 \<le> fd" "nat fd < unat (max_fds t)" "fd_array t ! nat fd = p" and p: "\<not> PTR_IS_INVALID p"
    and f: "files s p = Some f" "0 < f_refcount f" "f_refcount f < 2 ^ 31 - 1" "f_op_method fops op_release f = Return None"
  shows "\<exists>s1 t'. file_unref fops p (put_file p (f\<lparr>f_refcount := f_refcount f + 1\<rparr>) s) = Return (- EBADF, s1) \<and>
    fdtable_closeFd fops (Some t) (word_of_int fd) (put_file p (f\<lparr>f_refcount := f_refcount f + 1\<rparr>) s) = Return (Some t', s1) \<and>
    do_close fops (Some t) fd s = Return (fst (closed_vfs p f s), Some t', snd (closed_vfs p f s))"
proof -
  let ?f1 = "f\<lparr>f_refcount := f_refcount f + 1\<rparr>"
  let ?s0 = "put_file p ?f1 s" let ?s1 = "put_file p f s"
  have pn: "p \<noteq> NULL" using p by (simp add: PTR_IS_INVALID_def)
  have u: "unat (word_of_int fd :: u64) = nat fd" by (rule fd_word [OF fd(1,2)])
  have lt: "(word_of_int fd :: u64) < ucast (max_fds t)" using fd u by (simp add: fd_less)
  have "int32_of (f_refcount f + 1) = f_refcount f + 1" using f by (intro int32_of_id) auto
  then have g: "fdtable_getFile (Some t) (word_of_int fd) s = Return (p, ?s0)"
    using lt u fd(3) pn f by (simp add: fdtable_getFile_def file_ref_def file_at_def flip: not_less)
  have m1: "f_op_method fops op_release ?f1 = Return None" using f(4) by (simp add: f_op_method_def split: if_splits)
  have r1: "file_unref fops p ?s0 = Return (- EBADF, ?s1)"
    using file_unref_eq [OF p _ _ _ m1, of ?s0] f by (simp add: put_file_def)
  have c: "fdtable_closeFd fops (Some t) (word_of_int fd) ?s0 = Return (Some t', ?s1)"
    if "t' = (let t1 = t\<lparr>fd_array := (fd_array t)[nat fd := NULL], fd_flags := (fd_flags t)[nat fd := 0],
            fdt_nextfd := (if (word_of_int fd :: u64) < ucast (fdt_nextfd t) then ucast (word_of_int fd :: u64) else fdt_nextfd t)\<rparr>
      in t1\<lparr>fd_flags := (fd_flags t1)[nat fd := fd_flags t1 ! nat fd AND NOT FD_ALLOCATED]\<rparr>)" for t'
    using lt u fd(3) pn r1 unfolding that by (simp add: fdtable_closeFd_def Let_def flip: not_less)
  from c [OF refl] obtain t' where c': "fdtable_closeFd fops (Some t) (word_of_int fd) ?s0 = Return (Some t', ?s1)" by blast
  have "file_unref fops p ?s1 = Return (fst (closed_vfs p f s), snd (closed_vfs p f s))"
    using file_unref_eq [OF p _ f(2) _ f(4), of ?s1] f
    by (simp add: closed_vfs_def put_file_def path_destroy_def Let_def)
  with g c' pn r1 show ?thesis by (intro exI [of _ ?s1] exI [of _ t']) (simp add: do_close_def split: prod.split)
qed

lemma copy_entries_nth:
  assumes "length (fd_array new) = n" "length (fd_flags new) = n" "k \<le> n"
  shows "length (fd_array (copy_entries (int k) old new)) = n \<and> length (fd_flags (copy_entries (int k) old new)) = n \<and>
    max_fds (copy_entries (int k) old new) = max_fds new \<and>
    (\<forall>i < n. fd_array (copy_entries (int k) old new) ! i =
       (if i < k \<and> fd_array old ! i \<noteq> NULL then fd_array old ! i else fd_array new ! i) \<and>
     fd_flags (copy_entries (int k) old new) ! i =
       (if i < k \<and> fd_array old ! i \<noteq> NULL then fd_flags old ! i else fd_flags new ! i))"
  using assms(3)
proof (induction k)
  case 0
  then show ?case using assms by (simp add: copy_entries_def)
next
  case (Suc k)
  let ?c = "copy_entries (int k) old new"
  have step: "copy_entries (int (Suc k)) old new =
    (if fd_array old ! k \<noteq> NULL
     then ?c\<lparr>fd_array := (fd_array ?c)[k := fd_array old ! k], fd_flags := (fd_flags ?c)[k := fd_flags old ! k]\<rparr> else ?c)"
    by (simp add: copy_entries_def nat_add_distrib)
  have "\<not> i < k \<Longrightarrow> i < Suc k \<Longrightarrow> i = k" for i by simp
  with Suc show ?case unfolding step by (auto simp: nth_list_update less_Suc_eq)
qed

text \<open>A copy has the files of the original; descriptors that are only reserved are lost.\<close>

lemma fdtable_copy_eq:
  assumes inv: "fdt_inv t" "unat (max_fds t) < 2 ^ 31" and cp: "fdtable_copy (Some t) kz = (Some t', kz')"
  shows "max_fds t' = max_fds t \<and> (\<forall>i < unat (max_fds t). fd_array t' ! i = fd_array t ! i)"
    "fd_view t' i = (case fd_view t i of Some (p, fl) \<Rightarrow> if p = NULL then None else Some (p, fl) | None \<Rightarrow> None)"
proof -
  let ?n = "unat (max_fds t)"
  have "int ?n < int (2 ^ 31)" using inv(2) by (simp only: of_nat_less_iff)
  then have hi: "uint (max_fds t) < 2 ^ 31" by simp
  have "- (2 ^ 31) \<le> uint (max_fds t)" by (rule order_trans [OF _ unsigned_greater_eq]) simp
  from int32_of_id [OF this hi] have sz: "int32_of (uint (max_fds t)) = int ?n" by simp
  have max: "word_of_int (int ?n) = max_fds t" by simp
  have n16: "16 \<le> ?n" by (rule fdt_inv_max(3) [OF inv(1)])
  obtain new0 kz1 where a: "fdtable_alloc kz = (Some new0, kz1)"
    using cp by (auto simp: fdtable_copy_def Let_def split: option.splits prod.splits if_splits)
  then have n0: "fd_array new0 = replicate 16 NULL" "fd_flags new0 = replicate 16 0" "max_fds new0 = 16"
    by (auto simp: fdtable_alloc_def split: prod.splits if_splits)
  obtain new where t': "t' = (copy_entries (int ?n) t new)\<lparr>fdt_nextfd := fdt_nextfd t\<rparr>" and
    new: "fd_array new = replicate ?n NULL" "fd_flags new = replicate ?n 0" "max_fds new = max_fds t"
  proof (cases "16 < ?n")
    case True
    then have gt: "int FDTABLE_INIT_SIZE < int ?n" by (simp only: of_nat_less_iff)
    obtain err new1 kz2 where e: "fdtable_expand new0 (max_fds t) kz1 = (err, new1, kz2)" by (cases "fdtable_expand new0 (max_fds t) kz1") auto
    with cp a gt have r: "\<not> err < 0" "t' = (copy_entries (int ?n) t new1)\<lparr>fdt_nextfd := fdt_nextfd t\<rparr>"
      unfolding fdtable_copy_def option.case sz Let_def max by (simp_all del: of_nat_unat split: if_splits)
    moreover have "fd_array new1 = replicate ?n NULL" "fd_flags new1 = replicate ?n 0" "max_fds new1 = max_fds t"
      using e r(1) n0 True by (auto simp: fdtable_expand_def replicate_add [symmetric] split: prod.splits if_splits)
    ultimately show thesis by (intro that)
  next
    case False
    with n16 have eq: "?n = 16" by simp
    then have "max_fds t = 16" by (simp add: word_unat_eq_iff)
    moreover have "\<not> int FDTABLE_INIT_SIZE < int ?n" using eq by simp
    with cp a have "t' = (copy_entries (int ?n) t new0)\<lparr>fdt_nextfd := fdt_nextfd t\<rparr>"
      unfolding fdtable_copy_def option.case sz Let_def by (simp del: of_nat_unat split: if_splits)
    ultimately show thesis using n0 eq by (intro that [of new0]) simp_all
  qed
  have c: "max_fds t' = max_fds t" "i < ?n \<Longrightarrow> fd_array t' ! i = fd_array t ! i \<and>
    fd_flags t' ! i = (if fd_array t ! i \<noteq> NULL then fd_flags t ! i else 0)" for i
    using copy_entries_nth [of new ?n ?n t] new by (simp_all add: t')
  then show "max_fds t' = max_fds t \<and> (\<forall>i < ?n. fd_array t' ! i = fd_array t ! i)" by simp
  show "fd_view t' i = (case fd_view t i of Some (p, fl) \<Rightarrow> if p = NULL then None else Some (p, fl) | None \<Rightarrow> None)"
    using c(1) c(2) [of i] by (simp add: fd_view_def fd_free_def)
qed

text \<open>A table with one file, at descriptor 0.\<close>

definition demo_table :: fdtable where
  "demo_table = \<lparr>fd_array = 0x100 # replicate 15 NULL, fd_flags = FD_ALLOCATED # replicate 15 0, max_fds = 16,
     fdt_nextfd = 1, fdt_refcount = 1\<rparr>"

definition demo_new :: fdtable where
  "demo_new = \<lparr>fd_array = NULL # replicate 15 NULL, fd_flags = 0 # replicate 15 0, max_fds = 16, fdt_nextfd = 0, fdt_refcount = 1\<rparr>"

lemma replicate_16: "replicate 16 x = x # replicate 15 x"
  by (simp add: eval_nat_numeral)

lemma demo_table_reach: "fd_reach demo_table"
proof -
  have "fd_reach demo_new"
    by (rule fd_reach.new [of "[True, True, True]" _ "[]"]) (simp add: fdtable_alloc_def demo_new_def replicate_16)
  moreover have "fdtable_allocFd (Some demo_new) 0 [] = (0, Some (take_fd demo_new 0 0), [])"
    by (simp add: fdtable_allocFd_def find_next_fd.simps demo_new_def fd_free_def int32_of_def)
  ultimately have "fd_reach (take_fd demo_new 0 0)" by (rule fd_reach.alloc)
  moreover have "fdtable_installFd (Some (take_fd demo_new 0 0)) 0 0x100 = (0, Some demo_table)"
    by (simp add: fdtable_installFd_def demo_table_def demo_new_def take_fd_def int32_of_def)
  ultimately show ?thesis by (rule fd_reach.install)
qed

section \<open>Properties\<close>

text \<open>
  C5. In every table that arises from a new one by allocating, installing, setting flags,
  closing installed descriptors and counting references, \<^verbatim>\<open>fdtable_allocFd\<close> returns the lowest
  descriptor that is not in use, reserves exactly this one and changes no other; the table
  doubles when it is full. It fails, with \<open>- EMFILE\<close> and no change, only when all descriptors
  are in use and memory is short or the table has reached \<open>2 ^ 31\<close> entries.
\<close>

theorem fdtable_allocFd_lowest:
  assumes "fd_reach t"
  shows "\<exists>r t' kz'. fdtable_allocFd (Some t) flags kz = (r, Some t', kz') \<and>
    (if 0 \<le> r then fd_view t (nat r) = None \<and> (\<forall>i < nat r. fd_view t i \<noteq> None) \<and>
                   fd_view t' = (fd_view t)(nat r \<mapsto> (NULL, flags OR FD_ALLOCATED))
     else r = - EMFILE \<and> t' = t \<and> (\<forall>i < unat (max_fds t). fd_view t i \<noteq> None) \<and>
          (unat (max_fds t) = 2 ^ 31 \<or> \<not> (\<exists>k. kz = True # True # k)))"
  using fdtable_allocFd_ok [OF fd_reach_inv [OF assms], of flags kz] by blast

theorem fdtable_allocFd_lowest_witness:
  "\<exists>r t' kz'. fdtable_allocFd (Some demo_table) 0 [] = (r, Some t', kz') \<and> 0 < nat r"
proof -
  have v: "fd_view demo_table 0 \<noteq> None" "fd_view demo_table 1 = None"
    by (simp_all add: fd_view_def fd_free_def demo_table_def)
  have m: "1 < unat (max_fds demo_table)" by (simp add: demo_table_def)
  from fdtable_allocFd_lowest [OF demo_table_reach, of 0 "[]"] obtain r t' kz' where
    a: "fdtable_allocFd (Some demo_table) 0 [] = (r, Some t', kz')" and
    r: "if 0 \<le> r then fd_view demo_table (nat r) = None \<and> (\<forall>i < nat r. fd_view demo_table i \<noteq> None) \<and>
           fd_view t' = (fd_view demo_table)(nat r \<mapsto> (NULL, 0 OR FD_ALLOCATED))
        else r = - EMFILE \<and> t' = demo_table \<and> (\<forall>i < unat (max_fds demo_table). fd_view demo_table i \<noteq> None) \<and>
          (unat (max_fds demo_table) = 2 ^ 31 \<or> \<not> (\<exists>k. [] = True # True # k))" by blast
  from r v m have "0 \<le> r \<and> nat r \<noteq> 0" by (metis (full_types))
  with a show ?thesis by auto
qed

text \<open>
  C22. \<^verbatim>\<open>do_close\<close> on a descriptor with a file: the descriptor becomes free and no other one
  changes. With a single reference the file is freed, the references of its path are given
  back and 0 is returned; with more references the count goes down by one and the call
  returns \<open>- EBADF\<close> although the descriptor has been closed.
\<close>

theorem do_close_spec:
  assumes "fd_reach t" "0 \<le> fd" "nat fd < unat (max_fds t)" "fd_array t ! nat fd = p" "\<not> PTR_IS_INVALID p"
    "files s p = Some f" "0 < f_refcount f" "f_refcount f < 2 ^ 31 - 1" "f_op_method fops op_release f = Return None"
  shows "\<exists>t'. do_close fops (Some t) fd s =
      (if f_refcount f = 1 then Return (0, Some t', snd (path_destroy (f_path f) (s\<lparr>files := (files s)(p := None)\<rparr>)))
       else Return (- EBADF, Some t', put_file p (f\<lparr>f_refcount := f_refcount f - 1\<rparr>) s)) \<and>
    fd_view t' = (fd_view t)(nat fd := None)"
proof -
  have u: "unat (word_of_int fd :: u64) = nat fd" by (rule fd_word [OF assms(2,3)])
  from do_close_eq [OF assms(2-)] obtain s1 t' where d:
    "file_unref fops p (put_file p (f\<lparr>f_refcount := f_refcount f + 1\<rparr>) s) = Return (- EBADF, s1)"
    "fdtable_closeFd fops (Some t) (word_of_int fd) (put_file p (f\<lparr>f_refcount := f_refcount f + 1\<rparr>) s) = Return (Some t', s1)"
    "do_close fops (Some t) fd s = Return (fst (closed_vfs p f s), Some t', snd (closed_vfs p f s))" by blast
  have "p \<noteq> NULL" using assms(5) by (simp add: PTR_IS_INVALID_def)
  with fdtable_closeFd_ok [OF fd_reach_inv [OF assms(1)] _ _ _ d(1), of "word_of_int fd"] assms(3,4) d(2)
  have "fd_view t' = (fd_view t)(nat fd := None)" by (simp add: u)
  with d(3) show ?thesis by (auto simp: closed_vfs_def)
qed

theorem do_close_spec_witness:
  "\<exists>t'. do_close Map.empty (Some demo_table) 0 demo_vfs =
     Return (0, Some t', demo_vfs\<lparr>files := (files demo_vfs)(0x100 := None), unrefs := [Dentry_unref 0x200, Mount_unref 0x300]\<rparr>)"
  using do_close_spec [OF demo_table_reach, of 0 "0x100" demo_vfs demo_file Map.empty]
  by (auto simp: demo_table_def demo_vfs_def demo_file_def f_op_method_def path_destroy_def PTR_IS_INVALID_def PTR_IS_ERROR_def)

text \<open>
  C38. A table that has been copied for a fork shares the files of the original without a
  reference of its own. When a file has one reference and is open in both tables, closing it
  in the copy frees it, and closing the same descriptor in the original then reads a freed
  file.
\<close>

theorem fdtable_copy_use_after_free:
  assumes "fd_reach t" "unat (max_fds t) < 2 ^ 31" "fdtable_copy (Some t) kz = (Some t', kz')"
    "0 \<le> fd" "nat fd < unat (max_fds t)" "fd_array t ! nat fd = p" "\<not> PTR_IS_INVALID p"
    "files s p = Some f" "f_refcount f = 1" "f_op_method fops op_release f = Return None"
  shows "\<exists>u s'. do_close fops (Some t') fd s = Return (0, Some u, s') \<and> files s' p = None \<and>
    do_close fops (Some t) fd s' = Fault"
proof -
  have cp: "max_fds t' = max_fds t" "fd_array t' ! nat fd = p"
    using fdtable_copy_eq(1) [OF fd_reach_inv [OF assms(1)] assms(2,3)] assms(5,6) by auto
  let ?s = "snd (closed_vfs p f s)"
  from do_close_eq [of fd t' p s f fops] assms cp obtain u where
    d: "do_close fops (Some t') fd s = Return (fst (closed_vfs p f s), Some u, ?s)" by auto
  have gone: "files ?s p = None" using assms(9) by (simp add: closed_vfs_def path_destroy_def Let_def)
  have u: "unat (word_of_int fd :: u64) = nat fd" by (rule fd_word [OF assms(4,5)])
  have "(word_of_int fd :: u64) < ucast (max_fds t)" using assms(5) u by (simp add: fd_less)
  moreover have "p \<noteq> NULL" using assms(7) by (simp add: PTR_IS_INVALID_def)
  ultimately have "do_close fops (Some t) fd ?s = Fault"
    using u gone assms(6) by (simp add: do_close_def fdtable_getFile_def file_ref_def file_at_def flip: not_less)
  with d gone assms(9) show ?thesis by (auto simp: closed_vfs_def)
qed

theorem fdtable_copy_use_after_free_witness:
  "\<exists>t' u s'. fdtable_copy (Some demo_table) [True, True, True] = (Some t', []) \<and>
     do_close Map.empty (Some t') 0 demo_vfs = Return (0, Some u, s') \<and> do_close Map.empty (Some demo_table) 0 s' = Fault"
proof -
  obtain t' where t': "fdtable_copy (Some demo_table) [True, True, True] = (Some t', [])"
    by (simp add: fdtable_copy_def fdtable_alloc_def demo_table_def int32_of_def)
  from fdtable_copy_use_after_free [OF demo_table_reach _ t', of 0 "0x100" demo_vfs demo_file Map.empty] t'
  show ?thesis by (auto simp: demo_table_def demo_vfs_def demo_file_def f_op_method_def PTR_IS_INVALID_def PTR_IS_ERROR_def)
qed

end
