(* ===== verification/RadixTree.thy ===== *)
theory RadixTree
  imports Prelude
begin

text \<open>
  The radix tree of \<^verbatim>\<open>kernel/util/radix_tree.c\<close>: insertion, lookup, deletion, gang
  lookup and destruction. A \<^verbatim>\<open>void *\<close> slot is \<open>Null\<close>, an item (a non-null address) or a
  node; the tree is a value, since no node has two parents, and the write-only field
  \<^verbatim>\<open>parent\<close> is left out. \<^verbatim>\<open>kzalloc\<close> is an oracle: the list of the outcomes of the
  calls to come. Taking an item for a node, dereferencing \<^verbatim>\<open>NULL\<close> and reading a freed
  node are \<open>Fault\<close>.

  Abstractly a tree is a partial map from indices to items; the lemmas show that every
  operation refines the map operation, on every branch, and which indices the bounds test
  of the source treats in another way.
\<close>

section \<open>Model\<close>

datatype slot =
    Null
  | Item ptr
  | Node (node_height: u32) (node_count: u32) (node_slots: "slot list") (node_tags: "u64 list list")

record radixTreeRoot =
  root_height :: nat
  root_node :: slot

text \<open>A call of \<^verbatim>\<open>kzalloc\<close> takes one outcome from the oracle; an exhausted oracle fails.\<close>

fun radix_tree_node_alloc :: "bool list \<Rightarrow> slot \<times> bool list" where
  "radix_tree_node_alloc (True # kz) = (Node 0 0 (replicate 64 Null) (replicate 3 [0]), kz)"
| "radix_tree_node_alloc (False # kz) = (Null, kz)"
| "radix_tree_node_alloc [] = (Null, [])"

text \<open>The offset \<^verbatim>\<open>(index >> shift) & RADIX_TREE_MAP_MASK\<close>.\<close>

definition slot_offset :: "u64 \<Rightarrow> nat \<Rightarrow> nat" where
  "slot_offset index shift = unat (drop_bit shift index AND 63)"

definition radix_tree_index_in_node :: "u64 \<Rightarrow> nat \<Rightarrow> nat" where
  "radix_tree_index_in_node index height = slot_offset index ((height - 1) * 6)"

text \<open>The test \<^verbatim>\<open>index > (1UL << (height * RADIX_TREE_MAP_SHIFT))\<close>.\<close>

definition beyond :: "u64 \<Rightarrow> nat \<Rightarrow> bool" where
  "beyond index height \<longleftrightarrow> index > push_bit (height * 6) 1"

text \<open>The first loop of \<^verbatim>\<open>radix_tree_extend\<close>: the height needed, \<open>None\<close> for \<open>- EINVAL\<close>.\<close>

function extend_height :: "u64 \<Rightarrow> nat \<Rightarrow> nat option" where
  "extend_height index height =
     (if beyond index height then
        if height \<ge> 4 then None else extend_height index (height + 1)
      else Some height)"
  by pat_completeness auto
termination
  by (relation "measure (\<lambda>(index, height). 4 - height)") auto

declare extend_height.simps [simp del]

text \<open>One iteration of the \<^verbatim>\<open>do\<close> loop: a new root node, or \<open>None\<close> when there is no memory.\<close>

definition extend_once :: "radixTreeRoot \<Rightarrow> bool list \<Rightarrow> radixTreeRoot option \<times> bool list" where
  "extend_once root kz =
     (case radix_tree_node_alloc kz of
        (Node nh c ss tg, kz') \<Rightarrow>
          (if root_height root = 0
           then (Some (root\<lparr>root_node := Node nh c ss tg, root_height := 1\<rparr>), kz')
           else (Some (root\<lparr>root_node := Node (of_nat (root_height root + 1)) 1 (ss[0 := root_node root]) tg,
                            root_height := root_height root + 1\<rparr>), kz'))
      | (_, kz') \<Rightarrow> (None, kz'))"

lemma extend_once_height: "extend_once root kz = (Some root', kz') \<Longrightarrow> root_height root' = root_height root + 1"
  by (auto simp: extend_once_def split: prod.splits slot.splits if_splits)

function extend_levels :: "nat \<Rightarrow> radixTreeRoot \<Rightarrow> bool list \<Rightarrow> int \<times> radixTreeRoot \<times> bool list" where
  "extend_levels height root kz =
     (case extend_once root kz of
        (None, kz') \<Rightarrow> (- ENOMEM, root, kz')
      | (Some root', kz') \<Rightarrow>
          if height > root_height root' then extend_levels height root' kz' else (0, root', kz'))"
  by pat_completeness auto
termination
  by (relation "measure (\<lambda>(height, root, kz). height - root_height root)")
     (auto dest!: extend_once_height [OF sym])

declare extend_levels.simps [simp del]

definition radix_tree_extend ::
  "radixTreeRoot \<Rightarrow> u64 \<Rightarrow> bool list \<Rightarrow> int \<times> radixTreeRoot \<times> bool list" where
  "radix_tree_extend root index kz =
     (case extend_height index (root_height root) of
        None \<Rightarrow> (- EINVAL, root, kz)
      | Some height \<Rightarrow>
          if height = root_height root then (0, root, kz) else extend_levels height root kz)"

text \<open>
  The descent of \<^verbatim>\<open>radix_tree_create_path\<close> from a node at level \<open>h\<close>. The slot pointer it
  hands back is the list of offsets from the root; the nodes it creates are in the tree it
  returns, also when it fails. At height 0 the bound \<^verbatim>\<open>height - 1\<close> of the loop wraps, so
  the loop is entered and its \<^verbatim>\<open>NULL\<close> test fails; at level 1 there is no such test.
\<close>

fun create_path_loop ::
  "nat \<Rightarrow> u64 \<Rightarrow> slot \<Rightarrow> bool list \<Rightarrow> (int \<times> nat list \<times> slot \<times> bool list) outcome" where
  "create_path_loop (Suc 0) index node kz = Return (0, [slot_offset index 0], node, kz)"
| "create_path_loop (Suc (Suc h)) index (Node nh c ss tg) kz =
     (let offset = slot_offset index (Suc h * 6) in
      if ss ! offset = Null then
        case radix_tree_node_alloc kz of
          (Node _ c' ss' tg', kz') \<Rightarrow>
            bind_outcome (create_path_loop (Suc h) index (Node (of_nat (Suc h)) c' ss' tg') kz')
              (\<lambda>(r, p, child, kz'').
                 Return (r, offset # p, Node nh (c + 1) (ss[offset := child]) tg, kz''))
        | (_, kz') \<Rightarrow> Return (- ENOMEM, [], Node nh c ss tg, kz')
      else
        bind_outcome (create_path_loop (Suc h) index (ss ! offset) kz)
          (\<lambda>(r, p, child, kz'). Return (r, offset # p, Node nh c (ss[offset := child]) tg, kz')))"
| "create_path_loop h index Null kz = Return (- EINVAL, [], Null, kz)"
| "create_path_loop h index node kz = Fault"

definition radix_tree_create_path ::
  "radixTreeRoot \<Rightarrow> u64 \<Rightarrow> bool list \<Rightarrow> (int \<times> nat list \<times> radixTreeRoot \<times> bool list) outcome" where
  "radix_tree_create_path root index kz =
     (case radix_tree_extend root index kz of
        (result, root', kz') \<Rightarrow>
          if result < 0 then Return (result, [], root', kz')
          else bind_outcome (create_path_loop (root_height root') index (root_node root') kz')
                 (\<lambda>(r, p, node, kz''). Return (r, p, root'\<lparr>root_node := node\<rparr>, kz'')))"

text \<open>Reading and writing through the slot pointer.\<close>

fun slot_read :: "slot \<Rightarrow> nat list \<Rightarrow> slot outcome" where
  "slot_read s [] = Return s"
| "slot_read (Node nh c ss tg) (i # p) = slot_read (ss ! i) p"
| "slot_read _ (i # p) = Fault"

fun slot_write :: "slot \<Rightarrow> nat list \<Rightarrow> slot \<Rightarrow> slot" where
  "slot_write s [] v = v"
| "slot_write (Node nh c ss tg) (i # p) v = Node nh c (ss[i := slot_write (ss ! i) p v]) tg"
| "slot_write s (i # p) v = s"

definition radix_tree_init :: radixTreeRoot where
  "radix_tree_init = \<lparr>root_height = 0, root_node = Null\<rparr>"

definition radix_tree_insert ::
  "radixTreeRoot \<Rightarrow> u64 \<Rightarrow> ptr \<Rightarrow> bool list \<Rightarrow> (int \<times> radixTreeRoot \<times> bool list) outcome" where
  "radix_tree_insert root index item kz =
     (if item = NULL then Return (- EINVAL, root, kz)
      else bind_outcome (radix_tree_create_path root index kz)
        (\<lambda>(result, slot_ptr, root', kz').
           if result < 0 then Return (result, root', kz')
           else bind_outcome (slot_read (root_node root') slot_ptr)
             (\<lambda>s. if s \<noteq> Null then Return (- EEXIST, root', kz')
                  else Return (0, root'\<lparr>root_node := slot_write (root_node root') slot_ptr (Item item)\<rparr>, kz'))))"

fun lookup_loop :: "nat \<Rightarrow> u64 \<Rightarrow> slot \<Rightarrow> slot outcome" where
  "lookup_loop 0 index node = Return node"
| "lookup_loop (Suc h) index Null = Return Null"
| "lookup_loop (Suc h) index (Node nh c ss tg) = lookup_loop h index (ss ! slot_offset index (h * 6))"
| "lookup_loop (Suc h) index (Item p) = Fault"

definition radix_tree_lookup :: "radixTreeRoot \<Rightarrow> u64 \<Rightarrow> slot outcome" where
  "radix_tree_lookup root index =
     (if root_height root = 0 then Return Null
      else if beyond index (root_height root) then Return Null
      else lookup_loop (root_height root) index (root_node root))"

text \<open>
  \<^verbatim>\<open>radix_tree_delete_node\<close>: the pointer it returns, \<open>Null\<close> for a node it has freed.
\<close>

fun radix_tree_delete_node :: "nat \<Rightarrow> u64 \<Rightarrow> slot \<Rightarrow> slot outcome" where
  "radix_tree_delete_node (Suc (Suc h)) index (Node nh c ss tg) =
     (let offset = radix_tree_index_in_node index (Suc (Suc h)) in
      bind_outcome (radix_tree_delete_node (Suc h) index (ss ! offset))
        (\<lambda>child. let c' = (if child = Null then c - 1 else c)
                 in Return (if c' = 0 then Null else Node nh c' (ss[offset := child]) tg)))"
| "radix_tree_delete_node (Suc 0) index (Node nh c ss tg) =
     Return (if c - 1 = 0 then Null
             else Node nh (c - 1) (ss[radix_tree_index_in_node index 1 := Null]) tg)"
| "radix_tree_delete_node _ index _ = Fault"

text \<open>The loop of \<^verbatim>\<open>radix_tree_shrink\<close>, on the height and the root node.\<close>

fun shrink_loop :: "nat \<Rightarrow> slot \<Rightarrow> (nat \<times> slot) outcome" where
  "shrink_loop (Suc (Suc h)) (Node nh c ss tg) =
     (if c = 1 then
        case ss ! 0 of
          Null \<Rightarrow> Return (Suc (Suc h), Node nh c ss tg)
        | Item p \<Rightarrow> Fault
        | Node ch cc css ctg \<Rightarrow>
            if ch = nh - 1 then shrink_loop (Suc h) (ss ! 0)
            else Return (Suc (Suc h), Node nh c ss tg)
      else Return (Suc (Suc h), Node nh c ss tg))"
| "shrink_loop h node = Return (h, node)"

definition radix_tree_shrink :: "radixTreeRoot \<Rightarrow> radixTreeRoot outcome" where
  "radix_tree_shrink root =
     bind_outcome (shrink_loop (root_height root) (root_node root))
       (\<lambda>(h, n). Return \<lparr>root_height = (if h > 0 \<and> n = Null then 0 else h), root_node = n\<rparr>)"

text \<open>
  The part of \<^verbatim>\<open>radix_tree_delete\<close> that walks a multi-level tree to the leaf, reads the
  item and clears its slot: the item and the tree after it.
\<close>

fun delete_leaf :: "nat \<Rightarrow> u64 \<Rightarrow> slot \<Rightarrow> (slot \<times> slot) outcome" where
  "delete_leaf (Suc 0) index (Node nh c ss tg) =
     (let offset = slot_offset index 0; item = ss ! offset
      in if item \<noteq> Null then Return (item, Node nh (c - 1) (ss[offset := Null]) tg)
         else Return (Null, Node nh c ss tg))"
| "delete_leaf (Suc (Suc h)) index (Node nh c ss tg) =
     (let offset = slot_offset index (Suc h * 6)
      in bind_outcome (delete_leaf (Suc h) index (ss ! offset))
           (\<lambda>(item, child). Return (item, Node nh c (ss[offset := child]) tg)))"
| "delete_leaf h index Null = Return (Null, Null)"
| "delete_leaf h index _ = Fault"

text \<open>
  In a multi-level tree the result of \<^verbatim>\<open>radix_tree_delete_node\<close> is dropped: if it has freed
  the root node, \<^verbatim>\<open>radix_tree_shrink\<close> reads freed memory.
\<close>

definition radix_tree_delete :: "radixTreeRoot \<Rightarrow> u64 \<Rightarrow> (slot \<times> radixTreeRoot) outcome" where
  "radix_tree_delete root index =
     (if root_height root = 0 then Return (Null, root)
      else if beyond index (root_height root) then Return (Null, root)
      else if root_height root = 1 then
        case root_node root of
          Null \<Rightarrow> Return (Null, root)
        | Item p \<Rightarrow> Fault
        | Node nh c ss tg \<Rightarrow>
            (let offset = slot_offset index 0; item = ss ! offset in
             if item \<noteq> Null then
               if c - 1 = 0 then Return (item, root\<lparr>root_node := Null, root_height := 0\<rparr>)
               else Return (item, root\<lparr>root_node := Node nh (c - 1) (ss[offset := Null]) tg\<rparr>)
             else Return (Null, root))
      else bind_outcome (delete_leaf (root_height root) index (root_node root))
        (\<lambda>(item, node).
           if item = Null then Return (Null, root\<lparr>root_node := node\<rparr>)
           else bind_outcome (radix_tree_delete_node (root_height root) index node)
             (\<lambda>node'. if node' = Null then Fault
                      else bind_outcome (radix_tree_shrink (root\<lparr>root_node := node'\<rparr>))
                             (\<lambda>root'. Return (item, root')))))"

text \<open>
  The loop of \<^verbatim>\<open>radix_tree_gang_lookup\<close>: the items stored into \<^verbatim>\<open>results\<close>; their number is
  the value it returns. \<open>n\<close> is \<^verbatim>\<open>max_items - found\<close>.
\<close>

fun gang_lookup_loop :: "radixTreeRoot \<Rightarrow> u64 \<Rightarrow> nat \<Rightarrow> u64 \<Rightarrow> slot list outcome" where
  "gang_lookup_loop root first_index 0 index = Return []"
| "gang_lookup_loop root first_index (Suc n) index =
     bind_outcome (radix_tree_lookup root index)
       (\<lambda>item. if item = Null then Return []
               else if index + 1 < first_index then Return [item]
               else bind_outcome (gang_lookup_loop root first_index n (index + 1))
                      (\<lambda>results. Return (item # results)))"

definition radix_tree_gang_lookup :: "radixTreeRoot \<Rightarrow> u64 \<Rightarrow> u32 \<Rightarrow> slot list outcome" where
  "radix_tree_gang_lookup root first_index max_items =
     gang_lookup_loop root first_index (unat max_items) first_index"

text \<open>Destruction: the number of nodes handed to \<^verbatim>\<open>kfree\<close>.\<close>

fun radix_tree_destroy_node :: "nat \<Rightarrow> slot \<Rightarrow> nat" where
  "radix_tree_destroy_node h Null = 0"
| "radix_tree_destroy_node h (Item p) = 1"
| "radix_tree_destroy_node h (Node nh c ss tg) =
     (if h > 1 then sum_list (map (radix_tree_destroy_node (h - 1)) ss) else 0) + 1"

definition radix_tree_destroy :: "radixTreeRoot \<Rightarrow> nat \<times> radixTreeRoot" where
  "radix_tree_destroy root =
     (if root_height root > 0 \<and> root_node root \<noteq> Null
      then (radix_tree_destroy_node (root_height root) (root_node root),
            root\<lparr>root_height := 0, root_node := Null\<rparr>)
      else (0, root))"

section \<open>Specification\<close>

text \<open>
  The slot an index designates in a tree of height \<open>h\<close>, by the base-64 digits of the
  index, and the partial map a tree stands for.
\<close>

definition digit :: "nat \<Rightarrow> nat \<Rightarrow> nat" where
  "digit h i = i div 64 ^ h mod 64"

fun slot_at :: "nat \<Rightarrow> slot \<Rightarrow> nat \<Rightarrow> slot" where
  "slot_at 0 t i = t"
| "slot_at (Suc h) (Node nh c ss tg) i = slot_at h (ss ! (digit h i)) i"
| "slot_at (Suc h) t i = Null"

definition item_of :: "slot \<Rightarrow> ptr option" where
  "item_of s = (case s of Item p \<Rightarrow> Some p | _ \<Rightarrow> None)"

definition contents :: "radixTreeRoot \<Rightarrow> nat \<Rightarrow> ptr option" where
  "contents root i =
     (if i < 64 ^ root_height root then item_of (slot_at (root_height root) (root_node root) i)
      else None)"

text \<open>
  Well-formed subtrees at level \<open>h\<close>. The count of an internal node is the number of its
  children; nothing is required of the count of a leaf, which \<^verbatim>\<open>radix_tree_insert\<close> never
  increments.
\<close>

definition used :: "slot list \<Rightarrow> nat" where
  "used ss = length (filter (\<lambda>s. s \<noteq> Null) ss)"

fun wf_slot :: "nat \<Rightarrow> slot \<Rightarrow> bool" where
  "wf_slot h Null = True"
| "wf_slot h (Item p) = (h = 0 \<and> p \<noteq> NULL)"
| "wf_slot h (Node nh c ss tg) =
     (h > 0 \<and> length ss = 64 \<and> length tg = 3 \<and> list_all (\<lambda>w. length w = 1) tg \<and>
      list_all (wf_slot (h - 1)) ss \<and> (h > 1 \<longrightarrow> c = of_nat (used ss)))"

definition wf_root :: "radixTreeRoot \<Rightarrow> bool" where
  "wf_root root \<longleftrightarrow> root_height root \<le> 4 \<and> (root_height root = 0 \<longleftrightarrow> root_node root = Null) \<and>
     wf_slot (root_height root) (root_node root)"

text \<open>
  No leaf's count has been decremented more than \<open>n\<close> times from 0 (it is a \<^verbatim>\<open>uint32\<close> and
  wraps).
\<close>

fun spent :: "nat \<Rightarrow> nat \<Rightarrow> slot \<Rightarrow> bool" where
  "spent n h (Node nh c ss tg) = (if h > 1 then list_all (spent n (h - 1)) ss else unat (- c) \<le> n)"
| "spent n h _ = True"

section \<open>Lemmas\<close>

subsection \<open>Indices and offsets\<close>

lemma drop_bit_64_pow: "unat (drop_bit (h * 6) (index :: u64)) = unat index div 64 ^ h"
proof -
  have "(2::nat) ^ (h * 6) = 64 ^ h" using power_mult [of "2::nat" 6 h] by (simp add: mult.commute)
  then show ?thesis by (simp only: unat_drop_bit_eq drop_bit_eq_div [of _ "unat _"])
qed

lemma unat_and_63: "unat (w AND 63 :: u64) = unat w mod 64"
proof -
  have "w AND 63 = take_bit 6 w" by (simp add: take_bit_eq_mask mask_numeral)
  then show ?thesis by (simp only: unsigned_take_bit_eq take_bit_eq_mod [of _ "unat _"]) simp
qed

lemma slot_offset_digit [simp]: "slot_offset index (h * 6) = digit h (unat index)"
  by (simp add: slot_offset_def unat_and_63 drop_bit_64_pow digit_def)

lemma slot_offset_0 [simp]: "slot_offset index 0 = digit 0 (unat index)"
  using slot_offset_digit [of index 0] by simp

lemma slot_offset_Suc [simp]: "slot_offset index (6 + h * 6) = digit (Suc h) (unat index)"
  using slot_offset_digit [of index "Suc h"] by simp

lemma index_in_node_Suc [simp]: "radix_tree_index_in_node index (Suc h) = digit h (unat index)"
  by (simp add: radix_tree_index_in_node_def)

lemma beyond_iff: "h \<le> 4 \<Longrightarrow> beyond index h \<longleftrightarrow> unat index > 64 ^ h"
proof -
  assume h: "h \<le> 4"
  have "(64::nat) ^ h \<le> 64 ^ 4" by (rule power_increasing) (use h in auto)
  then have lt: "(64::nat) ^ h < 2 ^ 64" by simp
  have "push_bit (h * 6) (1::u64) = of_nat (64 ^ h)"
    using power_mult [of "2::u64" 6 h] by (simp add: mult.commute)
  then have "unat (push_bit (h * 6) (1::u64)) = 64 ^ h"
    using lt by (simp only: unat_of_nat) simp
  then show ?thesis by (simp add: beyond_def word_less_nat_alt)
qed

lemma extend_height_eq:
  assumes "h \<le> 4"
  shows "extend_height index h =
           (if unat index > 64 ^ 4 then None else Some (LEAST k. h \<le> k \<and> unat index \<le> 64 ^ k))"
  using assms
proof (induction "4 - h" arbitrary: h)
  case 0
  then have "h = 4" by simp
  moreover have "unat index \<le> 64 ^ 4 \<Longrightarrow> (LEAST k. 4 \<le> k \<and> unat index \<le> 64 ^ k) = 4"
    by (rule Least_equality) auto
  ultimately show ?case by (subst extend_height.simps) (auto simp: beyond_iff)
next
  case (Suc n)
  show ?case
  proof (cases "beyond index h")
    case True
    then have "\<not> unat index \<le> 64 ^ h" using Suc.prems by (simp add: beyond_iff)
    then have "(h \<le> k \<and> unat index \<le> 64 ^ k) = (Suc h \<le> k \<and> unat index \<le> 64 ^ k)" for k
      by (cases "k = h") auto
    with True Suc show ?thesis by (subst extend_height.simps) auto
  next
    case False
    then have le: "unat index \<le> 64 ^ h" using Suc.prems by (simp add: beyond_iff)
    also have "(64::nat) ^ h \<le> 64 ^ 4" by (rule power_increasing) (use Suc.prems in auto)
    finally have "\<not> unat index > 64 ^ 4" by simp
    moreover have "(LEAST k. h \<le> k \<and> unat index \<le> 64 ^ k) = h"
      by (rule Least_equality) (use le in auto)
    ultimately show ?thesis using False by (subst extend_height.simps) simp
  qed
qed

lemma digit_mod: "k < n \<Longrightarrow> digit k (i mod 64 ^ n) = digit k i"
proof -
  assume "k < n"
  then obtain m where n: "n = k + Suc m" using less_imp_Suc_add by fastforce
  have "i mod 64 ^ n div 64 ^ k = i div 64 ^ k mod 64 ^ Suc m"
    unfolding n power_add by (simp add: mod_mult2_eq)
  then show ?thesis by (simp add: digit_def mod_mod_cancel)
qed

lemma mod_64_Suc:
  "(i::nat) mod 64 ^ Suc h = j mod 64 ^ Suc h \<longleftrightarrow>
   digit h i = digit h j \<and> i mod 64 ^ h = j mod 64 ^ h"
proof -
  have "x mod 64 ^ Suc h = 64 ^ h * digit h x + x mod 64 ^ h" for x :: nat
    using mod_mult2_eq [of x "64 ^ h" 64] by (simp add: mult.commute digit_def)
  moreover have "x mod 64 ^ Suc h mod 64 ^ h = x mod 64 ^ h" for x :: nat
    by (simp add: mod_mod_cancel)
  ultimately show ?thesis using digit_mod [of h "Suc h"] by (metis lessI)
qed

lemma digit_less [simp]: "digit h i < 64"
  by (simp add: digit_def)

subsection \<open>Well-formed trees\<close>

lemma wf_slot_nth: "wf_slot (Suc h) (Node nh c ss tg) \<Longrightarrow> k < 64 \<Longrightarrow> wf_slot h (ss ! k)"
  by (auto simp: list_all_length)

lemma wf_slot_0: "wf_slot 0 t \<longleftrightarrow> t = Null \<or> (\<exists>p. t = Item p \<and> p \<noteq> NULL)"
  by (cases t) auto

lemma wf_slot_Suc: "wf_slot (Suc h) t \<Longrightarrow> t = Null \<or> (\<exists>nh c ss tg. t = Node nh c ss tg \<and> length ss = 64)"
  by (cases t) auto

lemma slot_at_Null [simp]: "slot_at h Null i = Null"
  by (cases h) auto

lemma wf_slot_at: "wf_slot h t \<Longrightarrow> wf_slot 0 (slot_at h t i)"
proof (induction h arbitrary: t)
  case (Suc h)
  then show ?case
    using wf_slot_Suc [OF Suc.prems] by (auto simp: list_all_length)
qed simp

lemma slot_at_mod: "h \<le> n \<Longrightarrow> slot_at h t (i mod 64 ^ n) = slot_at h t i"
proof (induction h arbitrary: t)
  case (Suc h)
  then show ?case by (cases t) (simp_all add: digit_mod)
qed simp

lemma slot_at_cong: "i mod 64 ^ h = j mod 64 ^ h \<Longrightarrow> slot_at h t i = slot_at h t j"
  by (metis slot_at_mod order_refl)

lemma used_update:
  "k < length ss \<Longrightarrow> used (ss[k := s]) =
     (if s \<noteq> Null then (if ss ! k \<noteq> Null then used ss else Suc (used ss))
      else (if ss ! k \<noteq> Null then used ss - 1 else used ss))"
proof -
  assume k: "k < length ss"
  have "used (ss[k := s]) = length (filter (\<lambda>s. s \<noteq> Null) (take k ss @ s # drop (Suc k) ss))"
    using k by (simp add: used_def upd_conv_take_nth_drop)
  moreover have "used ss = length (filter (\<lambda>s. s \<noteq> Null) (take k ss @ ss ! k # drop (Suc k) ss))"
    using k by (simp add: used_def flip: id_take_nth_drop)
  ultimately show ?thesis by simp
qed

lemma used_le: "used ss \<le> length ss"
  by (simp add: used_def)

lemma used_pos: "k < length ss \<Longrightarrow> ss ! k \<noteq> Null \<Longrightarrow> 0 < used ss"
  unfolding used_def length_greater_0_conv by (auto simp: filter_empty_conv)

lemma used_one:
  assumes "used ss = 1" "i < length ss" "j < length ss" "ss ! i \<noteq> Null" "ss ! j \<noteq> Null"
  shows "i = j"
proof (rule ccontr)
  assume "i \<noteq> j"
  then have "{i, j} \<subseteq> {k. k < length ss \<and> ss ! k \<noteq> Null}" "card {i, j} = 2" using assms by auto
  then have "2 \<le> card {k. k < length ss \<and> ss ! k \<noteq> Null}"
    using card_mono [of "{k. k < length ss \<and> ss ! k \<noteq> Null}" "{i, j}"] by simp
  with assms(1) show False by (simp add: used_def length_filter_conv_card)
qed

lemma lookup_loop_eq: "wf_slot h t \<Longrightarrow> lookup_loop h index t = Return (slot_at h t (unat index))"
proof (induction h arbitrary: t)
  case (Suc h)
  show ?case
  proof (cases t)
    case (Node nh c ss tg)
    with Suc show ?thesis using wf_slot_nth [of h nh c ss tg] by simp
  qed (use Suc.prems in auto)
qed simp

lemma radix_tree_lookup_eq:
  assumes "wf_root root"
  shows "radix_tree_lookup root index =
           Return (if unat index > 64 ^ root_height root then Null
                   else slot_at (root_height root) (root_node root) (unat index))"
  using assms by (auto simp: radix_tree_lookup_def wf_root_def beyond_iff lookup_loop_eq)

subsection \<open>Extension\<close>

text \<open>\<open>root'\<close> stands for the same map as \<open>root\<close>, and no leaf count was decremented.\<close>

definition keeps :: "radixTreeRoot \<Rightarrow> radixTreeRoot \<Rightarrow> bool" where
  "keeps root root' \<longleftrightarrow> wf_root root' \<and> contents root' = contents root \<and>
     (\<forall>n. spent n (root_height root) (root_node root) \<longrightarrow> spent n (root_height root') (root_node root'))"

lemma keeps_refl: "wf_root root \<Longrightarrow> keeps root root"
  by (simp add: keeps_def)

lemma keeps_trans: "keeps a b \<Longrightarrow> keeps b c \<Longrightarrow> keeps a c"
  by (simp add: keeps_def)

lemma node_alloc_cases:
  obtains (ok) kz' where "radix_tree_node_alloc kz = (Node 0 0 (replicate 64 Null) (replicate 3 [0]), kz')" "kz = True # kz'"
        | (fail) kz' where "radix_tree_node_alloc kz = (Null, kz')"
  by (cases kz rule: radix_tree_node_alloc.cases) auto

lemma used_replicate_Null [simp]: "used (replicate n Null) = 0"
  by (simp add: used_def)

lemma wf_fresh: "wf_slot (Suc h) (Node nh 0 (replicate 64 Null) (replicate 3 [0]))"
  by (simp add: list_all_length nth_Cons')

lemma slot_at_fresh: "slot_at (Suc h) (Node nh c (replicate 64 Null) tg) i = Null"
  by simp

lemma spent_fresh: "spent n h (Node nh 0 (replicate 64 Null) tg)"
  by (simp add: list_all_length)

lemma nth_root_slots: "k < 64 \<Longrightarrow> (replicate 64 Null)[0 := t] ! k = (if k = 0 then t else Null)"
  by (simp add: nth_list_update)

lemma digit_zero_iff: "i < 64 ^ Suc h \<Longrightarrow> digit h i = 0 \<longleftrightarrow> i < 64 ^ h"
proof -
  assume "i < 64 ^ Suc h"
  then have "i div 64 ^ h < 64" by (simp add: less_mult_imp_div_less)
  then show ?thesis by (simp add: digit_def div_eq_0_iff)
qed

lemma contents_single_child:
  assumes "\<And>k. 0 < k \<Longrightarrow> k < 64 \<Longrightarrow> ss ! k = Null"
  shows "contents \<lparr>root_height = Suc h, root_node = Node nh c ss tg\<rparr> = contents \<lparr>root_height = h, root_node = ss ! 0\<rparr>"
proof
  fix i
  show "contents \<lparr>root_height = Suc h, root_node = Node nh c ss tg\<rparr> i = contents \<lparr>root_height = h, root_node = ss ! 0\<rparr> i"
  proof (cases "i < 64 ^ Suc h")
    case True
    then show ?thesis
      using digit_zero_iff [of i h] assms [of "digit h i"]
      by (cases "digit h i = 0") (simp_all add: contents_def item_of_def del: power_Suc)
  next
    case False
    then have "\<not> i < 64 ^ h" by simp
    with False show ?thesis by (simp add: contents_def del: power_Suc)
  qed
qed

lemma keeps_extend_once:
  assumes wf: "wf_root root" and h: "root_height root < 4" and e: "extend_once root kz = (Some root', kz')"
  shows "keeps root root'"
proof (cases "root_height root = 0")
  case True
  then have n: "root_node root = Null" using wf by (simp add: wf_root_def)
  from True e have r: "root' = root\<lparr>root_node := Node 0 0 (replicate 64 Null) (replicate 3 [0]), root_height := 1\<rparr>"
    by (cases rule: node_alloc_cases [of kz]) (auto simp: extend_once_def)
  have "wf_root root'" using wf_fresh [of 0 0] by (simp add: r wf_root_def)
  moreover have "contents root' = contents root"
    by (rule ext) (simp add: r contents_def True n item_of_def)
  ultimately show ?thesis by (simp add: keeps_def r)
next
  case False
  then obtain m where m: "root_height root = Suc m" by (cases "root_height root") auto
  define t where "t = root_node root"
  have t: "t \<noteq> Null" "wf_slot (Suc m) t" using wf m by (auto simp: wf_root_def t_def)
  from False e have r: "root' = \<lparr>root_height = Suc (Suc m),
      root_node = Node (of_nat (Suc (Suc m))) 1 ((replicate 64 Null)[0 := t]) (replicate 3 [0])\<rparr>"
    by (cases rule: node_alloc_cases [of kz])
       (auto simp: extend_once_def t_def m intro: radixTreeRoot.equality)
  have u: "used ((replicate 64 Null)[0 := t]) = 1" using t by (subst used_update) simp_all
  have "wf_root root'"
    using h m t u by (simp add: r wf_root_def list_all_length nth_root_slots nth_Cons')
  moreover have "contents root' = contents \<lparr>root_height = Suc m, root_node = t\<rparr>"
    unfolding r by (subst contents_single_child) (simp_all add: nth_list_update)
  then have "contents root' = contents root" by (simp add: contents_def m t_def fun_eq_iff)
  ultimately show ?thesis using t
    by (auto simp: keeps_def r list_all_length nth_root_slots fun_eq_iff m t_def)
qed

lemma extend_levels_keeps:
  assumes "wf_root root" "root_height root < height" "height \<le> 4"
    "extend_levels height root kz = (r, root', kz')"
  shows "keeps root root' \<and> (r = 0 \<and> root_height root' = height \<or> r = - ENOMEM)"
  using assms
proof (induction height root kz rule: extend_levels.induct)
  case (1 height root kz)
  show ?case
  proof (cases "extend_once root kz")
    case (Pair o1 kz1)
    show ?thesis
    proof (cases o1)
      case None
      with 1 Pair show ?thesis by (auto simp: extend_levels.simps [of height root] keeps_refl)
    next
      case (Some root1)
      have k: "keeps root root1" using 1 Pair Some by (intro keeps_extend_once) auto
      then have wf: "wf_root root1" by (simp add: keeps_def)
      have h: "root_height root1 = root_height root + 1" using Pair Some by (auto dest: extend_once_height)
      show ?thesis
      proof (cases "height > root_height root1")
        case True
        with "1.prems" Pair Some have "extend_levels height root1 kz1 = (r, root', kz')"
          by (simp add: extend_levels.simps [of height root])
        with "1.IH" [OF Pair [symmetric] Some True wf True "1.prems"(3)] keeps_trans [OF k]
        show ?thesis by blast
      next
        case False
        with "1.prems" Pair Some h k show ?thesis by (simp add: extend_levels.simps [of height root])
      qed
    qed
  qed
qed

text \<open>The height at which an index is stored.\<close>

definition insert_height :: "radixTreeRoot \<Rightarrow> u64 \<Rightarrow> nat" where
  "insert_height root index = (LEAST k. root_height root \<le> k \<and> unat index \<le> 64 ^ k)"

lemma insert_height_bounds:
  assumes "wf_root root" "\<not> unat index > 64 ^ 4"
  shows "root_height root \<le> insert_height root index \<and> insert_height root index \<le> 4 \<and>
         unat index \<le> 64 ^ insert_height root index"
proof -
  have P4: "root_height root \<le> 4 \<and> unat index \<le> 64 ^ 4" using assms by (simp add: wf_root_def)
  from LeastI [of "\<lambda>k. root_height root \<le> k \<and> unat index \<le> 64 ^ k", OF P4] Least_le [of "\<lambda>k. root_height root \<le> k \<and> unat index \<le> 64 ^ k", OF P4]
  show ?thesis by (simp add: insert_height_def)
qed

lemma radix_tree_extend_cases:
  assumes wf: "wf_root root" and e: "radix_tree_extend root index kz = (r, root', kz')"
  shows "keeps root root' \<and>
     (if unat index > 64 ^ 4 then r = - EINVAL \<and> root' = root
      else r = 0 \<and> root_height root' = insert_height root index
         \<or> r = - ENOMEM \<and> root_height root < insert_height root index)"
proof -
  have h4: "root_height root \<le> 4" using wf by (simp add: wf_root_def)
  note eh = extend_height_eq [OF h4, of index, folded insert_height_def]
  consider (big) "unat index > 64 ^ 4"
    | (same) "\<not> unat index > 64 ^ 4" "insert_height root index = root_height root"
    | (grow) "\<not> unat index > 64 ^ 4" "insert_height root index > root_height root"
    using insert_height_bounds [OF wf] by fastforce
  then show ?thesis
  proof cases
    case big
    with e eh wf show ?thesis by (auto simp: radix_tree_extend_def keeps_refl)
  next
    case same
    with e eh wf show ?thesis by (simp add: radix_tree_extend_def keeps_refl)
  next
    case grow
    with e eh have "extend_levels (insert_height root index) root kz = (r, root', kz')"
      by (simp add: radix_tree_extend_def)
    with extend_levels_keeps [OF wf grow(2)] insert_height_bounds [OF wf grow(1)] grow
    show ?thesis by auto
  qed
qed

subsection \<open>The path to a slot\<close>

definition path :: "nat \<Rightarrow> nat \<Rightarrow> nat list" where
  "path h i = map (\<lambda>k. digit k i) (rev [0..<h])"

lemma path_0 [simp]: "path 0 i = []"
  by (simp add: path_def)

lemma path_Suc [simp]: "path (Suc h) i = (digit h i) # path h i"
  by (simp add: path_def)

text \<open>All nodes on the way to an index exist.\<close>

fun reaches :: "nat \<Rightarrow> slot \<Rightarrow> nat \<Rightarrow> bool" where
  "reaches 0 t i = True"
| "reaches (Suc h) (Node nh c ss tg) i = reaches h (ss ! (digit h i)) i"
| "reaches (Suc h) t i = False"

lemma slot_read_path: "reaches h t i \<Longrightarrow> slot_read t (path h i) = Return (slot_at h t i)"
  by (induction h t i rule: reaches.induct) auto

lemma reaches_if_slot_at: "slot_at h t i \<noteq> Null \<Longrightarrow> reaches h t i"
  by (induction h t i rule: reaches.induct) auto

lemma slot_at_update_child:
  assumes "length ss = 64"
    and "\<And>j. slot_at h child j = (if j mod 64 ^ h = i mod 64 ^ h then v else slot_at h (ss ! digit h i) j)"
  shows "slot_at (Suc h) (Node nh c (ss[digit h i := child]) tg) j =
           (if j mod 64 ^ Suc h = i mod 64 ^ Suc h then v else slot_at (Suc h) (Node nh' c' ss tg') j)"
  using assms by (cases "digit h i = digit h j") (simp_all add: mod_64_Suc del: power_Suc)

lemma slot_at_write:
  assumes "wf_slot h t" "reaches h t i"
  shows "slot_at h (slot_write t (path h i) v) j = (if j mod 64 ^ h = i mod 64 ^ h then v else slot_at h t j)"
  using assms
proof (induction h t i arbitrary: j rule: reaches.induct)
  case (2 h nh c ss tg i)
  then have "wf_slot h (ss ! digit h i)" "length ss = 64" by (auto simp: list_all_length)
  with 2 show ?case
    using slot_at_update_child [of ss h "slot_write (ss ! digit h i) (path h i) v" i v nh c tg j nh c tg]
    by (simp del: power_Suc)
qed auto

lemma wf_slot_write:
  assumes "wf_slot h t" "reaches h t i" "wf_slot 0 v" "v \<noteq> Null"
  shows "wf_slot h (slot_write t (path h i) v) \<and> slot_write t (path h i) v \<noteq> Null"
  using assms
proof (induction h t i rule: reaches.induct)
  case (2 h nh c ss tg i)
  define k where "k = digit h i"
  have k: "k < 64" and l: "length ss = 64" and w: "wf_slot h (ss ! k)"
    using 2 by (auto simp: k_def list_all_length)
  have nn: "h > 0 \<Longrightarrow> ss ! k \<noteq> Null" using 2 by (cases h) (auto simp: k_def)
  from 2 w have IH: "wf_slot h (slot_write (ss ! k) (path h i) v)" "slot_write (ss ! k) (path h i) v \<noteq> Null"
    by (auto simp: k_def)
  then have "h > 0 \<Longrightarrow> used (ss[k := slot_write (ss ! k) (path h i) v]) = used ss"
    using k l nn by (simp add: used_update)
  with IH 2 show ?case by (auto simp: list_all_update simp flip: k_def)
qed auto

lemma spent_slot_write:
  assumes "reaches h t i" "spent n h t"
  shows "spent n h (slot_write t (path h i) (Item p))"
  using assms
proof (induction h t i rule: reaches.induct)
  case (2 h nh c ss tg i)
  then show ?case
    by (cases "digit h i < length ss")
       (auto simp: list_all_update list_all_length nth_list_update split: if_splits)
qed auto

text \<open>The subtree \<open>t'\<close> stands for the same items as \<open>t\<close>.\<close>

definition keeps_slot :: "nat \<Rightarrow> slot \<Rightarrow> slot \<Rightarrow> bool" where
  "keeps_slot h t t' \<longleftrightarrow> wf_slot h t' \<and> (\<forall>i. slot_at h t' i = slot_at h t i) \<and>
     (\<forall>n. spent n h t \<longrightarrow> spent n h t')"

lemma keeps_slot_refl: "wf_slot h t \<Longrightarrow> keeps_slot h t t"
  by (simp add: keeps_slot_def)

lemma keeps_slot_child:
  assumes wf: "wf_slot (Suc (Suc h)) (Node nh c ss tg)" and k: "k < 64"
    and t': "keeps_slot (Suc h) (ss ! k) t'" "t' \<noteq> Null"
    and c': "c' = (if ss ! k = Null then c + 1 else c)"
  shows "keeps_slot (Suc (Suc h)) (Node nh c ss tg) (Node nh c' (ss[k := t']) tg)"
proof -
  have l: "length ss = 64" using wf by simp
  have "c' = of_nat (used (ss[k := t']))" using wf t' c' k l by (simp add: used_update)
  moreover have "slot_at (Suc h) (ss[k := t'] ! j) i = slot_at (Suc h) (ss ! j) i" for i j
    using t' k l by (cases "j = k") (simp_all add: keeps_slot_def)
  moreover have "list_all (spent n (Suc h)) (ss[k := t'])" if "list_all (spent n (Suc h)) ss" for n
    using t' k l that by (intro list_all_update) (auto simp: keeps_slot_def list_all_length)
  ultimately show ?thesis
    using wf t' l by (simp add: keeps_slot_def list_all_update)
qed

lemma keeps_slot_fresh: "keeps_slot (Suc h) Null (Node nh 0 (replicate 64 Null) (replicate 3 [0]))"
  unfolding keeps_slot_def using wf_fresh spent_fresh by (simp del: wf_slot.simps spent.simps)

lemma keeps_slot_trans: "keeps_slot h a b \<Longrightarrow> keeps_slot h b c \<Longrightarrow> keeps_slot h a c"
  by (simp add: keeps_slot_def)

lemma create_path_loop_ok:
  assumes "wf_slot (Suc h) t" "t \<noteq> Null"
  shows "\<exists>r p t' kz'. create_path_loop (Suc h) index t kz = Return (r, p, t', kz') \<and>
     keeps_slot (Suc h) t t' \<and> t' \<noteq> Null \<and>
     (r = 0 \<and> p = path (Suc h) (unat index) \<and> reaches (Suc h) t' (unat index) \<or> r = - ENOMEM)"
  using assms
proof (induction h arbitrary: t kz)
  case 0
  then show ?case using wf_slot_Suc [OF 0(1)] by (auto simp: keeps_slot_refl simp del: wf_slot.simps)
next
  case (Suc h)
  then obtain nh c ss tg where t: "t = Node nh c ss tg" and l: "length ss = 64"
    using wf_slot_Suc by blast
  define k where "k = digit (Suc h) (unat index)"
  have wk: "wf_slot (Suc h) (ss ! k)" using Suc.prems t by (simp add: wf_slot_nth k_def del: wf_slot.simps)
  note child = keeps_slot_child [OF Suc.prems(1) [unfolded t], of k]
  show ?case
  proof (cases "ss ! k = Null")
    case False
    from Suc.IH [OF wk False, of kz] obtain r p t' kz' where
      c: "create_path_loop (Suc h) index (ss ! k) kz = Return (r, p, t', kz')" and
      P: "keeps_slot (Suc h) (ss ! k) t'" "t' \<noteq> Null"
        "r = 0 \<and> p = path (Suc h) (unat index) \<and> reaches (Suc h) t' (unat index) \<or> r = - ENOMEM"
      by blast
    have "create_path_loop (Suc (Suc h)) index t kz = Return (r, k # p, Node nh c (ss[k := t']) tg, kz')"
      using False c by (simp add: t Let_def flip: k_def)
    with child [OF _ P(1,2)] P(3) False l show ?thesis by (simp add: k_def t)
  next
    case True
    show ?thesis
    proof (cases rule: node_alloc_cases [of kz])
      case (ok kz1)
      define f where "f = Node (of_nat (Suc h)) 0 (replicate 64 Null) (replicate 3 [0])"
      have f: "keeps_slot (Suc h) (ss ! k) f" unfolding f_def True by (rule keeps_slot_fresh)
      then have "wf_slot (Suc h) f" "f \<noteq> Null" by (auto simp: keeps_slot_def f_def)
      from Suc.IH [OF this, of kz1] obtain r p t' kz' where
        c: "create_path_loop (Suc h) index f kz1 = Return (r, p, t', kz')" and
        P: "keeps_slot (Suc h) f t'" "t' \<noteq> Null"
          "r = 0 \<and> p = path (Suc h) (unat index) \<and> reaches (Suc h) t' (unat index) \<or> r = - ENOMEM"
        by blast
      have "create_path_loop (Suc (Suc h)) index t kz = Return (r, k # p, Node nh (c + 1) (ss[k := t']) tg, kz')"
        using True c ok by (simp add: t f_def Let_def flip: k_def)
      with child [OF _ keeps_slot_trans [OF f P(1)] P(2)] P(3) True l show ?thesis by (simp add: k_def t)
    next
      case (fail kz1)
      with True Suc.prems show ?thesis
        by (simp add: t Let_def keeps_slot_refl del: wf_slot.simps flip: k_def)
    qed
  qed
qed

subsection \<open>Insertion\<close>

lemma keeps_root_node:
  assumes wf: "wf_root root" and h: "root_height root = Suc h" and k: "keeps_slot (Suc h) (root_node root) t'" "t' \<noteq> Null"
  shows "keeps root (root\<lparr>root_node := t'\<rparr>)"
  using assms by (auto simp: keeps_def keeps_slot_def wf_root_def contents_def fun_eq_iff)

lemma root_node_same: "root_node root = t \<Longrightarrow> root\<lparr>root_node := t\<rparr> = root"
  by (cases root) simp

lemma create_path_cases:
  assumes wf: "wf_root root"
  shows "\<exists>r p root' kz'. radix_tree_create_path root index kz = Return (r, p, root', kz') \<and> keeps root root' \<and>
     (if unat index > 64 ^ 4 \<or> insert_height root index = 0 then r = - EINVAL \<and> root' = root
      else r = - ENOMEM \<or>
           r = 0 \<and> root_height root' = insert_height root index \<and>
           p = path (root_height root') (unat index) \<and> reaches (root_height root') (root_node root') (unat index))"
proof -
  obtain r1 root1 kz1 where e: "radix_tree_extend root index kz = (r1, root1, kz1)"
    by (metis prod_cases3)
  note ext = radix_tree_extend_cases [OF wf e]
  then have wf1: "wf_root root1" by (simp add: keeps_def)
  consider (err) "r1 < 0" | (flat) "r1 = 0" "root_height root1 = 0" | (deep) h where "r1 = 0" "root_height root1 = Suc h"
    using ext by (cases "root_height root1") (auto split: if_splits)
  then show ?thesis
  proof cases
    case err
    then have "radix_tree_create_path root index kz = Return (r1, [], root1, kz1)"
      by (simp add: radix_tree_create_path_def e)
    with err ext show ?thesis by (auto split: if_splits)
  next
    case flat
    then have n: "root_node root1 = Null" using wf1 by (simp add: wf_root_def)
    from flat ext have h: "insert_height root index = 0" by (simp split: if_splits)
    then have "root_height root = 0"
      using insert_height_bounds [OF wf, of index] ext flat by (simp split: if_splits)
    then have "root1 = root"
      using e ext flat h wf by (simp add: radix_tree_extend_def extend_height_eq insert_height_def split: if_splits)
    with n flat h ext show ?thesis by (simp add: radix_tree_create_path_def e root_node_same)
  next
    case deep
    then have ne: "root_node root1 \<noteq> Null" "wf_slot (Suc h) (root_node root1)"
      using wf1 by (auto simp: wf_root_def)
    from create_path_loop_ok [OF ne(2,1), of index kz1] obtain r p t kz' where
      c: "create_path_loop (Suc h) index (root_node root1) kz1 = Return (r, p, t, kz')" and
      P: "keeps_slot (Suc h) (root_node root1) t" "t \<noteq> Null"
        "r = 0 \<and> p = path (Suc h) (unat index) \<and> reaches (Suc h) t (unat index) \<or> r = - ENOMEM"
      by blast
    have "radix_tree_create_path root index kz = Return (r, p, root1\<lparr>root_node := t\<rparr>, kz')"
      using deep c by (simp add: radix_tree_create_path_def e)
    moreover have "keeps root (root1\<lparr>root_node := t\<rparr>)"
      using ext keeps_root_node [OF wf1 deep(2) P(1,2)] keeps_trans by blast
    ultimately show ?thesis using P(3) deep ext by (auto split: if_splits)
  qed
qed

lemma contents_write:
  assumes "wf_root root" "reaches (root_height root) (root_node root) i"
  shows "contents (root\<lparr>root_node := slot_write (root_node root) (path (root_height root) i) (Item p)\<rparr>) =
           (contents root)(i mod 64 ^ root_height root \<mapsto> p)"
  using assms by (auto simp: contents_def fun_eq_iff slot_at_write wf_root_def item_of_def)

lemma slot_at_contents:
  assumes "wf_root root"
  shows "slot_at (root_height root) (root_node root) i = Null \<longleftrightarrow> contents root (i mod 64 ^ root_height root) = None"
proof -
  have "wf_slot 0 (slot_at (root_height root) (root_node root) i)"
    using assms by (auto simp: wf_root_def intro: wf_slot_at)
  then show ?thesis by (auto simp: contents_def slot_at_mod wf_slot_0 item_of_def)
qed

lemma insert_height_0: "wf_root root \<Longrightarrow> \<not> unat index > 64 ^ 4 \<Longrightarrow>
   insert_height root index = 0 \<longleftrightarrow> root_height root = 0 \<and> unat index \<le> 1"
proof
  assume "root_height root = 0 \<and> unat index \<le> 1"
  then show "insert_height root index = 0" unfolding insert_height_def by (intro Least_equality) auto
qed (use insert_height_bounds [of root index] in auto)

text \<open>The outcome of an insertion, on every branch.\<close>

lemma radix_tree_insert_cases:
  assumes wf: "wf_root root"
  shows "\<exists>r root' kz'. radix_tree_insert root index item kz = Return (r, root', kz') \<and> wf_root root' \<and>
     (\<forall>n. spent n (root_height root) (root_node root) \<longrightarrow> spent n (root_height root') (root_node root')) \<and>
     (if item = NULL \<or> unat index > 64 ^ 4 \<or> root_height root = 0 \<and> unat index \<le> 1
      then r = - EINVAL \<and> root' = root
      else if r = - ENOMEM then contents root' = contents root
      else root_height root' = insert_height root index \<and>
           (if contents root (unat index mod 64 ^ root_height root') \<noteq> None
            then r = - EEXIST \<and> contents root' = contents root
            else r = 0 \<and> contents root' = (contents root)(unat index mod 64 ^ root_height root' \<mapsto> item)))"
proof -
  from create_path_cases [OF wf, of index kz] obtain r p root' kz' where
    c: "radix_tree_create_path root index kz = Return (r, p, root', kz')" and k: "keeps root root'" and
    P: "if unat index > 64 ^ 4 \<or> insert_height root index = 0 then r = - EINVAL \<and> root' = root
        else r = - ENOMEM \<or> r = 0 \<and> root_height root' = insert_height root index \<and>
           p = path (root_height root') (unat index) \<and> reaches (root_height root') (root_node root') (unat index)"
    by blast
  have wf': "wf_root root'" "contents root' = contents root" using k by (auto simp: keeps_def)
  consider (null) "item = NULL" | (einval) "item \<noteq> NULL" "unat index > 64 ^ 4 \<or> insert_height root index = 0"
    | (enomem) "item \<noteq> NULL" "\<not> unat index > 64 ^ 4" "insert_height root index \<noteq> 0" "r = - ENOMEM"
    | (path) "item \<noteq> NULL" "\<not> unat index > 64 ^ 4" "insert_height root index \<noteq> 0" "r = 0"
    using P by (auto split: if_splits)
  then show ?thesis
  proof cases
    case null
    then show ?thesis using wf by (simp add: radix_tree_insert_def)
  next
    case einval
    with P c have "radix_tree_insert root index item kz = Return (- EINVAL, root, kz')"
      by (simp add: radix_tree_insert_def split: if_splits)
    with einval wf show ?thesis by (auto simp: insert_height_0)
  next
    case enomem
    with c have "radix_tree_insert root index item kz = Return (- ENOMEM, root', kz')"
      by (simp add: radix_tree_insert_def)
    with enomem k wf show ?thesis by (auto simp: insert_height_0 keeps_def)
  next
    case path
    then have h: "root_height root' = insert_height root index" "p = RadixTree.path (root_height root') (unat index)"
      and re: "reaches (root_height root') (root_node root') (unat index)" using P by (auto split: if_splits)
    define t where "t = slot_write (root_node root') p (Item item)"
    have rd: "slot_read (root_node root') p = Return (slot_at (root_height root') (root_node root') (unat index))"
      using h re by (simp add: slot_read_path)
    show ?thesis
    proof (cases "slot_at (root_height root') (root_node root') (unat index) = Null")
      case True
      with path c rd have "radix_tree_insert root index item kz = Return (0, root'\<lparr>root_node := t\<rparr>, kz')"
        by (simp add: radix_tree_insert_def t_def)
      moreover have "contents root (unat index mod 64 ^ insert_height root index) = None"
        using True slot_at_contents [OF wf'(1)] wf'(2) h by simp
      moreover have "wf_root (root'\<lparr>root_node := t\<rparr>)"
        using wf' re h path wf_slot_write [OF _ re, of "Item item"] by (auto simp: wf_root_def t_def)
      moreover have "contents (root'\<lparr>root_node := t\<rparr>) = (contents root)(unat index mod 64 ^ insert_height root index \<mapsto> item)"
        using contents_write [OF wf'(1) re] wf' h by (simp add: t_def)
      ultimately show ?thesis
        using path h k wf spent_slot_write [OF re] by (auto simp: keeps_def insert_height_0 t_def)
    next
      case False
      with path c rd have "radix_tree_insert root index item kz = Return (- EEXIST, root', kz')"
        by (simp add: radix_tree_insert_def)
      moreover have "contents root (unat index mod 64 ^ insert_height root index) \<noteq> None"
        using False slot_at_contents [OF wf'(1)] wf'(2) h by simp
      ultimately show ?thesis using path h k wf by (auto simp: keeps_def insert_height_0)
    qed
  qed
qed

subsection \<open>Deletion\<close>

text \<open>
  \<open>t'\<close> is \<open>t\<close> without the item at index \<open>i\<close>; in one step of a deletion, at most one
  more decrement has happened in a leaf.
\<close>

definition clears :: "nat \<Rightarrow> nat \<Rightarrow> slot \<Rightarrow> slot \<Rightarrow> bool" where
  "clears h i t t' \<longleftrightarrow> wf_slot h t' \<and> t' \<noteq> Null \<and> reaches h t' i \<and>
     (\<forall>j. slot_at h t' j = (if j mod 64 ^ h = i mod 64 ^ h then Null else slot_at h t j))"

definition clears1 :: "nat \<Rightarrow> nat \<Rightarrow> slot \<Rightarrow> slot \<Rightarrow> bool" where
  "clears1 h i t t' \<longleftrightarrow> clears h i t t' \<and>
     (\<forall>n. spent n h t \<longrightarrow> n + 1 < 2 ^ 32 \<longrightarrow> spent (n + 1) h t')"

lemma spent_mono: "spent n h t \<Longrightarrow> n \<le> m \<Longrightarrow> spent m h t"
proof (induction n h t rule: spent.induct)
  case (1 n h nh c ss tg)
  then show ?case by (auto simp: list_all_iff split: if_splits)
qed auto

lemma clears_leaf:
  assumes wf: "wf_slot (Suc 0) (Node nh c ss tg)"
  shows "clears1 (Suc 0) i (Node nh c ss tg) (Node nh (c - 1) (ss[digit 0 i := Null]) tg)"
proof -
  have l: "length ss = 64" using wf by simp
  have "unat (- (c - 1)) \<le> n + 1" if "unat (- c) \<le> n" "n + 1 < 2 ^ 32" for n
  proof -
    have "unat (a + b) \<le> unat a + unat b" for a b :: u32 by (simp add: unat_plus_if')
    from this [of 1 "- c"] that show ?thesis by simp
  qed
  then show ?thesis
    using wf slot_at_update_child [OF l, of 0 Null i Null nh "c - 1" tg _ nh c tg]
    by (simp add: clears_def clears1_def list_all_update del: power_Suc)
qed

lemma clears_child:
  assumes wf: "wf_slot (Suc (Suc h)) (Node nh c ss tg)" and nn: "ss ! digit (Suc h) i \<noteq> Null"
    and cl: "clears1 (Suc h) i (ss ! digit (Suc h) i) t'"
  shows "clears1 (Suc (Suc h)) i (Node nh c ss tg) (Node nh c (ss[digit (Suc h) i := t']) tg)"
proof -
  have l: "length ss = 64" using wf by simp
  have "used (ss[digit (Suc h) i := t']) = used ss" using nn cl l by (simp add: used_update clears_def clears1_def)
  moreover have "list_all (spent (n + 1) (Suc h)) (ss[digit (Suc h) i := t'])"
    if "list_all (spent n (Suc h)) ss" "n + 1 < 2 ^ 32" for n
  proof (rule list_all_update)
    show "list_all (spent (n + 1) (Suc h)) ss" using that spent_mono [of n _ _ "n + 1"] by (auto simp: list_all_iff)
    show "spent (n + 1) (Suc h) t'" using that cl l by (auto simp: clears_def clears1_def list_all_length)
  qed
  ultimately show ?thesis
    using wf cl slot_at_update_child [OF l, of "Suc h" t' i Null nh c tg _ nh c tg]
    by (simp add: clears_def clears1_def list_all_update l del: power_Suc slot_at.simps)
qed

lemma delete_leaf_ok:
  assumes "wf_slot (Suc h) t"
  shows "\<exists>t'. delete_leaf (Suc h) index t = Return (slot_at (Suc h) t (unat index), t') \<and>
     (if slot_at (Suc h) t (unat index) = Null then t' = t else clears1 (Suc h) (unat index) t t')"
  using assms
proof (induction h arbitrary: t)
  case 0
  then consider "t = Null" | nh c ss tg where "t = Node nh c ss tg" using wf_slot_Suc by blast
  then show ?case
  proof cases
    case 2
    with 0 clears_leaf show ?thesis by (auto simp: Let_def simp del: wf_slot.simps)
  qed simp
next
  case (Suc h)
  then consider "t = Null" | nh c ss tg where "t = Node nh c ss tg" using wf_slot_Suc by blast
  then show ?case
  proof cases
    case 2
    define k where "k = digit (Suc h) (unat index)"
    have "wf_slot (Suc h) (ss ! k)" using Suc.prems 2 by (simp add: wf_slot_nth k_def del: wf_slot.simps)
    from Suc.IH [OF this] obtain t' where
      d: "delete_leaf (Suc h) index (ss ! k) = Return (slot_at (Suc h) (ss ! k) (unat index), t')" and
      P: "if slot_at (Suc h) (ss ! k) (unat index) = Null then t' = ss ! k else clears1 (Suc h) (unat index) (ss ! k) t'"
      by blast
    have "delete_leaf (Suc (Suc h)) index t = Return (slot_at (Suc (Suc h)) t (unat index), Node nh c (ss[k := t']) tg)"
      using d by (simp add: 2 Let_def flip: k_def)
    moreover have "slot_at (Suc h) (ss ! k) (unat index) \<noteq> Null \<Longrightarrow> ss ! k \<noteq> Null" by auto
    ultimately show ?thesis
      using P clears_child [OF Suc.prems [unfolded 2], of "unat index" t'] by (auto simp: 2 simp flip: k_def split: if_splits)
  qed simp
qed

lemma leaf_count_not_1:
  assumes "spent n (Suc 0) (Node nh c ss tg)" "n + 1 < 2 ^ 32"
  shows "c - 1 \<noteq> 0"
proof
  assume "c - 1 = 0"
  then have "c = 1" by simp
  moreover have "unat (- 1 :: u32) = 4294967295" by (simp add: unsigned_minus_1_eq_mask mask_eq_exp_minus_1)
  ultimately show False using assms by simp
qed

lemma wf_reaches_Node:
  "wf_slot (Suc h) t \<Longrightarrow> reaches (Suc h) t i \<Longrightarrow> \<exists>nh c ss tg. t = Node nh c ss tg \<and> length ss = 64"
  by (cases t) auto

lemma delete_node_ok:
  assumes "wf_slot (Suc h) t" "reaches (Suc h) t (unat index)" "spent n (Suc h) t" "n + 1 < 2 ^ 32"
  shows "\<exists>t'. radix_tree_delete_node (Suc h) index t = Return t' \<and> clears1 (Suc h) (unat index) t t'"
  using assms
proof (induction h arbitrary: t)
  case 0
  from wf_reaches_Node [OF 0(1,2)] obtain nh c ss tg where t: "t = Node nh c ss tg" by blast
  have "c - 1 \<noteq> 0" using leaf_count_not_1 0(3,4) t by blast
  with clears_leaf [OF 0(1) [unfolded t]] show ?case by (simp add: t)
next
  case (Suc h)
  from wf_reaches_Node [OF Suc.prems(1,2)] obtain nh c ss tg where
    t: "t = Node nh c ss tg" and l: "length ss = 64" by blast
  define k where "k = digit (Suc h) (unat index)"
  have k: "k < 64" by (simp add: k_def)
  have "wf_slot (Suc h) (ss ! k)" using Suc.prems t by (simp add: wf_slot_nth k_def del: wf_slot.simps)
  moreover have re: "reaches (Suc h) (ss ! k) (unat index)" using Suc.prems t by (simp add: k_def)
  moreover have "spent n (Suc h) (ss ! k)" using Suc.prems t l k by (simp add: list_all_length)
  ultimately obtain t' where d: "radix_tree_delete_node (Suc h) index (ss ! k) = Return t'"
    and cl: "clears1 (Suc h) (unat index) (ss ! k) t'" using Suc.IH Suc.prems by blast
  have nn: "ss ! k \<noteq> Null" using re by auto
  have "0 < used ss" "used ss \<le> 64" using used_pos [of k ss] nn k l used_le [of ss] by simp_all
  then have "(of_nat (used ss) :: u32) \<noteq> 0" by (simp add: word_of_nat_eq_0_iff nat_dvd_not_less)
  then have "c \<noteq> 0" using Suc.prems t by simp
  with d cl have "radix_tree_delete_node (Suc (Suc h)) index t = Return (Node nh c (ss[k := t']) tg)"
    by (simp add: t Let_def clears_def clears1_def flip: k_def)
  with clears_child [OF Suc.prems(1) [unfolded t], of "unat index" t'] nn cl show ?case
    by (simp add: t flip: k_def)
qed

lemma shrink_loop_ok:
  assumes "wf_slot (Suc h) t" "t \<noteq> Null"
  shows "\<exists>h' t'. shrink_loop (Suc h) t = Return (Suc h', t') \<and> h' \<le> h \<and> wf_slot (Suc h') t' \<and> t' \<noteq> Null \<and>
     (\<forall>n. spent n (Suc h) t \<longrightarrow> spent n (Suc h') t') \<and>
     contents \<lparr>root_height = Suc h', root_node = t'\<rparr> = contents \<lparr>root_height = Suc h, root_node = t\<rparr>"
  using assms
proof (induction h arbitrary: t)
  case 0
  then show ?case by (cases t) auto
next
  case (Suc h)
  then obtain nh c ss tg where t: "t = Node nh c ss tg" and l: "length ss = 64" using wf_slot_Suc by blast
  have w0: "wf_slot (Suc h) (ss ! 0)" using Suc.prems(1) t wf_slot_nth [of "Suc h" nh c ss tg 0] by simp
  show ?case
  proof (cases "c = 1 \<and> ss ! 0 \<noteq> Null \<and> node_height (ss ! 0) = nh - 1")
    case False
    then have "shrink_loop (Suc (Suc h)) t = Return (Suc (Suc h), t)"
      using w0 by (cases "ss ! 0") (auto simp: t)
    with Suc.prems show ?thesis by simp
  next
    case True
    then obtain nh0 c0 ss0 tg0 where s0: "ss ! 0 = Node nh0 c0 ss0 tg0" using w0 wf_slot_Suc by blast
    have "shrink_loop (Suc (Suc h)) t = shrink_loop (Suc h) (ss ! 0)" using True s0 by (simp add: t)
    moreover have "used ss = 1"
    proof -
      have "(of_nat (used ss) :: u32) = of_nat 1" using True Suc.prems(1) t by simp
      moreover have "unat (of_nat (used ss) :: u32) = used ss" using used_le [of ss] l by (simp add: unat_of_nat)
      ultimately show ?thesis by simp
    qed
    then have "contents \<lparr>root_height = Suc (Suc h), root_node = t\<rparr> = contents \<lparr>root_height = Suc h, root_node = ss ! 0\<rparr>"
      unfolding t using True l used_one [of ss 0] by (intro contents_single_child) auto
    moreover have "spent n (Suc (Suc h)) t \<longrightarrow> spent n (Suc h) (ss ! 0)" for n
      using l by (auto simp: t list_all_length)
    ultimately show ?thesis using Suc.IH [OF w0] True by fastforce
  qed
qed

lemma contents_clears:
  assumes "clears (root_height root) i (root_node root) t'"
  shows "contents (root\<lparr>root_node := t'\<rparr>) = (contents root)(i mod 64 ^ root_height root := None)"
  using assms by (auto simp: contents_def clears_def item_of_def fun_eq_iff)

text \<open>
  What a deletion within the height of the tree does, as long as no leaf count has come
  round to 0: the item at the index is returned and removed, and nothing else changes.
\<close>

definition deletes :: "radixTreeRoot \<Rightarrow> nat \<Rightarrow> nat \<Rightarrow> radixTreeRoot \<Rightarrow> bool" where
  "deletes root i n root' \<longleftrightarrow> wf_root root' \<and> spent (n + 2) (root_height root') (root_node root') \<and>
     root_height root' \<le> root_height root \<and>
     contents root' = (contents root)(i mod 64 ^ root_height root := None)"

lemma deletes_none:
  assumes "wf_root root" "spent n (root_height root) (root_node root)"
    "slot_at (root_height root) (root_node root) i = Null"
  shows "deletes root i n root"
proof -
  have "contents root (i mod 64 ^ root_height root) = None" using assms slot_at_contents by blast
  with assms show ?thesis by (auto simp: deletes_def fun_upd_idem intro: spent_mono)
qed

lemma deletes_clears:
  assumes "wf_root root" "root_height root = Suc h" "clears (Suc h) i (root_node root) t'" "spent (n + 2) (Suc h) t'"
  shows "deletes root i n (root\<lparr>root_node := t'\<rparr>)"
  using assms contents_clears [of root i t'] by (auto simp: deletes_def clears_def wf_root_def)

lemma delete_single_level:
  assumes wf: "wf_root root" and n: "spent n (root_height root) (root_node root)" "n + 2 < 2 ^ 32"
    and h: "root_height root = Suc 0" and i: "unat index \<le> 64 ^ root_height root"
  shows "\<exists>root'. radix_tree_delete root index = Return (slot_at (root_height root) (root_node root) (unat index), root') \<and>
     deletes root (unat index) n root'"
proof -
  obtain nh c ss tg where t: "root_node root = Node nh c ss tg"
    using wf h wf_slot_Suc [of 0 "root_node root"] by (auto simp: wf_root_def)
  have wt: "wf_slot (Suc 0) (Node nh c ss tg)" using wf h t by (simp add: wf_root_def)
  have b: "\<not> beyond index 1" using i h by (subst beyond_iff) simp_all
  show ?thesis
  proof (cases "ss ! digit 0 (unat index) = Null")
    case True
    with b h t wf n show ?thesis
      by (intro exI [of _ root]) (auto simp: radix_tree_delete_def Let_def intro: deletes_none)
  next
    case False
    define t' where "t' = Node nh (c - 1) (ss[digit 0 (unat index) := Null]) tg"
    have "c - 1 \<noteq> 0" using n h t leaf_count_not_1 [of n nh c ss tg] by simp
    with False b h t have "radix_tree_delete root index = Return (ss ! digit 0 (unat index), root\<lparr>root_node := t'\<rparr>)"
      by (simp add: radix_tree_delete_def Let_def t'_def)
    moreover have cl: "clears1 (Suc 0) (unat index) (root_node root) t'"
      using clears_leaf [OF wt] by (simp add: t t'_def)
    then have "deletes root (unat index) n (root\<lparr>root_node := t'\<rparr>)"
      using deletes_clears [OF wf h, of "unat index" t' n] n spent_mono [of "n + 1" "Suc 0" t' "n + 2"] h
      by (simp add: clears1_def)
    ultimately show ?thesis using h t by simp
  qed
qed

lemma clears1_trans: "clears1 h i a b \<Longrightarrow> clears1 h i b c \<Longrightarrow> spent n h a \<Longrightarrow> n + 2 < 2 ^ 32 \<Longrightarrow>
   clears h i a c \<and> spent (n + 2) h c"
  by (simp add: clears_def clears1_def)

lemma delete_multi_level:
  assumes wf: "wf_root root" and n: "spent n (root_height root) (root_node root)" "n + 2 < 2 ^ 32"
    and h: "root_height root = Suc (Suc h)" and i: "unat index \<le> 64 ^ root_height root"
  shows "\<exists>root'. radix_tree_delete root index = Return (slot_at (root_height root) (root_node root) (unat index), root') \<and>
     deletes root (unat index) n root'"
proof -
  have wt: "wf_slot (Suc (Suc h)) (root_node root)" "root_node root \<noteq> Null" using wf h by (auto simp: wf_root_def)
  have b: "\<not> beyond index (Suc (Suc h))" using i h wf by (subst beyond_iff) (auto simp: wf_root_def)
  let ?s = "slot_at (Suc (Suc h)) (root_node root) (unat index)"
  from delete_leaf_ok [OF wt(1), of index] obtain t1 where
    d: "delete_leaf (Suc (Suc h)) index (root_node root) = Return (?s, t1)" and
    P: "if ?s = Null then t1 = root_node root else clears1 (Suc (Suc h)) (unat index) (root_node root) t1" by blast
  show ?thesis
  proof (cases "?s = Null")
    case True
    then have "radix_tree_delete root index = Return (Null, root)"
      using b h d P by (simp add: radix_tree_delete_def root_node_same del: slot_at.simps delete_leaf.simps)
    with True deletes_none [OF wf n(1)] h show ?thesis by auto
  next
    case False
    with P have c1: "clears1 (Suc (Suc h)) (unat index) (root_node root) t1" by simp
    then have w1: "wf_slot (Suc (Suc h)) t1" "reaches (Suc (Suc h)) t1 (unat index)" "spent (n + 1) (Suc (Suc h)) t1"
      using n h by (auto simp: clears_def clears1_def)
    from delete_node_ok [OF w1] n obtain t2 where
      d2: "radix_tree_delete_node (Suc (Suc h)) index t1 = Return t2" and
      c2: "clears1 (Suc (Suc h)) (unat index) t1 t2" by auto
    have c: "clears (Suc (Suc h)) (unat index) (root_node root) t2" "spent (n + 2) (Suc (Suc h)) t2"
      using clears1_trans [OF c1 c2] n h by auto
    note del = deletes_clears [OF wf h c]
    have "wf_slot (Suc (Suc h)) t2" "t2 \<noteq> Null" using c by (auto simp: clears_def)
    from shrink_loop_ok [OF this] obtain h' t' where
      sh: "shrink_loop (Suc (Suc h)) t2 = Return (Suc h', t')" "h' \<le> Suc h" "wf_slot (Suc h') t'" "t' \<noteq> Null"
        "\<forall>n. spent n (Suc (Suc h)) t2 \<longrightarrow> spent n (Suc h') t'"
        "contents \<lparr>root_height = Suc h', root_node = t'\<rparr> = contents \<lparr>root_height = Suc (Suc h), root_node = t2\<rparr>"
      by blast
    have "radix_tree_delete root index = Return (?s, \<lparr>root_height = Suc h', root_node = t'\<rparr>)"
      using b h d False d2 sh(1) \<open>t2 \<noteq> Null\<close>
      by (simp add: radix_tree_delete_def radix_tree_shrink_def sh(4)
          del: slot_at.simps delete_leaf.simps radix_tree_delete_node.simps shrink_loop.simps)
    moreover have "contents \<lparr>root_height = Suc (Suc h), root_node = t2\<rparr> = contents (root\<lparr>root_node := t2\<rparr>)"
      by (simp add: contents_def h fun_eq_iff)
    then have "deletes root (unat index) n \<lparr>root_height = Suc h', root_node = t'\<rparr>"
      using del sh(2-6) c(2) h wf by (simp add: deletes_def wf_root_def del: spent.simps)
    ultimately show ?thesis using h by auto
  qed
qed

lemma radix_tree_delete_cases:
  assumes wf: "wf_root root" and n: "spent n (root_height root) (root_node root)" "n + 2 < 2 ^ 32"
  shows "\<exists>root'. (if unat index \<le> 64 ^ root_height root
      then radix_tree_delete root index = Return (slot_at (root_height root) (root_node root) (unat index), root') \<and>
           deletes root (unat index) n root'
      else radix_tree_delete root index = Return (Null, root') \<and> root' = root)"
proof (cases "unat index \<le> 64 ^ root_height root")
  case True
  consider "root_height root = 0" | "root_height root = Suc 0" | h where "root_height root = Suc (Suc h)"
    by (metis not0_implies_Suc)
  then show ?thesis
  proof cases
    case 1
    then have "root_node root = Null" using wf by (simp add: wf_root_def)
    with 1 True wf n show ?thesis
      by (intro exI [of _ root]) (auto simp: radix_tree_delete_def intro: deletes_none)
  qed (use True assms delete_single_level delete_multi_level in auto)
next
  case False
  with wf show ?thesis by (auto simp: radix_tree_delete_def wf_root_def beyond_iff)
qed

subsection \<open>Memory\<close>

text \<open>The next \<open>n\<close> calls of \<^verbatim>\<open>kzalloc\<close> succeed.\<close>

definition enough :: "nat \<Rightarrow> bool list \<Rightarrow> bool" where
  "enough n kz \<longleftrightarrow> n \<le> length kz \<and> list_all id (take n kz)"

lemma enough_Suc: "enough (Suc n) kz \<longleftrightarrow> (\<exists>kz'. kz = True # kz' \<and> enough n kz')"
  by (cases kz) (auto simp: enough_def)

lemma enough_mono: "enough n kz \<Longrightarrow> m \<le> n \<Longrightarrow> enough m kz"
  by (auto simp: enough_def list_all_length)

lemma extend_once_enough:
  "enough (Suc n) kz \<Longrightarrow> \<exists>root' kz'. extend_once root kz = (Some root', kz') \<and> enough n kz'"
  by (auto simp: enough_Suc extend_once_def)

lemma extend_levels_enough:
  assumes "root_height root < height" "enough (height - root_height root + m) kz"
  shows "\<exists>root' kz'. extend_levels height root kz = (0, root', kz') \<and> enough m kz'"
  using assms
proof (induction height root kz rule: extend_levels.induct)
  case (1 height root kz)
  then have "enough (Suc (height - Suc (root_height root) + m)) kz" by (simp add: Suc_diff_Suc)
  from extend_once_enough [OF this] obtain root1 kz1 where
    e: "extend_once root kz = (Some root1, kz1)" and en: "enough (height - Suc (root_height root) + m) kz1" by blast
  from extend_once_height [OF e] have h: "root_height root1 = root_height root + 1" .
  show ?case
  proof (cases "height > root_height root1")
    case True
    with "1.IH" [OF e [symmetric] refl True True] en h show ?thesis
      by (simp add: extend_levels.simps [of height root] e)
  next
    case False
    with "1.prems" en h show ?thesis by (simp add: extend_levels.simps [of height root] e)
  qed
qed

lemma create_path_loop_enough:
  "enough h kz \<Longrightarrow> create_path_loop (Suc h) index t kz = Return (r, p, t', kz') \<Longrightarrow> r \<noteq> - ENOMEM"
proof (induction h arbitrary: t kz r p t' kz')
  case (Suc h)
  show ?case
  proof (cases t)
    case (Node nh c ss tg)
    from Suc.prems(1) obtain kz1 where "kz = True # kz1" "enough h kz1" by (auto simp: enough_Suc)
    moreover have "enough h kz" using Suc.prems(1) by (rule enough_mono) simp
    ultimately show ?thesis using Suc.prems(2) Node
      by (auto simp: Let_def bind_outcome_Return_iff split: if_splits dest: Suc.IH)
  qed (use Suc.prems in auto)
qed auto

lemma extend_enough:
  assumes "wf_root root" "enough (4 + m) kz" "radix_tree_extend root index kz = (r, root', kz')"
  shows "enough m kz' \<and> r \<noteq> - ENOMEM"
proof -
  have h4: "root_height root \<le> 4" using assms by (simp add: wf_root_def)
  consider (big) "unat index > 64 ^ 4"
    | (same) "\<not> unat index > 64 ^ 4" "insert_height root index = root_height root"
    | (grow) "\<not> unat index > 64 ^ 4" "insert_height root index > root_height root"
    using insert_height_bounds [OF assms(1)] by fastforce
  then show ?thesis
  proof cases
    case grow
    let ?d = "insert_height root index - root_height root"
    have "?d + m \<le> 4 + m" using insert_height_bounds [OF assms(1) grow(1)] by linarith
    with extend_levels_enough [OF grow(2)] enough_mono [OF assms(2)] obtain root1 kz1 where
      "extend_levels (insert_height root index) root kz = (0, root1, kz1)" "enough m kz1" by blast
    with assms(3) grow extend_height_eq [OF h4, of index, folded insert_height_def] show ?thesis
      by (simp add: radix_tree_extend_def)
  qed (use assms extend_height_eq [OF h4, of index, folded insert_height_def] enough_mono [OF assms(2), of m]
       in \<open>auto simp: radix_tree_extend_def\<close>)
qed

lemma create_path_enough:
  assumes wf: "wf_root root" and en: "enough 7 kz" and c: "radix_tree_create_path root index kz = Return (r, p, root', kz')"
  shows "r \<noteq> - ENOMEM"
proof -
  obtain r1 root1 kz1 where e: "radix_tree_extend root index kz = (r1, root1, kz1)" by (metis prod_cases3)
  from extend_enough [OF wf _ e, of 3] en have en1: "enough 3 kz1" and r1: "r1 \<noteq> - ENOMEM" by auto
  show ?thesis
  proof (cases "r1 < 0 \<or> root_height root1 = 0")
    case True
    then show ?thesis using c r1 radix_tree_extend_cases [OF wf e]
      by (cases "root_node root1") (auto simp: radix_tree_create_path_def e bind_outcome_Return_iff split: if_splits)
  next
    case False
    then obtain h where h: "root_height root1 = Suc h" by (cases "root_height root1") auto
    have "h \<le> 3" using h radix_tree_extend_cases [OF wf e] by (auto simp: keeps_def wf_root_def)
    then have "enough h kz1" using en1 by (rule enough_mono [rotated])
    with c False h show ?thesis
      by (auto simp: radix_tree_create_path_def e bind_outcome_Return_iff simp del: create_path_loop.simps
          dest: create_path_loop_enough)
  qed
qed

lemma insert_enough:
  assumes "wf_root root" "enough 7 kz" "radix_tree_insert root index item kz = Return (r, root', kz')"
  shows "r \<noteq> - ENOMEM"
  using assms by (auto simp: radix_tree_insert_def bind_outcome_Return_iff split: if_splits dest: create_path_enough)

subsection \<open>Gang lookup\<close>

lemma gang_lookup_loop_ok:
  assumes wf: "wf_root root" and "first_index \<le> index"
  shows "\<exists>results. gang_lookup_loop root first_index n index = Return results \<and> length results \<le> n \<and>
     (\<forall>k < length results. results ! k \<noteq> Null \<and> radix_tree_lookup root (index + of_nat k) = Return (results ! k)) \<and>
     (length results < n \<longrightarrow> radix_tree_lookup root (index + of_nat (length results)) = Return Null \<or>
        index + of_nat (length results) = 0)"
  using assms(2)
proof (induction n arbitrary: index)
  case (Suc n)
  obtain s where s: "radix_tree_lookup root index = Return s" using radix_tree_lookup_eq [OF wf] by blast
  consider "s = Null" | "s \<noteq> Null" "index + 1 < first_index" | "s \<noteq> Null" "first_index \<le> index + 1" by fastforce
  then show ?case
  proof cases
    case 1
    with s show ?thesis by simp
  next
    case 2
    have "index + 1 = 0"
      using 2(2) Suc.prems by (rule word_succ_wrap)
    with 2 s show ?thesis by (auto simp: add.commute)
  next
    case 3
    from Suc.IH [OF 3(2)] obtain rs where
      g: "gang_lookup_loop root first_index n (index + 1) = Return rs" and P: "length rs \<le> n"
        "\<forall>k < length rs. rs ! k \<noteq> Null \<and> radix_tree_lookup root (index + 1 + of_nat k) = Return (rs ! k)"
        "length rs < n \<longrightarrow> radix_tree_lookup root (index + 1 + of_nat (length rs)) = Return Null \<or>
           index + 1 + of_nat (length rs) = 0" by blast
    have "gang_lookup_loop root first_index (Suc n) index = Return (s # rs)" using 3 s g by (simp add: linorder_not_less [symmetric])
    then show ?thesis using P 3(1) s
      by (intro exI [of _ "s # rs"]) (auto simp: nth_Cons' less_Suc_eq_0_disj add.assoc)
  qed
qed simp

section \<open>The tree as a map\<close>

text \<open>The pointer a lookup returns for a map entry.\<close>

definition entry :: "ptr option \<Rightarrow> slot" where
  "entry v = (case v of None \<Rightarrow> Null | Some p \<Rightarrow> Item p)"

text \<open>
  The bounds test of the source compares with \<open>>\<close> where it needs \<open>\<ge>\<close>, so a power of 64
  is taken for an index of a tree it does not fit in.
\<close>

definition boundary :: "u64 \<Rightarrow> bool" where
  "boundary index \<longleftrightarrow> (\<exists>k \<le> 4. unat index = 64 ^ k)"

lemma slot_at_entry:
  assumes "wf_root root" "unat index \<le> 64 ^ root_height root"
  shows "slot_at (root_height root) (root_node root) (unat index) = entry (contents root (unat index mod 64 ^ root_height root))"
proof -
  have "wf_slot 0 (slot_at (root_height root) (root_node root) (unat index))"
    using assms by (auto simp: wf_root_def intro: wf_slot_at)
  then show ?thesis by (auto simp: contents_def slot_at_mod entry_def item_of_def wf_slot_0)
qed

lemma not_boundary:
  assumes "wf_root root" "\<not> boundary index"
  shows "unat index \<noteq> 64 ^ root_height root"
  using assms by (auto simp: boundary_def wf_root_def)

lemma insert_height_wf: "wf_root root' \<Longrightarrow> root_height root' = insert_height root index \<Longrightarrow> \<not> boundary index \<Longrightarrow>
   wf_root root \<Longrightarrow> unat index \<le> 64 ^ 4 \<Longrightarrow> unat index mod 64 ^ root_height root' = unat index"
  using insert_height_bounds [of root index] not_boundary [of root' index] by (simp add: le_neq_implies_less)

text \<open>
  Runs of the tree from \<^verbatim>\<open>radix_tree_init\<close>, with the map a client expects and the number
  of deletions so far.
\<close>

inductive radix_run :: "radixTreeRoot \<Rightarrow> (nat \<Rightarrow> ptr option) \<Rightarrow> nat \<Rightarrow> bool" where
  init: "radix_run radix_tree_init Map.empty 0"
| insert: "radix_run root m d \<Longrightarrow> \<not> boundary index \<Longrightarrow>
    radix_tree_insert root index item kz = Return (r, root', kz') \<Longrightarrow>
    radix_run root' (if r = 0 then m(unat index \<mapsto> item) else m) d"
| delete: "radix_run root m d \<Longrightarrow> \<not> boundary index \<Longrightarrow>
    radix_tree_delete root index = Return (s, root') \<Longrightarrow>
    radix_run root' (m(unat index := None)) (d + 1)"

lemma wf_root_init: "wf_root radix_tree_init" and contents_init: "contents radix_tree_init = Map.empty"
  by (auto simp: wf_root_def radix_tree_init_def contents_def item_of_def fun_eq_iff)

lemma insert_non_boundary:
  assumes wf: "wf_root root" and nb: "\<not> boundary index"
    and i: "radix_tree_insert root index item kz = Return (r, root', kz')"
  shows "contents root' = (if r = 0 then (contents root)(unat index \<mapsto> item) else contents root) \<and>
    (item \<noteq> NULL \<and> unat index \<le> 64 ^ 4 \<and> (root_height root > 0 \<or> unat index > 1) \<and> r \<noteq> - ENOMEM \<longrightarrow>
     r = (if contents root (unat index) = None then 0 else - EEXIST))"
  using radix_tree_insert_cases [OF wf, of index item kz] insert_height_wf [of root' root index] assms
  by (auto split: if_splits)

lemma delete_non_boundary:
  assumes wf: "wf_root root" and nb: "\<not> boundary index"
    and n: "spent n (root_height root) (root_node root)" "n + 2 < 2 ^ 32"
  shows "\<exists>root'. radix_tree_delete root index = Return (entry (contents root (unat index)), root') \<and>
     wf_root root' \<and> spent (n + 2) (root_height root') (root_node root') \<and>
     contents root' = (contents root)(unat index := None)"
proof (cases "unat index < 64 ^ root_height root")
  case True
  with radix_tree_delete_cases [OF wf n, of index] slot_at_entry [OF wf, of index] show ?thesis
    by (auto simp: deletes_def)
next
  case False
  then have g: "\<not> unat index \<le> 64 ^ root_height root" using not_boundary [OF wf nb] by simp
  then have "contents root (unat index) = None" by (simp add: contents_def)
  with g radix_tree_delete_cases [OF wf n, of index] wf n show ?thesis
    by (auto simp: fun_upd_idem entry_def intro: spent_mono)
qed

lemma radix_run_inv:
  "radix_run root m d \<Longrightarrow> d < 2 ^ 31 \<Longrightarrow>
   wf_root root \<and> contents root = m \<and> spent (2 * d) (root_height root) (root_node root)"
proof (induction rule: radix_run.induct)
  case init
  show ?case by (simp add: wf_root_init contents_init) (simp add: radix_tree_init_def)
next
  case (insert root m d index item kz r root' kz')
  then have wf: "wf_root root" by simp
  from radix_tree_insert_cases [OF wf, of index item kz] insert
  have "wf_root root' \<and> spent (2 * d) (root_height root') (root_node root')" by auto
  with insert_non_boundary [OF wf insert(2,3)] insert show ?case by simp
next
  case (delete root m d index s root')
  then have "wf_root root" "spent (2 * d) (root_height root) (root_node root)" "2 * d + 2 < 2 ^ 32" by auto
  from delete_non_boundary [OF this(1) delete(2) this(2,3)] delete show ?case by auto
qed

section \<open>Properties\<close>

text \<open>A tree of height 1 with one item, for the witnesses.\<close>

definition demo_tree :: radixTreeRoot where
  "demo_tree = \<lparr>root_height = 1, root_node = Node 0 0 ((replicate 64 Null)[5 := Item 7]) (replicate 3 [0])\<rparr>"

lemma demo_insert: "radix_tree_insert radix_tree_init 5 7 [True] = Return (0, demo_tree, [])"
  by code_simp

lemma demo_wf: "wf_root demo_tree"
  using radix_tree_insert_cases [OF wf_root_init, of 5 7 "[True]"] by (auto simp: demo_insert)

lemma demo_spent: "spent 0 (root_height demo_tree) (root_node demo_tree)"
  by code_simp

lemma demo_contents: "contents demo_tree 5 = Some 7"
  by code_simp



text \<open>
  An insertion never reports \<open>- ENOMEM\<close> when the next seven allocations succeed: four
  levels and the three nodes of a path are the most it asks for.
\<close>

theorem radix_tree_insert_memory:
  assumes "wf_root root" "7 \<le> length kz" "list_all id (take 7 kz)"
  shows "\<forall>r root' kz'. radix_tree_insert root index item kz = Return (r, root', kz') \<longrightarrow> r \<noteq> - ENOMEM"
  using insert_enough assms by (auto simp: enough_def)

theorem radix_tree_insert_memory_witness:
  "\<exists>r root' kz'. radix_tree_insert radix_tree_init 5 7 (replicate 7 True) = Return (r, root', kz') \<and> r \<noteq> - ENOMEM"
proof -
  from radix_tree_insert_cases [OF wf_root_init, of 5 7 "replicate 7 True"] obtain r root' kz' where
    e: "radix_tree_insert radix_tree_init 5 7 (replicate 7 True) = Return (r, root', kz')" by blast
  have "length (replicate 7 True) = 7" "list_all id (take 7 (replicate 7 True))" by (simp_all add: list_all_iff)
  with e radix_tree_insert_memory [OF wf_root_init, of "replicate 7 True" 5 7] show ?thesis by auto
qed

text \<open>
  C21. \<^verbatim>\<open>radix_tree_lookup\<close> never faults on a well-formed tree and returns the entry of the
  map for every index but one: at \<open>64 ^ height\<close>, which the bounds test lets through, it
  returns the entry of index 0.
\<close>

theorem radix_tree_lookup_spec:
  assumes "wf_root root"
  shows "radix_tree_lookup root index =
    Return (entry (contents root (if unat index = 64 ^ root_height root then 0 else unat index)))"
proof (cases "unat index > 64 ^ root_height root")
  case True
  with assms show ?thesis by (simp add: radix_tree_lookup_eq contents_def entry_def)
next
  case False
  then have "unat index mod 64 ^ root_height root = (if unat index = 64 ^ root_height root then 0 else unat index)"
    by simp
  with False slot_at_entry [OF assms, of index] show ?thesis by (simp add: radix_tree_lookup_eq [OF assms])
qed

theorem radix_tree_lookup_spec_witness:
  "wf_root demo_tree \<and> radix_tree_lookup demo_tree 5 = Return (Item 7)"
  using demo_wf radix_tree_lookup_spec [OF demo_wf, of 5] demo_contents
  by (simp add: entry_def) (simp add: demo_tree_def)

text \<open>
  C1. The tree implements a map. In every run of insertions and deletions from an empty
  tree at indices that are not powers of 64, with fewer than \<open>2 ^ 31 - 1\<close> deletions (beyond
  which the count of a leaf may come round to 0), no operation faults; a lookup and a
  deletion return the entry of the map; and an insertion of an item into a free slot
  succeeds while it gets memory, except for the indices 0 and 1 of an empty tree.
\<close>

theorem radix_run_refines_map:
  assumes "radix_run root m d" "d < 2 ^ 31 - 1" "\<not> boundary index"
  shows "radix_tree_lookup root index = Return (entry (m (unat index))) \<and>
    (\<exists>root'. radix_tree_delete root index = Return (entry (m (unat index)), root')) \<and>
    (\<exists>r root' kz'. radix_tree_insert root index item kz = Return (r, root', kz') \<and>
       (item \<noteq> NULL \<and> unat index \<le> 64 ^ 4 \<and> (root_height root > 0 \<or> unat index > 1) \<and> r \<noteq> - ENOMEM \<longrightarrow>
        r = (if m (unat index) = None then 0 else - EEXIST)))"
proof -
  from radix_run_inv [OF assms(1)] assms(2) have inv: "wf_root root" "contents root = m"
    "spent (2 * d) (root_height root) (root_node root)" by auto
  have "radix_tree_lookup root index = Return (entry (m (unat index)))"
    using inv not_boundary [OF inv(1) assms(3)] slot_at_entry [OF inv(1), of index]
    by (auto simp: radix_tree_lookup_eq contents_def entry_def)
  moreover have "2 * d + 2 < 2 ^ 32" using assms(2) by simp
  from delete_non_boundary [OF inv(1) assms(3) inv(3) this]
  have "\<exists>root'. radix_tree_delete root index = Return (entry (m (unat index)), root')" by (auto simp: inv(2))
  moreover obtain r root' kz' where i: "radix_tree_insert root index item kz = Return (r, root', kz')"
    using radix_tree_insert_cases [OF inv(1), of index item kz] by blast
  note insert_non_boundary [OF inv(1) assms(3) i, unfolded inv(2)]
  ultimately show ?thesis using i by simp
qed

theorem radix_run_refines_map_witness:
  "radix_run demo_tree [5 \<mapsto> 7] 0 \<and> radix_tree_lookup demo_tree 5 = Return (Item 7)"
proof -
  have nb: "\<not> boundary 5"
    by (auto simp: boundary_def power_eq_if)
  from radix_run.insert [OF radix_run.init nb demo_insert] have run: "radix_run demo_tree [5 \<mapsto> 7] 0" by simp
  from radix_run_refines_map [OF this _ nb] run show ?thesis by (simp add: entry_def)
qed

end
