(* ===== verification/RadixTags.thy ===== *)
theory RadixTags
  imports RadixTree
begin

text \<open>
  The tags of the radix tree (\<^verbatim>\<open>kernel/util/radix_tree.c\<close>): every node has one 64-bit word
  per tag, a bit array indexed by slot, and an index is tagged when the bit is set at every
  level on the way to it. The lemmas say exactly which indices a \<^verbatim>\<open>tag_set\<close> and a
  \<^verbatim>\<open>tag_clear\<close> affect, and when the scan of \<^verbatim>\<open>radix_tree_gang_lookup_tag\<close> ends.
\<close>

section \<open>Model\<close>

text \<open>
  The descents of \<^verbatim>\<open>radix_tree_tag_set\<close> and \<^verbatim>\<open>radix_tree_tag_clear\<close>: the bits written before
  a missing node is met stay written.
\<close>

fun tag_set_loop :: "nat \<Rightarrow> u64 \<Rightarrow> nat \<Rightarrow> slot \<Rightarrow> (int \<times> slot) outcome" where
  "tag_set_loop 0 index tag node = Return (0, node)"
| "tag_set_loop (Suc h) index tag Null = Return (- ENOENT, Null)"
| "tag_set_loop (Suc h) index tag (Node nh c ss tg) =
     (let offset = slot_offset index (h * 6);
          tg' = tg[tag := wa_set (tg ! tag) offset]
      in bind_outcome (tag_set_loop h index tag (ss ! offset))
           (\<lambda>(r, child). Return (r, Node nh c (ss[offset := child]) tg')))"
| "tag_set_loop (Suc h) index tag (Item p) = Fault"

fun tag_clear_loop :: "nat \<Rightarrow> u64 \<Rightarrow> nat \<Rightarrow> slot \<Rightarrow> (int \<times> slot) outcome" where
  "tag_clear_loop 0 index tag node = Return (0, node)"
| "tag_clear_loop (Suc h) index tag Null = Return (- ENOENT, Null)"
| "tag_clear_loop (Suc h) index tag (Node nh c ss tg) =
     (let offset = slot_offset index (h * 6);
          tg' = tg[tag := wa_clear (tg ! tag) offset]
      in bind_outcome (tag_clear_loop h index tag (ss ! offset))
           (\<lambda>(r, child). Return (r, Node nh c (ss[offset := child]) tg')))"
| "tag_clear_loop (Suc h) index tag (Item p) = Fault"

definition radix_tree_tag_set :: "radixTreeRoot \<Rightarrow> u64 \<Rightarrow> nat \<Rightarrow> (int \<times> radixTreeRoot) outcome" where
  "radix_tree_tag_set root index tag =
     (if tag \<ge> 3 then Return (- EINVAL, root)
      else if root_height root = 0 then Return (- ENOENT, root)
      else if beyond index (root_height root) then Return (- ENOENT, root)
      else bind_outcome (tag_set_loop (root_height root) index tag (root_node root))
             (\<lambda>(r, node). Return (r, root\<lparr>root_node := node\<rparr>)))"

definition radix_tree_tag_clear :: "radixTreeRoot \<Rightarrow> u64 \<Rightarrow> nat \<Rightarrow> (int \<times> radixTreeRoot) outcome" where
  "radix_tree_tag_clear root index tag =
     (if tag \<ge> 3 then Return (- EINVAL, root)
      else if root_height root = 0 then Return (- ENOENT, root)
      else if beyond index (root_height root) then Return (- ENOENT, root)
      else bind_outcome (tag_clear_loop (root_height root) index tag (root_node root))
             (\<lambda>(r, node). Return (r, root\<lparr>root_node := node\<rparr>)))"

fun tag_get_loop :: "nat \<Rightarrow> u64 \<Rightarrow> nat \<Rightarrow> slot \<Rightarrow> int outcome" where
  "tag_get_loop 0 index tag node = Return 1"
| "tag_get_loop (Suc h) index tag Null = Return 0"
| "tag_get_loop (Suc h) index tag (Node nh c ss tg) =
     (let offset = slot_offset index (h * 6) in
      if \<not> wa_test (tg ! tag) offset then Return 0 else tag_get_loop h index tag (ss ! offset))"
| "tag_get_loop (Suc h) index tag (Item p) = Fault"

definition radix_tree_tag_get :: "radixTreeRoot \<Rightarrow> u64 \<Rightarrow> nat \<Rightarrow> int outcome" where
  "radix_tree_tag_get root index tag =
     (if tag \<ge> 3 then Return 0
      else if root_height root = 0 then Return 0
      else if beyond index (root_height root) then Return 0
      else tag_get_loop (root_height root) index tag (root_node root))"

text \<open>
  The inner loop of \<^verbatim>\<open>radix_tree_gang_lookup_tag\<close>, which may not end: \<open>Some (Return (Some i))\<close>
  when it stops at a tagged index, \<open>Some (Return None)\<close> when the index has wrapped around,
  and \<open>None\<close> when it runs for ever.
\<close>

partial_function (option) skip_untagged ::
  "radixTreeRoot \<Rightarrow> u64 \<Rightarrow> nat \<Rightarrow> u64 \<Rightarrow> u64 option outcome option" where
  "skip_untagged root first_index tag index =
     (case radix_tree_tag_get root index tag of
        Return t \<Rightarrow>
          if t \<noteq> 0 then Some (Return (Some index))
          else if index + 1 < first_index then Some (Return None)
          else skip_untagged root first_index tag (index + 1)
      | Fault \<Rightarrow> Some Fault)"

text \<open>The outer loop; \<open>n\<close> is \<^verbatim>\<open>max_items - found\<close>.\<close>

fun gang_lookup_tag_loop ::
  "radixTreeRoot \<Rightarrow> u64 \<Rightarrow> nat \<Rightarrow> nat \<Rightarrow> u64 \<Rightarrow> slot list outcome option" where
  "gang_lookup_tag_loop root first_index tag 0 index = Some (Return [])"
| "gang_lookup_tag_loop root first_index tag (Suc n) index =
     (case skip_untagged root first_index tag index of
        None \<Rightarrow> None
      | Some Fault \<Rightarrow> Some Fault
      | Some (Return None) \<Rightarrow> Some (Return [])
      | Some (Return (Some i)) \<Rightarrow>
          (case radix_tree_lookup root i of
             Return item \<Rightarrow>
               if item = Null then Some (Return [])
               else if i + 1 < first_index then Some (Return [item])
               else map_option (\<lambda>r. bind_outcome r (\<lambda>items. Return (item # items)))
                      (gang_lookup_tag_loop root first_index tag n (i + 1))
           | Fault \<Rightarrow> Some Fault))"

definition radix_tree_gang_lookup_tag ::
  "radixTreeRoot \<Rightarrow> u64 \<Rightarrow> u32 \<Rightarrow> nat \<Rightarrow> slot list outcome option" where
  "radix_tree_gang_lookup_tag root first_index max_items tag =
     (if tag \<ge> 3 then Some (Return [])
      else gang_lookup_tag_loop root first_index tag (unat max_items) first_index)"

section \<open>Specification\<close>

text \<open>The bit of a tag at level \<open>l\<close> (counted from the leaves) on the way to index \<open>i\<close>.\<close>

fun tag_at :: "nat \<Rightarrow> slot \<Rightarrow> nat \<Rightarrow> nat \<Rightarrow> nat \<Rightarrow> bool" where
  "tag_at (Suc h) (Node nh c ss tg) tag l i =
     (if l = h then wa_test (tg ! tag) (digit h i) else tag_at h (ss ! digit h i) tag l i)"
| "tag_at h t tag l i = False"

text \<open>Two indices share the slots from the root of a tree of height \<open>h\<close> down to level \<open>l\<close>.\<close>

definition same_slots :: "nat \<Rightarrow> nat \<Rightarrow> nat \<Rightarrow> nat \<Rightarrow> bool" where
  "same_slots h l i j \<longleftrightarrow> (\<forall>k. l \<le> k \<and> k < h \<longrightarrow> digit k i = digit k j)"

section \<open>Lemmas\<close>

lemma same_slots_Suc: "same_slots (Suc h) l i j \<longleftrightarrow> (l \<le> h \<longrightarrow> digit h i = digit h j) \<and> same_slots h l i j"
  by (auto simp: same_slots_def less_Suc_eq)

lemma wf_tag_words:
  assumes "wf_slot (Suc h) (Node nh c ss tg)" "tag < 3"
  shows "wa_cap (tg ! tag) = 64"
  using assms by (auto simp: wa_cap_def list_all_length)

lemma tag_get_loop_eq:
  assumes "wf_slot h t"
  shows "tag_get_loop h index tag t = Return (if \<forall>l < h. tag_at h t tag l (unat index) then 1 else 0)"
  using assms
proof (induction h arbitrary: t)
  case (Suc h)
  show ?case
  proof (cases t)
    case (Node nh c ss tg)
    then have "wf_slot h (ss ! digit h (unat index))" using Suc.prems by (auto simp: list_all_length)
    from Suc.IH [OF this] Node show ?thesis by (auto simp: Let_def less_Suc_eq split: if_splits)
  qed (use Suc.prems in auto)
qed simp

text \<open>
  Both descents are one walk that writes the bit \<open>b\<close> with an update function \<open>upd\<close>; the
  lemmas below are proved for the walk.
\<close>

fun tag_walk :: "(u64 list \<Rightarrow> nat \<Rightarrow> u64 list) \<Rightarrow> nat \<Rightarrow> nat \<Rightarrow> nat \<Rightarrow> slot \<Rightarrow> int \<times> slot" where
  "tag_walk upd (Suc h) i tag (Node nh c ss tg) =
     (case tag_walk upd h i tag (ss ! digit h i) of
        (r, child) \<Rightarrow> (r, Node nh c (ss[digit h i := child]) (tg[tag := upd (tg ! tag) (digit h i)])))"
| "tag_walk upd 0 i tag t = (0, t)"
| "tag_walk upd (Suc h) i tag t = (- ENOENT, t)"

lemma tag_set_loop_walk: "wf_slot h t \<Longrightarrow> tag_set_loop h index tag t = Return (tag_walk wa_set h (unat index) tag t)"
proof (induction h arbitrary: t)
  case (Suc h)
  then show ?case by (cases t) (auto simp: Let_def list_all_length split: prod.splits)
qed simp

lemma tag_clear_loop_walk: "wf_slot h t \<Longrightarrow> tag_clear_loop h index tag t = Return (tag_walk wa_clear h (unat index) tag t)"
proof (induction h arbitrary: t)
  case (Suc h)
  then show ?case by (cases t) (auto simp: Let_def list_all_length split: prod.splits)
qed simp

lemma tag_walk_shape:
  assumes "wf_slot h t" "\<And>w i. length (upd w i) = length w"
  shows "wf_slot h (snd (tag_walk upd h i tag t)) \<and> (snd (tag_walk upd h i tag t) = Null \<longleftrightarrow> t = Null) \<and>
    (\<forall>j. slot_at h (snd (tag_walk upd h i tag t)) j = slot_at h t j) \<and>
    fst (tag_walk upd h i tag t) = (if reaches h t i then 0 else - ENOENT)"
  using assms(1)
proof (induction h arbitrary: t)
  case (Suc h)
  show ?case
  proof (cases t)
    case (Node nh c ss tg)
    define k where "k = digit h i"
    obtain r child where e: "tag_walk upd h i tag (ss ! k) = (r, child)" by fastforce
    have l: "length ss = 64" and k: "k < 64" and w: "wf_slot h (ss ! k)"
      using Suc.prems Node by (auto simp: list_all_length k_def)
    from Suc.IH [OF w] e have IH: "wf_slot h child" "child = Null \<longleftrightarrow> ss ! k = Null"
      "\<And>j. slot_at h child j = slot_at h (ss ! k) j" "r = (if reaches h (ss ! k) i then 0 else - ENOENT)" by auto
    have "used (ss[k := child]) = used ss" using l k IH(2) by (simp add: used_update)
    moreover have "slot_at h (ss[k := child] ! q) j = slot_at h (ss ! q) j" for q j
      using IH(3) l k by (cases "q = k") auto
    moreover have "list_all (\<lambda>w. length w = 1) (tg[tag := upd (tg ! tag) k])"
      using Suc.prems Node assms(2) by (cases "tag < length tg") (auto simp: list_all_length nth_list_update)
    ultimately show ?thesis using Suc.prems Node IH(1,4) l e
      by (simp add: list_all_update flip: k_def)
  qed (use Suc.prems in auto)
qed simp

lemma tag_walk_bits:
  assumes "wf_slot h t" "reaches h t i" "tag < 3" "tag' < 3" "l < h"
    and upd: "\<And>w k q. wa_cap w = 64 \<Longrightarrow> k < 64 \<Longrightarrow> q < 64 \<Longrightarrow> wa_test (upd w k) q \<longleftrightarrow> (if q = k then b else wa_test w q)"
  shows "tag_at h (snd (tag_walk upd h i tag t)) tag' l j \<longleftrightarrow>
           (if tag' = tag \<and> same_slots h l i j then b else tag_at h t tag' l j)"
  using assms(1,2,5)
proof (induction h arbitrary: t)
  case (Suc h)
  then obtain nh c ss tg where t: "t = Node nh c ss tg" and len: "length ss = 64"
    using wf_reaches_Node by blast
  define k where "k = digit h i"
  obtain r child where e: "tag_walk upd h i tag (ss ! k) = (r, child)" by fastforce
  have k: "k < 64" and w: "wf_slot h (ss ! k)" and re: "reaches h (ss ! k) i" and tg: "length tg = 3"
    using Suc.prems t by (auto simp: list_all_length k_def)
  have cap: "wa_cap (tg ! tag) = 64" using wf_tag_words Suc.prems(1) t assms(3) by blast
  show ?case
  proof (cases "l = h")
    case True
    have "same_slots (Suc h) h i j \<longleftrightarrow> digit h j = digit h i" by (auto simp: same_slots_Suc) (auto simp: same_slots_def)
    with True e tg assms(3,4) upd [OF cap k, of "digit h j"] show ?thesis
      by (simp add: t nth_list_update flip: k_def) (auto simp: k_def)
  next
    case False
    then have lh: "l < h" using Suc.prems by simp
    have "tag_at h (ss[k := child] ! digit h j) tag' l j \<longleftrightarrow>
        (if tag' = tag \<and> digit h i = digit h j \<and> same_slots h l i j then b else tag_at h (ss ! digit h j) tag' l j)"
      using Suc.IH [OF w re lh] e len k by (cases "digit h j = k") (auto simp: k_def)
    with False e lh show ?thesis by (auto simp: t same_slots_Suc simp flip: k_def)
  qed
qed simp

text \<open>Whether an index is tagged.\<close>

definition is_tagged :: "radixTreeRoot \<Rightarrow> nat \<Rightarrow> nat \<Rightarrow> bool" where
  "is_tagged root tag i \<longleftrightarrow> tag < 3 \<and> root_height root > 0 \<and> i \<le> 64 ^ root_height root \<and>
     (\<forall>l < root_height root. tag_at (root_height root) (root_node root) tag l i)"

lemma radix_tree_tag_get_eq:
  "wf_root root \<Longrightarrow> radix_tree_tag_get root index tag = Return (if is_tagged root tag (unat index) then 1 else 0)"
  by (auto simp: radix_tree_tag_get_def is_tagged_def wf_root_def beyond_iff tag_get_loop_eq)

lemma radix_tree_tag_get_1:
  "wf_root root \<Longrightarrow> radix_tree_tag_get root index tag = Return 1 \<longleftrightarrow> is_tagged root tag (unat index)"
  by (simp add: radix_tree_tag_get_eq)

text \<open>The whole of the two operations, as the walk.\<close>

definition tag_op :: "(u64 list \<Rightarrow> nat \<Rightarrow> u64 list) \<Rightarrow> radixTreeRoot \<Rightarrow> u64 \<Rightarrow> nat \<Rightarrow> int \<times> radixTreeRoot" where
  "tag_op upd root index tag =
     (if tag \<ge> 3 then (- EINVAL, root)
      else if root_height root = 0 \<or> unat index > 64 ^ root_height root then (- ENOENT, root)
      else case tag_walk upd (root_height root) (unat index) tag (root_node root) of
             (r, node) \<Rightarrow> (r, root\<lparr>root_node := node\<rparr>))"

lemma tag_set_op: "wf_root root \<Longrightarrow> radix_tree_tag_set root index tag = Return (tag_op wa_set root index tag)"
  by (auto simp: radix_tree_tag_set_def tag_op_def wf_root_def beyond_iff tag_set_loop_walk split: prod.splits)

lemma tag_clear_op: "wf_root root \<Longrightarrow> radix_tree_tag_clear root index tag = Return (tag_op wa_clear root index tag)"
  by (auto simp: radix_tree_tag_clear_def tag_op_def wf_root_def beyond_iff tag_clear_loop_walk split: prod.splits)

text \<open>The nodes on the way to an index of the tree exist, so that a tag can be written there.\<close>

definition taggable :: "radixTreeRoot \<Rightarrow> nat \<Rightarrow> bool" where
  "taggable root i \<longleftrightarrow> root_height root > 0 \<and> i \<le> 64 ^ root_height root \<and> reaches (root_height root) (root_node root) i"

lemma tag_op_shape:
  assumes "wf_root root" "\<And>w i. length (upd w i) = length w" "tag_op upd root index tag = (r, root')"
  shows "wf_root root' \<and> root_height root' = root_height root \<and> contents root' = contents root \<and>
     r = (if tag \<ge> 3 then - EINVAL else if taggable root (unat index) then 0 else - ENOENT)"
  using assms tag_walk_shape [of "root_height root" "root_node root" upd "unat index" tag]
  by (auto simp: tag_op_def wf_root_def contents_def taggable_def fun_eq_iff split: if_splits prod.splits)

lemma tag_op_tagged:
  assumes wf: "wf_root root" and t: "tag < 3" "taggable root (unat index)"
    and upd: "\<And>w k q. wa_cap w = 64 \<Longrightarrow> k < 64 \<Longrightarrow> q < 64 \<Longrightarrow> wa_test (upd w k) q \<longleftrightarrow> (if q = k then b else wa_test w q)"
    and e: "tag_op upd root index tag = (r, root')"
  shows "is_tagged root' tag' j \<longleftrightarrow> tag' < 3 \<and> root_height root > 0 \<and> j \<le> 64 ^ root_height root \<and>
     (\<forall>l < root_height root. if tag' = tag \<and> same_slots (root_height root) l (unat index) j then b
        else tag_at (root_height root) (root_node root) tag' l j)"
proof (cases "tag' < 3")
  case True
  have "root' = root\<lparr>root_node := snd (tag_walk upd (root_height root) (unat index) tag (root_node root))\<rparr>"
    using e t by (auto simp: tag_op_def taggable_def split: prod.splits)
  with wf t True tag_walk_bits [of "root_height root" "root_node root" "unat index" tag tag' _ upd b, OF _ _ _ _ _ upd]
  show ?thesis by (auto simp: is_tagged_def wf_root_def taggable_def)
qed (simp add: is_tagged_def)

lemma wa_set_bit: "wa_cap w = 64 \<Longrightarrow> k < 64 \<Longrightarrow> q < 64 \<Longrightarrow> wa_test (wa_set w k) q \<longleftrightarrow> (if q = k then True else wa_test w q)"
  by (simp add: wa_test_set)

lemma wa_clear_bit: "wa_cap w = 64 \<Longrightarrow> k < 64 \<Longrightarrow> q < 64 \<Longrightarrow> wa_test (wa_clear w k) q \<longleftrightarrow> (if q = k then False else wa_test w q)"
  by (simp add: wa_test_clear)

subsection \<open>The scan for tagged indices\<close>

lemma skip_untagged_ends:
  assumes wf: "wf_root root" and f: "0 < first_index" "first_index \<le> index"
  shows "\<exists>o1. skip_untagged root first_index tag index = Some (Return o1) \<and>
     (\<forall>i. o1 = Some i \<longrightarrow> index \<le> i \<and> is_tagged root tag (unat i) \<and>
        (\<forall>j. index \<le> j \<and> j < i \<longrightarrow> \<not> is_tagged root tag (unat j))) \<and>
     (o1 = None \<longrightarrow> (\<forall>j \<ge> index. \<not> is_tagged root tag (unat j)))"
  using f(2)
proof (induction "2 ^ 64 - unat index" arbitrary: index rule: less_induct)
  case less
  show ?case
  proof (cases "is_tagged root tag (unat index)")
    case True
    then show ?thesis by (subst skip_untagged.simps) (auto simp: radix_tree_tag_get_eq [OF wf])
  next
    case False
    have split: "index \<le> j \<longleftrightarrow> j = index \<or> index + 1 \<le> j" if "index + 1 \<noteq> 0" for j
      using that unatSuc [of index] by (auto simp: word_le_nat_alt add.commute word_unat_eq_iff)
    show ?thesis
    proof (cases "index + 1 < first_index")
      case True
      then have "index + 1 = 0" using less.prems by (rule word_succ_wrap)
      then have "index = - 1" by (simp add: eq_neg_iff_add_eq_0)
      then have "index \<le> j \<Longrightarrow> j = index" for j by (simp add: word_order.extremum_unique)
      with True False show ?thesis
        by (subst skip_untagged.simps) (auto simp: radix_tree_tag_get_eq [OF wf])
    next
      case ge: False
      then have nz: "index + 1 \<noteq> 0" using f(1) by auto
      then have u: "unat (index + 1) = Suc (unat index)" using unatSuc [of index] by (simp add: add.commute)
      have "unat index < 2 ^ LENGTH(64)" by (rule unsigned_less)
      then have "2 ^ 64 - unat (index + 1) < 2 ^ 64 - unat index"
        unfolding u by (intro diff_less_mono2) simp_all
      from less.hyps [OF this] ge obtain o1 where
        o1: "skip_untagged root first_index tag (index + 1) = Some (Return o1)"
        "\<forall>i. o1 = Some i \<longrightarrow> index + 1 \<le> i \<and> is_tagged root tag (unat i) \<and>
           (\<forall>j. index + 1 \<le> j \<and> j < i \<longrightarrow> \<not> is_tagged root tag (unat j))"
        "o1 = None \<longrightarrow> (\<forall>j \<ge> index + 1. \<not> is_tagged root tag (unat j))" by force
      have "skip_untagged root first_index tag index = Some (Return o1)"
        using o1(1) False ge by (subst skip_untagged.simps) (simp add: radix_tree_tag_get_eq [OF wf])
      with o1(2,3) False show ?thesis by (auto simp: split [OF nz])
    qed
  qed
qed

lemma skip_untagged_diverges:
  assumes wf: "wf_root root" and "\<And>i :: u64. \<not> is_tagged root tag (unat i)"
  shows "skip_untagged root 0 tag index = None"
proof (rule ccontr)
  assume "skip_untagged root 0 tag index \<noteq> None"
  then obtain y where y: "skip_untagged root 0 tag index = Some y" by blast
  have "root = root \<and> (0::u64) = 0 \<and> tag = tag \<longrightarrow> False"
    by (rule skip_untagged.raw_induct
          [where P = "\<lambda>r f t i y. r = root \<and> f = 0 \<and> t = tag \<longrightarrow> False", OF _ y])
       (use assms in \<open>auto simp: radix_tree_tag_get_eq [OF wf], blast\<close>)
  then show False by simp
qed

lemma gang_lookup_tag_ends:
  assumes wf: "wf_root root" and f: "0 < first_index" "first_index \<le> index"
  shows "\<exists>items. gang_lookup_tag_loop root first_index tag n index = Some (Return items) \<and> length items \<le> n \<and>
     (\<forall>x \<in> set items. x \<noteq> Null \<and>
        (\<exists>i \<ge> first_index. is_tagged root tag (unat i) \<and> radix_tree_lookup root i = Return x))"
  using f(2)
proof (induction n arbitrary: index)
  case (Suc n)
  from skip_untagged_ends [OF wf f(1) Suc.prems, of tag] obtain o1 where
    sk: "skip_untagged root first_index tag index = Some (Return o1)" and
    o1: "\<And>i. o1 = Some i \<Longrightarrow> index \<le> i \<and> is_tagged root tag (unat i)" by blast
  show ?case
  proof (cases o1)
    case None
    with sk show ?thesis by simp
  next
    case (Some i)
    with o1 have i: "index \<le> i" "is_tagged root tag (unat i)" by auto
    then have fi: "first_index \<le> i" using Suc.prems by simp
    obtain x where x: "radix_tree_lookup root i = Return x" using radix_tree_lookup_eq [OF wf] by blast
    show ?thesis
    proof (cases "x = Null \<or> i + 1 < first_index")
      case True
      with sk Some x i fi show ?thesis by auto
    next
      case False
      then have "first_index \<le> i + 1" by (simp add: not_less)
      from Suc.IH [OF this] obtain items where
        "gang_lookup_tag_loop root first_index tag n (i + 1) = Some (Return items)" "length items \<le> n"
        "\<forall>x \<in> set items. x \<noteq> Null \<and> (\<exists>i \<ge> first_index. is_tagged root tag (unat i) \<and> radix_tree_lookup root i = Return x)"
        by blast
      with sk Some x False i fi show ?thesis by auto
    qed
  qed
qed simp

subsection \<open>Tags and the growth of the tree\<close>

fun top_tags :: "slot \<Rightarrow> u64 list list" where
  "top_tags (Node nh c ss tg) = tg"
| "top_tags _ = []"

lemma top_tags_extend_once: "extend_once root kz = (Some root', kz') \<Longrightarrow> top_tags (root_node root') = replicate 3 [0]"
  by (cases rule: node_alloc_cases [of kz]) (auto simp: extend_once_def split: if_splits)

lemma top_tags_extend_levels:
  "extend_levels height root kz = (0, root', kz') \<Longrightarrow> top_tags (root_node root') = replicate 3 [0]"
proof (induction height root kz rule: extend_levels.induct)
  case (1 height root kz)
  then show ?case
    by (auto simp: extend_levels.simps [of height root] top_tags_extend_once split: prod.splits option.splits if_splits)
qed

lemma top_tags_create_path_loop:
  assumes "create_path_loop (Suc h) index t kz = Return (r, p, t', kz')"
  shows "top_tags t' = top_tags t"
  using assms
  by (cases h; cases t)
     (auto simp: Let_def bind_outcome_Return_iff split: if_splits prod.splits slot.splits)

lemma top_tags_slot_write: "p \<noteq> [] \<Longrightarrow> top_tags (slot_write t p v) = top_tags t"
  by (cases p; cases t) auto

lemma no_top_tags:
  assumes "wf_root root" "top_tags (root_node root) = replicate 3 [0]"
  shows "\<not> is_tagged root tag i"
proof (cases "root_node root")
  case (Node nh c ss tg)
  then have "\<not> wa_test (tg ! tag) (digit k i)" if "tag < 3" for k
    using that assms wa_test_replicate_0 [of "digit k i" 1, where 'a = 64] by simp
  with Node show ?thesis by (cases "root_height root") (auto simp: is_tagged_def)
qed (use assms in \<open>auto simp: is_tagged_def wf_root_def\<close>)

lemma top_tags_extend:
  assumes wf: "wf_root root" and e: "radix_tree_extend root index kz = (0, root', kz')"
    and g: "insert_height root index > root_height root"
  shows "top_tags (root_node root') = replicate 3 [0]"
proof -
  have "\<not> unat index > 64 ^ 4" using radix_tree_extend_cases [OF wf e] by auto
  moreover have "root_height root \<le> 4" using wf by (simp add: wf_root_def)
  ultimately have "extend_height index (root_height root) = Some (insert_height root index)"
    by (simp add: extend_height_eq insert_height_def)
  with e g have "extend_levels (insert_height root index) root kz = (0, root', kz')"
    by (simp add: radix_tree_extend_def)
  then show ?thesis by (rule top_tags_extend_levels)
qed

lemma top_tags_insert:
  assumes wf: "wf_root root" and i: "radix_tree_insert root index item kz = Return (0, root', kz')"
    and g: "insert_height root index > root_height root"
  shows "top_tags (root_node root') = replicate 3 [0]"
proof -
  obtain r1 root1 kz1 where e: "radix_tree_extend root index kz = (r1, root1, kz1)" by (metis prod_cases3)
  from i obtain p root2 kz2 where c: "radix_tree_create_path root index kz = Return (0, p, root2, kz2)" and
    w: "root' = root2\<lparr>root_node := slot_write (root_node root2) p (Item item)\<rparr>"
    using create_path_cases [OF wf, of index kz]
    by (auto simp: radix_tree_insert_def bind_outcome_Return_iff split: if_splits)
  from c e have "\<not> r1 < 0" by (auto simp: radix_tree_create_path_def)
  with radix_tree_extend_cases [OF wf e] have r1: "r1 = 0" "root_height root1 = insert_height root index"
    by (auto split: if_splits)
  with g obtain h where h: "root_height root1 = Suc h" by (metis gr_implies_not0 not0_implies_Suc)
  from c e r1(1) have "create_path_loop (Suc h) index (root_node root1) kz1 = Return (0, p, root_node root2, kz2)"
    by (auto simp: radix_tree_create_path_def bind_outcome_Return_iff h simp del: create_path_loop.simps)
  from top_tags_create_path_loop [OF this] top_tags_extend [OF wf e [unfolded r1(1)] g]
  have "top_tags (root_node root2) = replicate 3 [0]" by simp
  moreover have "p \<noteq> []" using create_path_cases [OF wf, of index kz] c g by (auto simp: path_def split: if_splits)
  ultimately show ?thesis by (simp add: w top_tags_slot_write)
qed

section \<open>Properties\<close>

text \<open>
  A tree of height 2 with the items 1 and 2 at the indices 65 and 66, both with tag 0, for
  the witnesses.
\<close>

definition tag_demo_leaf :: slot where
  "tag_demo_leaf = Node 1 0 ((replicate 64 Null)[1 := Item 1, 2 := Item 2]) [[6], [0], [0]]"

definition tag_demo :: radixTreeRoot where
  "tag_demo = \<lparr>root_height = 2, root_node = Node 2 1 ((replicate 64 Null)[1 := tag_demo_leaf]) [[2], [0], [0]]\<rparr>"

lemma tag_demo_wf: "wf_root tag_demo"
proof -
  have "wf_slot 1 tag_demo_leaf"
    by (simp add: tag_demo_leaf_def list_all_update)
  moreover have "used ((replicate 64 Null)[1 := tag_demo_leaf]) = 1"
    by (subst used_update) (simp_all add: tag_demo_leaf_def)
  ultimately show ?thesis
    by (simp add: tag_demo_def wf_root_def list_all_update)
qed

lemma taggable_demo: "taggable tag_demo 65" "taggable tag_demo 66"
  by (simp_all add: taggable_def tag_demo_def tag_demo_leaf_def numeral_2_eq_2 digit_def)

text \<open>
  C31. \<^verbatim>\<open>radix_tree_tag_set\<close> never faults on a well-formed tree, keeps its map and returns 0
  exactly when all nodes on the way to the index exist (\<open>- ENOENT\<close> otherwise, \<open>- EINVAL\<close> for
  a tag above 2). After a success the index is tagged, every index that had a tag still
  has it, and the other two tags are those of before.
\<close>

theorem radix_tree_tag_set_spec:
  assumes "wf_root root"
  shows "\<exists>r root'. radix_tree_tag_set root index tag = Return (r, root') \<and> wf_root root' \<and> contents root' = contents root \<and>
    r = (if tag \<ge> 3 then - EINVAL else if taggable root (unat index) then 0 else - ENOENT) \<and>
    (r = 0 \<longrightarrow> radix_tree_tag_get root' index tag = Return 1 \<and>
       (\<forall>j t. radix_tree_tag_get root j t = Return 1 \<longrightarrow> radix_tree_tag_get root' j t = Return 1) \<and>
       (\<forall>j t. t \<noteq> tag \<longrightarrow> radix_tree_tag_get root' j t = radix_tree_tag_get root j t))"
proof -
  obtain r root' where e: "tag_op wa_set root index tag = (r, root')" by fastforce
  note sh = tag_op_shape [OF assms _ e, simplified]
  note bits = tag_op_tagged [OF assms, of tag index wa_set True, OF _ _ wa_set_bit e]
  have "radix_tree_tag_set root index tag = Return (r, root')" using e by (simp add: tag_set_op [OF assms])
  moreover have "is_tagged root' tag (unat index)" "\<forall>j t. is_tagged root t j \<longrightarrow> is_tagged root' t j"
      "\<forall>j t. t \<noteq> tag \<longrightarrow> is_tagged root' t j = is_tagged root t j" if "tag < 3" "taggable root (unat index)"
    using that by (auto simp: bits [OF that] taggable_def same_slots_def is_tagged_def [of root])
  ultimately show ?thesis using sh by (auto simp: radix_tree_tag_get_eq assms split: if_splits)
qed

theorem radix_tree_tag_set_spec_witness:
  "wf_root tag_demo \<and> (\<exists>root'. radix_tree_tag_set tag_demo 65 1 = Return (0, root') \<and> radix_tree_tag_get root' 65 1 = Return 1)"
  using tag_demo_wf radix_tree_tag_set_spec [OF tag_demo_wf, of 65 1] taggable_demo by auto

text \<open>
  C32. \<^verbatim>\<open>radix_tree_tag_clear\<close> clears more than the tag of one index. After a success the
  index is not tagged, the other tags and the map are those of before, and an index keeps
  the tag exactly when it had it and lies under another slot of the root node: all tagged
  indices that share the root slot lose the tag with it.
\<close>

theorem radix_tree_tag_clear_spec:
  assumes "wf_root root" "tag < 3" "taggable root (unat index)"
  shows "\<exists>root'. radix_tree_tag_clear root index tag = Return (0, root') \<and> wf_root root' \<and> contents root' = contents root \<and>
    (\<forall>j t. radix_tree_tag_get root' j t = Return 1 \<longleftrightarrow> radix_tree_tag_get root j t = Return 1 \<and>
       (t = tag \<longrightarrow> digit (root_height root - 1) (unat j) \<noteq> digit (root_height root - 1) (unat index)))"
proof -
  obtain r root' where e: "tag_op wa_clear root index tag = (r, root')" by fastforce
  note sh = tag_op_shape [OF assms(1) _ e, simplified]
  note bits = tag_op_tagged [OF assms, of wa_clear False, OF wa_clear_bit e]
  obtain h where h: "root_height root = Suc h" using assms(3) by (auto simp: taggable_def gr0_conv_Suc)
  have "is_tagged root' t j \<longleftrightarrow> is_tagged root t j \<and> (t = tag \<longrightarrow> digit h j \<noteq> digit h (unat index))" for t j
    by (auto simp: bits is_tagged_def [of root] h same_slots_Suc simp del: power_Suc) (auto simp: same_slots_def)
  with e sh assms h show ?thesis by (auto simp: tag_clear_op radix_tree_tag_get_eq)
qed

theorem radix_tree_tag_clear_spec_witness:
  "wf_root tag_demo \<and> taggable tag_demo (unat (65 :: u64)) \<and> radix_tree_tag_get tag_demo 66 0 = Return 1 \<and>
   (\<exists>root'. radix_tree_tag_clear tag_demo 65 0 = Return (0, root') \<and> radix_tree_tag_get root' 66 0 \<noteq> Return 1)"
proof -
  have tg: "taggable tag_demo (unat (65 :: u64))" using taggable_demo by simp
  have "digit (root_height tag_demo - 1) (unat (66 :: u64)) = digit (root_height tag_demo - 1) (unat (65 :: u64))"
    by (simp add: digit_def tag_demo_def)
  moreover have "radix_tree_tag_get tag_demo 66 0 = Return 1" by code_simp
  ultimately show ?thesis using radix_tree_tag_clear_spec [OF tag_demo_wf _ tg, of 0] tag_demo_wf tg by auto
qed

text \<open>
  C33. An insertion that makes the tree higher drops all tags: the new root node starts with
  empty tag words, so after it no index is tagged.
\<close>

theorem radix_tree_insert_drops_tags:
  assumes "wf_root root" "radix_tree_insert root index item kz = Return (0, root', kz')"
    "root_height root' > root_height root"
  shows "radix_tree_tag_get root' j tag = Return 0"
proof -
  have "wf_root root'" "root_height root' = insert_height root index"
    using radix_tree_insert_cases [OF assms(1), of index item kz] assms(2) by (auto split: if_splits)
  moreover from this have "top_tags (root_node root') = replicate 3 [0]"
    using top_tags_insert [OF assms(1,2)] assms(3) by simp
  ultimately show ?thesis using no_top_tags by (simp add: radix_tree_tag_get_eq)
qed

theorem radix_tree_insert_drops_tags_witness:
  "radix_tree_tag_get tag_demo 65 0 = Return 1 \<and>
   (\<exists>root' kz'. radix_tree_insert tag_demo 5000 3 (replicate 7 True) = Return (0, root', kz') \<and>
      radix_tree_tag_get root' 65 0 = Return 0)"
proof -
  have "case radix_tree_insert tag_demo 5000 3 (replicate 7 True) of
      Return (r, root', _) \<Rightarrow> r = 0 \<and> root_height root' > root_height tag_demo | _ \<Rightarrow> False" by code_simp
  then obtain root' kz' where
    i: "radix_tree_insert tag_demo 5000 3 (replicate 7 True) = Return (0, root', kz')"
      "root_height root' > root_height tag_demo"
    by (auto split: outcome.splits prod.splits)
  have "radix_tree_tag_get tag_demo 65 0 = Return 1" by code_simp
  with i radix_tree_insert_drops_tags [OF tag_demo_wf i] show ?thesis by blast
qed

text \<open>
  \<^verbatim>\<open>radix_tree_gang_lookup_tag\<close> returns when it starts above index 0: it hands out at
  most \<^verbatim>\<open>max_items\<close> items, each of them the entry of a tagged index at or above the start.
\<close>

theorem radix_tree_gang_lookup_tag_ends:
  assumes "wf_root root" "0 < first_index"
  shows "\<exists>items. radix_tree_gang_lookup_tag root first_index max_items tag = Some (Return items) \<and>
    length items \<le> unat max_items \<and>
    (\<forall>x \<in> set items. x \<noteq> Null \<and> (\<exists>i \<ge> first_index.
       radix_tree_tag_get root i tag = Return 1 \<and> radix_tree_lookup root i = Return x))"
  using gang_lookup_tag_ends [OF assms order_refl, of tag "unat max_items"]
  by (auto simp: radix_tree_gang_lookup_tag_def radix_tree_tag_get_1 [OF assms(1)])

theorem radix_tree_gang_lookup_tag_ends_witness:
  "wf_root tag_demo \<and> (\<exists>items. radix_tree_gang_lookup_tag tag_demo 65 8 0 = Some (Return items))"
  using tag_demo_wf radix_tree_gang_lookup_tag_ends [OF tag_demo_wf, of 65 8 0] by auto

text \<open>
  C34. Started at index 0 on a tree with no tagged index, \<^verbatim>\<open>radix_tree_gang_lookup_tag\<close> never
  returns: its wrap-around test \<^verbatim>\<open>index < first_index\<close> can not hold for a start of 0.
\<close>

theorem radix_tree_gang_lookup_tag_diverges:
  assumes "wf_root root" "\<forall>index. radix_tree_tag_get root index tag = Return 0" "tag < 3" "0 < max_items"
  shows "radix_tree_gang_lookup_tag root 0 max_items tag = None"
proof -
  have "\<not> is_tagged root tag (unat i)" for i :: u64
    using assms(2) radix_tree_tag_get_eq [OF assms(1), of i tag] by (auto split: if_splits)
  from skip_untagged_diverges [OF assms(1) this] have "skip_untagged root 0 tag 0 = None" .
  moreover obtain n where "unat max_items = Suc n" using assms(4) by (metis gr0_implies_Suc unat_gt_0 word_gt_0)
  ultimately show ?thesis using assms(3) by (simp add: radix_tree_gang_lookup_tag_def)
qed

theorem radix_tree_gang_lookup_tag_diverges_witness:
  "radix_tree_gang_lookup_tag radix_tree_init 0 1 0 = None"
proof -
  have "\<forall>index. radix_tree_tag_get radix_tree_init index 0 = Return 0"
    by (simp add: radix_tree_tag_get_def radix_tree_init_def)
  from radix_tree_gang_lookup_tag_diverges [OF wf_root_init this, of 1] show ?thesis by simp
qed

end
