(* ===== verification/RadixIter.thy ===== *)
theory RadixIter
  imports RadixTree
begin

text \<open>
  Counting and iteration over the radix tree (\<^verbatim>\<open>_count_items\<close>, \<^verbatim>\<open>_for_each\<close> and their
  callers in \<^verbatim>\<open>kernel/util/radix_tree.c\<close>). A callback takes the item, its index and the
  caller's data and returns a code and the data after it. The main lemma is that the
  recursive descent, with its comparison of counts to find out whether the callback has
  stopped, is one pass over the entries of the map in increasing order of index.
\<close>

section \<open>Model\<close>

text \<open>
  \<^verbatim>\<open>_count_items\<close>. On a well-formed tree a slot at height 1 or more is null or a node; for
  an item in such a place the value here is 0.
\<close>

fun count_items :: "nat \<Rightarrow> slot \<Rightarrow> u64" where
  "count_items (Suc 0) (Node nh c ss tg) = foldl (\<lambda>count s. if s \<noteq> Null then count + 1 else count) 0 ss"
| "count_items (Suc (Suc h)) (Node nh c ss tg) =
     foldl (\<lambda>count s. if s \<noteq> Null then count + count_items (Suc h) s else count) 0 ss"
| "count_items h node = 0"

definition radix_tree_count_items :: "radixTreeRoot \<Rightarrow> u64" where
  "radix_tree_count_items root =
     (if root_height root = 0 \<or> root_node root = Null then 0
      else count_items (root_height root) (root_node root))"

text \<open>The loop of \<^verbatim>\<open>_for_each\<close> over the slots of a leaf, numbered from \<^verbatim>\<open>i\<close> on.\<close>

fun for_each_leaf ::
  "(ptr \<Rightarrow> u64 \<Rightarrow> 'd \<Rightarrow> int \<times> 'd) \<Rightarrow> u64 \<Rightarrow> (nat \<times> slot) list \<Rightarrow> u32 \<Rightarrow> 'd \<Rightarrow> u32 \<times> 'd" where
  "for_each_leaf fn base_index [] count data = (count, data)"
| "for_each_leaf fn base_index ((i, Item p) # slots) count data =
     (case fn p (base_index OR of_nat i) data of
        (r, data') \<Rightarrow>
          if r = 0 then for_each_leaf fn base_index slots (count + 1) data' else (count, data'))"
| "for_each_leaf fn base_index ((i, s) # slots) count data = for_each_leaf fn base_index slots count data"

text \<open>
  The loop over the slots of an internal node; \<open>descend\<close> is the recursive call on a child
  and \<open>items\<close> its number of items. The offset is shifted as a \<^verbatim>\<open>uint32\<close>.
\<close>

fun for_each_node ::
  "(slot \<Rightarrow> u64 \<Rightarrow> 'd \<Rightarrow> u32 \<times> 'd) \<Rightarrow> (slot \<Rightarrow> u64) \<Rightarrow> nat \<Rightarrow> u64 \<Rightarrow> (nat \<times> slot) list \<Rightarrow> u32 \<Rightarrow> 'd \<Rightarrow> u32 \<times> 'd" where
  "for_each_node descend items shift base_index [] count data = (count, data)"
| "for_each_node descend items shift base_index ((i, s) # slots) count data =
     (if s \<noteq> Null then
        let new_base = base_index OR ucast (push_bit shift (of_nat i) :: u32) in
        case descend s new_base data of
          (ret, data') \<Rightarrow>
            if ucast ret \<noteq> items s then (count + ret, data')
            else for_each_node descend items shift base_index slots (count + ret) data'
      else for_each_node descend items shift base_index slots count data)"

fun for_each :: "(ptr \<Rightarrow> u64 \<Rightarrow> 'd \<Rightarrow> int \<times> 'd) \<Rightarrow> nat \<Rightarrow> slot \<Rightarrow> u64 \<Rightarrow> 'd \<Rightarrow> u32 \<times> 'd" where
  "for_each fn (Suc 0) (Node nh c ss tg) base_index data =
     for_each_leaf fn base_index (enumerate 0 ss) 0 data"
| "for_each fn (Suc (Suc h)) (Node nh c ss tg) base_index data =
     for_each_node (\<lambda>s b d. for_each fn (Suc h) s b d) (count_items (Suc h)) (Suc h * 6) base_index
       (enumerate 0 ss) 0 data"
| "for_each fn h node base_index data = (0, data)"

definition radix_tree_for_each ::
  "radixTreeRoot \<Rightarrow> (ptr \<Rightarrow> u64 \<Rightarrow> 'd \<Rightarrow> int \<times> 'd) \<Rightarrow> 'd \<Rightarrow> u32 \<times> 'd" where
  "radix_tree_for_each root fn data =
     (if root_height root = 0 \<or> root_node root = Null then (0, data)
      else for_each fn (root_height root) (root_node root) 0 data)"

section \<open>Specification\<close>

text \<open>The entries of a subtree of height \<open>h\<close> whose first index is \<open>base\<close>, in order.\<close>

fun entries :: "nat \<Rightarrow> slot \<Rightarrow> nat \<Rightarrow> (nat \<times> ptr) list" where
  "entries 0 (Item p) base = [(base, p)]"
| "entries (Suc h) (Node nh c ss tg) base =
     concat (map (\<lambda>(k, s). entries h s (base + k * 64 ^ h)) (enumerate 0 ss))"
| "entries h t base = []"

text \<open>One pass over a list of entries, up to the first callback that does not return 0.\<close>

fun run_each :: "(ptr \<Rightarrow> u64 \<Rightarrow> 'd \<Rightarrow> int \<times> 'd) \<Rightarrow> (nat \<times> ptr) list \<Rightarrow> 'd \<Rightarrow> nat \<times> 'd" where
  "run_each fn [] data = (0, data)"
| "run_each fn ((i, p) # es) data =
     (case fn p (of_nat i) data of
        (r, data') \<Rightarrow>
          if r = 0 then (case run_each fn es data' of (n, data'') \<Rightarrow> (Suc n, data'')) else (0, data'))"

section \<open>Lemmas\<close>

lemma run_each_le: "fst (run_each fn es data) \<le> length es"
  by (induction fn es data rule: run_each.induct) (auto split: prod.splits)

lemma run_each_append:
  "run_each fn (es @ es') data =
     (if fst (run_each fn es data) = length es
      then (length es + fst (run_each fn es' (snd (run_each fn es data))), snd (run_each fn es' (snd (run_each fn es data))))
      else run_each fn es data)"
proof (induction fn es data rule: run_each.induct)
  case (2 fn i p es data)
  then show ?case using run_each_le [of fn es "snd (fn p (of_nat i) data)"] by (auto split: prod.splits)
qed simp

lemma entries_Null [simp]: "entries h Null base = []"
  by (cases h) auto

lemma length_entries: "wf_slot h t \<Longrightarrow> length (entries h t base) \<le> 64 ^ h"
proof (induction h arbitrary: t base)
  case 0
  then show ?case by (cases t) auto
next
  case (Suc h)
  show ?case
  proof (cases t)
    case (Node nh c ss tg)
    have "sum_list (map (\<lambda>(k, s). length (entries h s (base + k * 64 ^ h))) (enumerate 0 ss)) \<le> sum_list (map (\<lambda>_. 64 ^ h) (enumerate 0 ss))"
      using Suc.prems Node by (intro sum_list_mono) (auto intro!: Suc.IH simp: list_all_iff in_set_enumerate_eq)
    also have "\<dots> = 64 ^ Suc h" using Suc.prems Node by (simp add: sum_list_triv)
    finally show ?thesis using Node by (simp add: length_concat comp_def case_prod_unfold)
  qed (use Suc.prems in auto)
qed

text \<open>The number of entries of a subtree.\<close>

definition size_at :: "nat \<Rightarrow> slot \<Rightarrow> nat" where
  "size_at h t = length (entries h t 0)"

lemma size_at_Null [simp]: "size_at h Null = 0"
  by (simp add: size_at_def)

lemma length_entries_Node:
  "length (entries (Suc h) (Node nh c ss tg) base) = sum_list (map (\<lambda>(k, s). length (entries h s (base + k * 64 ^ h))) (enumerate 0 ss))"
  by (simp add: length_concat comp_def case_prod_unfold)

lemma sum_enumerate_snd: "sum_list (map (\<lambda>(k, s). f s) (enumerate n ss)) = sum_list (map f ss)"
  by (induction ss arbitrary: n) auto

lemma length_entries_eq: "length (entries h t base) = size_at h t"
proof (induction h arbitrary: t base)
  case 0
  then show ?case by (cases t) (auto simp: size_at_def)
next
  case (Suc h)
  have len: "length (entries (Suc h) (Node nh c ss tg) b) = sum_list (map (size_at h) ss)" for nh c ss tg b
    by (simp add: length_entries_Node Suc.IH sum_enumerate_snd del: entries.simps)
  then show ?case by (cases t) (auto simp: size_at_def simp del: entries.simps(2))
qed

lemma size_at_Node: "size_at (Suc h) (Node nh c ss tg) = sum_list (map (size_at h) ss)"
  using length_entries_Node [of h nh c ss tg 0] by (simp add: length_entries_eq sum_enumerate_snd del: entries.simps)

lemma size_at_0: "wf_slot 0 t \<Longrightarrow> size_at 0 t = (if t = Null then 0 else 1)"
  by (cases t) (auto simp: size_at_def)

lemma foldl_count:
  assumes "\<And>s. s \<in> set ss \<Longrightarrow> s \<noteq> Null \<Longrightarrow> g s = of_nat (n s)" "n Null = 0"
  shows "foldl (\<lambda>count s. if s \<noteq> Null then count + g s else count) a ss = a + (of_nat (sum_list (map n ss)) :: u64)"
  using assms by (induction ss arbitrary: a) (auto simp: add.assoc)

lemma count_items_eq: "wf_slot (Suc h) t \<Longrightarrow> count_items (Suc h) t = of_nat (size_at (Suc h) t)"
proof (induction h arbitrary: t)
  case 0
  show ?case
  proof (cases t)
    case (Node nh c ss tg)
    have "g = (\<lambda>_. 1) \<Longrightarrow> foldl (\<lambda>count s. if s \<noteq> Null then count + g s else count) 0 ss = (0::u64) + of_nat (sum_list (map (size_at 0) ss))" for g
      using 0 Node by (intro foldl_count) (auto simp: size_at_0 list_all_iff)
    with Node show ?thesis by (simp add: size_at_Node)
  qed (use 0 in auto)
next
  case (Suc h)
  show ?case
  proof (cases t)
    case (Node nh c ss tg)
    have "foldl (\<lambda>count s. if s \<noteq> Null then count + count_items (Suc h) s else count) 0 ss =
        0 + of_nat (sum_list (map (size_at (Suc h)) ss))"
      using Suc.prems Node by (intro foldl_count Suc.IH) (auto simp: list_all_iff)
    with Node show ?thesis by (simp add: size_at_Node)
  qed (use Suc.prems in auto)
qed

text \<open>The entries are those of the map, in strictly increasing order.\<close>

lemma set_enumerate: "set (enumerate 0 ss) = (\<lambda>k. (k, ss ! k)) ` {..<length ss}"
  by (auto simp: in_set_enumerate_eq image_iff)

lemma set_entries:
  "wf_slot h t \<Longrightarrow> set (entries h t base) = {(base + i, p) | i p. i < 64 ^ h \<and> slot_at h t i = Item p}"
proof (induction h arbitrary: t base)
  case 0
  then show ?case by (cases t) auto
next
  case (Suc h)
  show ?case
  proof (cases t)
    case (Node nh c ss tg)
    then have l: "length ss = 64" and w: "\<And>k. k < 64 \<Longrightarrow> wf_slot h (ss ! k)" using Suc.prems by (auto simp: list_all_length)
    have "set (entries (Suc h) t base) = (\<Union>k < 64. set (entries h (ss ! k) (base + k * 64 ^ h)))"
      by (simp add: Node set_enumerate l)
    also have "\<dots> = (\<Union>k < 64. {(base + k * 64 ^ h + i, p) | i p. i < 64 ^ h \<and> slot_at h (ss ! k) i = Item p})"
      using w by (simp add: Suc.IH)
    also have "\<dots> = {(base + i, p) | i p. i < 64 ^ Suc h \<and> slot_at (Suc h) t i = Item p}" (is "?L = ?R")
    proof (intro set_eqI iffI)
      fix x
      assume "x \<in> ?L"
      then obtain k i p where x: "x = (base + (k * 64 ^ h + i), p)" "k < 64" "i < 64 ^ h" "slot_at h (ss ! k) i = Item p"
        by (auto simp: add.assoc)
      then have d: "digit h (k * 64 ^ h + i) = k" by (simp add: digit_def)
      have m: "(k * 64 ^ h + i) mod 64 ^ h = i mod 64 ^ h" by simp
      have "k * 64 ^ h + i < Suc k * 64 ^ h" using x by simp
      also have "\<dots> \<le> 64 * 64 ^ h" using x by (intro mult_le_mono1) simp
      finally show "x \<in> ?R" using x d slot_at_cong [OF m, of "ss ! k"] by (auto simp: Node)
    next
      fix x
      assume "x \<in> ?R"
      then obtain i p where x: "x = (base + i, p)" "i < 64 ^ Suc h" "slot_at h (ss ! digit h i) i = Item p"
        by (auto simp: Node)
      then have "i div 64 ^ h < 64" by (simp add: less_mult_imp_div_less)
      then have d: "digit h i * 64 ^ h + i mod 64 ^ h = i" using div_mult_mod_eq [of i "64 ^ h"] by (simp add: digit_def)
      have "slot_at h (ss ! digit h i) (i mod 64 ^ h) = Item p" using x slot_at_mod [of h h] by simp
      moreover have "i mod 64 ^ h < 64 ^ h" by simp
      ultimately show "x \<in> ?L" using x(1) d by (intro UN_I [of "digit h i"]) (auto simp: add.assoc intro!: exI [of _ "i mod 64 ^ h"])
    qed
    finally show ?thesis .
  qed (use Suc.prems in auto)
qed

lemma sorted_entries: "wf_slot h t \<Longrightarrow> sorted_wrt (<) (map fst (entries h t base))"
proof (induction h arbitrary: t base)
  case 0
  then show ?case by (cases t) auto
next
  case (Suc h)
  let ?es = "\<lambda>n ss. concat (map (\<lambda>(k, s). entries h s (base + k * 64 ^ h)) (enumerate n ss))"
  have "sorted_wrt (<) (map fst (?es n ss)) \<and> (\<forall>e \<in> set (?es n ss). base + n * 64 ^ h \<le> fst e)"
    if "list_all (wf_slot h) ss" for n ss
    using that
  proof (induction ss arbitrary: n)
    case (Cons s ss)
    then have w: "wf_slot h s" by simp
    have lo: "base + n * 64 ^ h \<le> fst e" and hi: "fst e < base + Suc n * 64 ^ h"
      if "e \<in> set (entries h s (base + n * 64 ^ h))" for e
      using that by (auto simp: set_entries [OF w])
    have ih: "sorted_wrt (<) (map fst (?es (Suc n) ss)) \<and> (\<forall>e \<in> set (?es (Suc n) ss). base + Suc n * 64 ^ h \<le> fst e)"
      using Cons.prems by (intro Cons.IH) simp
    note IH = conjunct1 [OF ih] bspec [OF conjunct2 [OF ih]]
    have "fst e < fst e'" if "e \<in> set (entries h s (base + n * 64 ^ h))" "e' \<in> set (?es (Suc n) ss)" for e e'
      using hi [OF that(1)] IH(2) [OF that(2)] by linarith
    moreover have "base + n * 64 ^ h \<le> fst e'" if "e' \<in> set (?es (Suc n) ss)" for e'
      using IH(2) [OF that] by simp
    ultimately show ?case using lo IH(1) Suc.IH [OF w]
      by (simp add: sorted_wrt_append del: set_concat) blast
  qed simp
  then show ?case using Suc.prems by (cases t) auto
qed

lemma pow_64: "(64::nat) ^ h = 2 ^ (h * 6)"
  using power_mult [of "2::nat" 6 h] by (simp add: mult.commute)

lemma new_base_eq:
  assumes "k < 64" "h \<le> 3"
  shows "of_nat (b * 64 ^ Suc h) OR ucast (push_bit (h * 6) (of_nat k) :: u32) = (of_nat (b * 64 ^ Suc h + k * 64 ^ h) :: u64)"
proof -
  have "k * 64 ^ h < 64 * 64 ^ h" using assms by simp
  then have lt: "k * 64 ^ h < 2 ^ (Suc h * 6)" by (simp add: pow_64 [of "Suc h", symmetric] del: mult_Suc)
  also have "(2::nat) ^ (Suc h * 6) \<le> 2 ^ 24" using assms by (intro power_increasing) auto
  finally have "k * 64 ^ h < 2 ^ 32" by simp
  moreover have "push_bit (h * 6) (of_nat k) = (of_nat (k * 64 ^ h) :: u32)"
    by (simp add: push_bit_eq_mult pow_64 mult.commute)
  ultimately have "ucast (push_bit (h * 6) (of_nat k) :: u32) = (of_nat (k * 64 ^ h) :: u64)"
    by (simp add: ucast_of_nat_32 del: of_nat_mult of_nat_power)
  with or_eq_add_word [OF lt, of b] show ?thesis
    by (simp add: pow_64 [of "Suc h", symmetric] del: mult_Suc of_nat_mult of_nat_add)
qed

lemma leaf_index_eq: "k < 64 \<Longrightarrow> of_nat (b * 64) OR of_nat k = (of_nat (b * 64 + k) :: u64)"
  using or_eq_add_word [of k 6 b] by simp

lemma for_each_leaf_eq:
  assumes "n + length ss \<le> 64" "list_all (wf_slot 0) ss"
  shows "for_each_leaf fn (of_nat (b * 64)) (enumerate n ss) count data =
    (case run_each fn (concat (map (\<lambda>(k, s). entries 0 s (b * 64 + k)) (enumerate n ss))) data of
       (m, data') \<Rightarrow> (count + of_nat m, data'))"
  using assms
proof (induction ss arbitrary: n count data)
  case (Cons s ss)
  then have n: "n < 64" "Suc n + length ss \<le> 64" "list_all (wf_slot 0) ss" by auto
  consider "s = Null" | p where "s = Item p" using Cons.prems by (auto simp: wf_slot_0)
  then show ?case
  proof cases
    case 2
    with n show ?thesis
      by (simp add: leaf_index_eq Cons.IH [OF n(2,3)] add.assoc split: prod.splits
          del: of_nat_mult of_nat_add)
  qed (simp add: Cons.IH [OF n(2,3)] del: of_nat_mult)
qed simp

lemma for_each_node_eq:
  assumes desc: "\<And>s b d. s \<in> set ss \<Longrightarrow> s \<noteq> Null \<Longrightarrow> descend s (of_nat (b * 64 ^ h)) d =
        (case run_each fn (entries h s (b * 64 ^ h)) d of (m, d') \<Rightarrow> (of_nat m, d'))"
    and items: "\<And>s. s \<in> set ss \<Longrightarrow> items s = of_nat (size_at h s)"
    and small: "\<And>s. s \<in> set ss \<Longrightarrow> size_at h s < 2 ^ 32"
    and "n + length ss \<le> 64" "h \<le> 3"
  shows "for_each_node descend items (h * 6) (of_nat (b * 64 ^ Suc h)) (enumerate n ss) count data =
    (case run_each fn (concat (map (\<lambda>(k, s). entries h s (b * 64 ^ Suc h + k * 64 ^ h)) (enumerate n ss))) data of
       (m, data') \<Rightarrow> (count + of_nat m, data'))"
  using assms
proof (induction ss arbitrary: n count data)
  case (Cons s ss)
  then have n: "n < 64" and IH: "\<And>count data. for_each_node descend items (h * 6) (of_nat (b * 64 ^ Suc h)) (enumerate (Suc n) ss) count data =
    (case run_each fn (concat (map (\<lambda>(k, s). entries h s (b * 64 ^ Suc h + k * 64 ^ h)) (enumerate (Suc n) ss))) data of
       (m, data') \<Rightarrow> (count + of_nat m, data'))" by auto
  show ?case
  proof (cases "s = Null")
    case True
    then show ?thesis by (simp add: IH del: of_nat_mult of_nat_power power_Suc)
  next
    case False
    define b' where "b' = b * 64 + n"
    have b': "b * 64 ^ Suc h + n * 64 ^ h = b' * 64 ^ h" by (simp add: b'_def algebra_simps)
    obtain m d' where r: "run_each fn (entries h s (b' * 64 ^ h)) data = (m, d')" by fastforce
    have m: "m \<le> size_at h s" using run_each_le [of fn "entries h s (b' * 64 ^ h)" data] r by (simp add: length_entries_eq)
    have sm: "size_at h s < 2 ^ 32" using Cons.prems by simp
    have "(ucast (of_nat m :: u32) = items s) \<longleftrightarrow> m = size_at h s"
      using m sm Cons.prems(2) [of s] by (subst ucast_of_nat_32) (auto simp: of_nat_eq_64)
    then show ?thesis
      using False n Cons.prems(5) Cons.prems(1) [of s b' data] r
      by (simp add: new_base_eq b' IH run_each_append length_entries_eq add.assoc split: prod.splits
          del: of_nat_mult of_nat_power power_Suc of_nat_add) auto
  qed
qed simp

lemma size_at_le: "wf_slot h t \<Longrightarrow> size_at h t \<le> 64 ^ h"
  using length_entries by (simp add: size_at_def)

lemma size_at_small: "wf_slot h t \<Longrightarrow> h \<le> 4 \<Longrightarrow> size_at h t < 2 ^ 32"
proof -
  assume a: "wf_slot h t" "h \<le> 4"
  have "size_at h t \<le> 64 ^ h" using a by (simp add: size_at_le)
  also have "(64::nat) ^ h \<le> 64 ^ 4" by (rule power_increasing) (use a in auto)
  finally show ?thesis by simp
qed

lemma for_each_eq:
  assumes "wf_slot (Suc h) t" "h \<le> 3"
  shows "for_each fn (Suc h) t (of_nat (b * 64 ^ Suc h)) data =
    (case run_each fn (entries (Suc h) t (b * 64 ^ Suc h)) data of (m, data') \<Rightarrow> (of_nat m, data'))"
  using assms
proof (induction h arbitrary: t b data)
  case 0
  then consider "t = Null" | nh c ss tg where "t = Node nh c ss tg" using wf_slot_Suc by blast
  then show ?case
  proof cases
    case 2
    with 0 for_each_leaf_eq [of 0 ss fn b 0 data] show ?thesis by (simp del: of_nat_mult)
  qed simp
next
  case (Suc h)
  then consider "t = Null" | nh c ss tg where "t = Node nh c ss tg" using wf_slot_Suc by blast
  then show ?case
  proof cases
    case 2
    have w: "\<And>s. s \<in> set ss \<Longrightarrow> wf_slot (Suc h) s" "length ss = 64" using Suc.prems 2 by (auto simp: list_all_iff)
    have "for_each_node (\<lambda>s b d. for_each fn (Suc h) s b d) (count_items (Suc h)) (Suc h * 6) (of_nat (b * 64 ^ Suc (Suc h)))
        (enumerate 0 ss) 0 data =
      (case run_each fn (concat (map (\<lambda>(k, s). entries (Suc h) s (b * 64 ^ Suc (Suc h) + k * 64 ^ Suc h)) (enumerate 0 ss))) data of
         (m, data') \<Rightarrow> (0 + of_nat m, data'))"
      using w Suc.prems(2) by (intro for_each_node_eq Suc.IH count_items_eq size_at_small) auto
    then show ?thesis unfolding 2 for_each.simps(2) entries.simps(2) by (simp only: add_0)
  qed simp
qed

text \<open>The entries of a tree, in order.\<close>

definition root_entries :: "radixTreeRoot \<Rightarrow> (nat \<times> ptr) list" where
  "root_entries root = entries (root_height root) (root_node root) 0"

lemma item_of_Some: "item_of s = Some p \<longleftrightarrow> s = Item p"
  by (cases s) (auto simp: item_of_def)

lemma set_root_entries: "wf_root root \<Longrightarrow> set (root_entries root) = {(i, p). contents root i = Some p}"
  unfolding root_entries_def
  by (subst set_entries) (auto simp: wf_root_def contents_def item_of_Some split: if_splits)

lemma radix_tree_for_each_eq:
  assumes "wf_root root"
  shows "radix_tree_for_each root fn data = (case run_each fn (root_entries root) data of (m, data') \<Rightarrow> (of_nat m, data'))"
proof (cases "root_height root")
  case 0
  with assms show ?thesis by (simp add: radix_tree_for_each_def root_entries_def wf_root_def)
next
  case (Suc h)
  then have "wf_slot (Suc h) (root_node root)" "h \<le> 3" using assms by (auto simp: wf_root_def)
  from for_each_eq [OF this, of fn 0 data] Suc assms show ?thesis
    by (auto simp: radix_tree_for_each_def root_entries_def wf_root_def simp del: for_each.simps entries.simps)
qed

section \<open>Properties\<close>

text \<open>
  C12. \<^verbatim>\<open>radix_tree_for_each\<close> is one pass over the entries of the map in increasing order of
  index: there is a list of all entries, without repetition and sorted by index, such that
  the callback is applied along it up to and including the first call that does not return
  0, and the value returned is the number of calls before that one.
\<close>

theorem radix_tree_for_each_spec:
  assumes "wf_root root"
  shows "\<exists>es. sorted_wrt (<) (map fst es) \<and> set es = {(i, p). contents root i = Some p} \<and>
    radix_tree_for_each root fn data = (case run_each fn es data of (m, data') \<Rightarrow> (of_nat m, data'))"
  using radix_tree_for_each_eq [OF assms] set_root_entries [OF assms]
    sorted_entries [of "root_height root" "root_node root" 0] assms
  by (intro exI [of _ "root_entries root"]) (auto simp: root_entries_def wf_root_def)

theorem radix_tree_for_each_spec_witness:
  "wf_root demo_tree \<and>
   (\<exists>es. set es = {(i, p). contents demo_tree i = Some p} \<and>
      radix_tree_for_each demo_tree (\<lambda>p i d. (0, d + p)) 0 =
        (case run_each (\<lambda>p i d. (0, d + p)) es 0 of (m, d) \<Rightarrow> (of_nat m, d)))"
  using demo_wf radix_tree_for_each_spec [OF demo_wf, of "\<lambda>p i d. (0, d + p)" 0] by blast

text \<open>
  C35. \<^verbatim>\<open>radix_tree_count_items\<close> returns the number of entries of the map, with no loss in the
  64-bit sum.
\<close>

theorem radix_tree_count_items_spec:
  assumes "wf_root root"
  shows "unat (radix_tree_count_items root) = card {i. contents root i \<noteq> None}"
proof -
  let ?es = "root_entries root"
  have wf: "wf_slot (root_height root) (root_node root)" "root_height root \<le> 4" using assms by (auto simp: wf_root_def)
  have "radix_tree_count_items root = of_nat (length ?es)"
    using assms count_items_eq [of "root_height root - 1" "root_node root"]
    by (auto simp: radix_tree_count_items_def root_entries_def length_entries_eq wf_root_def)
  moreover have "length ?es < 2 ^ 32" using size_at_small [OF wf] by (simp add: root_entries_def length_entries_eq)
  ultimately have "unat (radix_tree_count_items root) = length (map fst ?es)" by (simp add: unat_of_nat)
  also have "distinct (map fst ?es)"
    using sorted_entries [OF wf(1), of 0] strict_sorted_iff unfolding root_entries_def by blast
  then have "length (map fst ?es) = card (set (map fst ?es))" by (rule distinct_card [symmetric])
  also have "set (map fst ?es) = {i. contents root i \<noteq> None}"
    using set_root_entries [OF assms] by (force simp: image_iff)
  finally show ?thesis .
qed

theorem radix_tree_count_items_spec_witness:
  "wf_root demo_tree \<and> unat (radix_tree_count_items demo_tree) = card {i. contents demo_tree i \<noteq> None}"
  using demo_wf radix_tree_count_items_spec [OF demo_wf] by blast

end
