(* ===== verification/Spec2Isabelle.thy ===== *)
theory Spec2Isabelle
  imports Prelude Klist Hashtable Inode Pid Sched Signal Page PageTable Vma Mmap Uaccess Ktime File Fdtable RadixTree RadixTags RadixIter
begin

text \<open>
  A verification development of the oscomp kernel, a RISC-V teaching kernel in C.
\<close>

end
